(* ===== verification/Prelude.thy ===== *)
theory Prelude
  imports Complex_Main "HOL-Library.Word"
begin

text \<open>
  The Python substrate of the gateway model: byte strings, exceptions as values,
  slices, the \<^verbatim>\<open>struct\<close> module's big-endian pack and unpack, and the bit operations on
  Python's unbounded integers. Every component theory imports this one.
\<close>

unbundle bit_operations_syntax

section \<open>Bytes, strings, exceptions\<close>

text \<open>
  A Python \<^verbatim>\<open>bytes\<close> object is a list of 8-bit words; a \<^verbatim>\<open>str\<close> is the list of its code
  points. Python integers are \<open>int\<close>, offsets into a byte string are \<open>nat\<close>.
\<close>

type_synonym byte = "8 word"
type_synonym bytes = "byte list"
type_synonym pystr = "nat list"

datatype exn = ValueError | StructError | IndexError | TypeError | KeyError | OSError | RuntimeError

type_synonym 'a res = "exn + 'a"

definition str_of :: "string \<Rightarrow> pystr" where
  "str_of s = map of_char s"

text \<open>Sequencing of two steps that may raise: the second runs on the first one's value.\<close>

definition bindr :: "'a res \<Rightarrow> ('a \<Rightarrow> 'b res) \<Rightarrow> 'b res" where
  "bindr m f = (case m of Inl e \<Rightarrow> Inl e | Inr x \<Rightarrow> f x)"

lemma bindr_simps [simp]:
  "bindr (Inl e) f = Inl e"
  "bindr (Inr x) f = f x"
  by (simp_all add: bindr_def)

lemma bindr_eq_Inr: "bindr m f = Inr y \<longleftrightarrow> (\<exists>x. m = Inr x \<and> f x = Inr y)"
  by (cases m) simp_all

lemma bindr_eq_Inl: "bindr m f = Inl e \<longleftrightarrow> m = Inl e \<or> (\<exists>x. m = Inr x \<and> f x = Inl e)"
  by (cases m) simp_all

text \<open>\<^verbatim>\<open>try: x = m; except ValueError: return d\<close>, then \<open>k x\<close>; other exceptions propagate.\<close>

definition catch_value :: "'a res \<Rightarrow> 'b res \<Rightarrow> ('a \<Rightarrow> 'b res) \<Rightarrow> 'b res" where
  "catch_value m d k =
     (case m of Inl e \<Rightarrow> if e = ValueError then d else Inl e | Inr x \<Rightarrow> k x)"

lemma catch_value_simps [simp]:
  "catch_value (Inl ValueError) d k = d"
  "catch_value (Inr x) d k = k x"
  "e \<noteq> ValueError \<Longrightarrow> catch_value (Inl e) d k = Inl e"
  by (simp_all add: catch_value_def)

fun mapr :: "('a \<Rightarrow> 'b res) \<Rightarrow> 'a list \<Rightarrow> 'b list res" where
  "mapr f [] = Inr []"
| "mapr f (x # xs) = bindr (f x) (\<lambda>y. bindr (mapr f xs) (\<lambda>ys. Inr (y # ys)))"

lemma mapr_Inr: "(\<And>x. x \<in> set xs \<Longrightarrow> f x = Inr (g x)) \<Longrightarrow> mapr f xs = Inr (map g xs)"
  by (induction xs) simp_all

text \<open>\<^verbatim>\<open>b[i:j]\<close> for non-negative bounds: clipped to the string, never an error.\<close>

definition slice :: "nat \<Rightarrow> nat \<Rightarrow> 'a list \<Rightarrow> 'a list" where
  "slice i j xs = take (j - i) (drop i xs)"

lemma length_slice [simp]: "length (slice i j xs) = min (j - i) (length xs - i)"
  by (simp add: slice_def min.commute)

lemma slice_append_left: "j \<le> length xs \<Longrightarrow> slice i j (xs @ ys) = slice i j xs"
  by (cases "i \<le> length xs") (auto simp: slice_def)

lemma slice_append_right:
  "length xs \<le> i \<Longrightarrow> slice i j (xs @ ys) = slice (i - length xs) (j - length xs) ys"
  by (auto simp: slice_def)

lemma slice_all: "length xs \<le> j \<Longrightarrow> slice 0 j xs = xs"
  by (simp add: slice_def)

lemma drop_append_ge: "length xs \<le> i \<Longrightarrow> drop i (xs @ ys) = drop (i - length xs) ys"
  by simp

text \<open>\<^verbatim>\<open>b[i]\<close> where the surrounding code has already checked \<^verbatim>\<open>i < len(b)\<close>.\<close>

definition byte_at :: "bytes \<Rightarrow> nat \<Rightarrow> int" where
  "byte_at b i = uint (b ! i)"

lemma byte_at_bounds [simp]: "0 \<le> byte_at b i" "byte_at b i < 256"
  using uint_lt2p [of "b ! i"] by (simp_all add: byte_at_def)

lemma byte_at_append [simp]:
  "byte_at (xs @ ys) i = (if i < length xs then byte_at xs i else byte_at ys (i - length xs))"
  by (simp add: byte_at_def nth_append)

lemma byte_at_Cons [simp]: "byte_at (x # xs) 0 = uint x" "byte_at (x # xs) (Suc i) = byte_at xs i"
  by (simp_all add: byte_at_def)

section \<open>Bit operations on Python integers\<close>

named_theorems bit_arith \<open>masks, shifts and joins as arithmetic\<close>

lemma and_low_mask: "m = 2 ^ n - 1 \<Longrightarrow> (x::int) AND m = x mod 2 ^ n"
  by (simp only: mask_eq_exp_minus_1 [symmetric] take_bit_eq_mask [symmetric] take_bit_eq_mod)

lemma and_masks [bit_arith]:
  fixes x :: int
  shows "x AND 3 = x mod 4" "x AND 15 = x mod 16" "x AND 63 = x mod 64"
    "x AND 255 = x mod 256" "x AND 511 = x mod 512" "x AND 8191 = x mod 8192"
    "x AND 65535 = x mod 65536" "x AND 4294967295 = x mod 4294967296"
  by (simp_all add: and_low_mask [where n = 2] and_low_mask [where n = 4]
    and_low_mask [where n = 6] and_low_mask [where n = 8] and_low_mask [where n = 9]
    and_low_mask [where n = 13] and_low_mask [where n = 16] and_low_mask [where n = 32])

lemma shift_right [bit_arith]: "drop_bit n (x::int) = x div 2 ^ n"
  by (rule drop_bit_eq_div)

lemma shift_left_or [bit_arith]:
  assumes "0 \<le> (b::int)" "b < 2 ^ n"
  shows "push_bit n a OR b = a * 2 ^ n + b"
proof -
  have "push_bit n a AND b = 0"
  proof (rule bit_eqI)
    fix m
    have "b = take_bit n b" using assms by (simp add: take_bit_int_eq_self)
    then have "bit b m \<longleftrightarrow> m < n \<and> bit b m" by (metis bit_take_bit_iff)
    then show "bit (push_bit n a AND b) m \<longleftrightarrow> bit (0::int) m"
      by (auto simp: bit_and_iff bit_push_bit_iff)
  qed
  then have "push_bit n a OR b = push_bit n a + b"
    by (simp add: disjunctive_add_eq_or)
  then show ?thesis by (simp add: push_bit_eq_mult)
qed

text \<open>The truth value of \<^verbatim>\<open>flags & mask\<close>.\<close>

definition has_flag :: "int \<Rightarrow> int \<Rightarrow> bool" where
  "has_flag flags m \<longleftrightarrow> flags AND m \<noteq> 0"

section \<open>Handlers\<close>

text \<open>
  A coroutine body that runs without suspending is a function from the state to the next
  state and the exception that escaped, if one did. \<open>andthen\<close> sequences two statements.
\<close>

type_synonym 's run = "exn option \<times> 's"

definition andthen :: "'s run \<Rightarrow> ('s \<Rightarrow> 's run) \<Rightarrow> 's run" where
  "andthen m f = (case m of (None, s) \<Rightarrow> f s | (Some e, s) \<Rightarrow> (Some e, s))"

lemma andthen_simps [simp]:
  "andthen (None, s) f = f s"
  "andthen (Some e, s) f = (Some e, s)"
  by (simp_all add: andthen_def)

section \<open>Big-endian integers and the struct module\<close>

fun be_bytes :: "nat \<Rightarrow> int \<Rightarrow> bytes" where
  "be_bytes 0 x = []"
| "be_bytes (Suc n) x = be_bytes n (x div 256) @ [word_of_int x]"

definition be_int :: "bytes \<Rightarrow> int" where
  "be_int bs = foldl (\<lambda>acc b. acc * 256 + uint b) 0 bs"

lemma length_be_bytes [simp]: "length (be_bytes n x) = n"
  by (induction n arbitrary: x) simp_all

lemma be_int_snoc [simp]: "be_int [] = 0" "be_int (bs @ [b]) = be_int bs * 256 + uint b"
  by (simp_all add: be_int_def)

lemma be_int_bounds: "0 \<le> be_int bs \<and> be_int bs < 256 ^ length bs"
proof (induction bs rule: rev_induct)
  case (snoc b bs)
  have "uint b < 256" using uint_lt2p [of b] by simp
  moreover have "be_int bs + 1 \<le> 256 ^ length bs" using snoc by simp
  then have "(be_int bs + 1) * 256 \<le> 256 ^ length bs * 256" by (rule mult_right_mono) simp
  ultimately show ?case using snoc by (simp add: algebra_simps)
qed simp

lemma be_int_be_bytes: "be_int (be_bytes n x) = x mod 256 ^ n"
proof (induction n arbitrary: x)
  case (Suc n)
  have "x mod (256 * 256 ^ n) = 256 * (x div 256 mod 256 ^ n) + x mod 256"
    by (rule zmod_zmult2_eq) simp
  then show ?case by (simp add: Suc uint_word_of_int mult.commute)
qed simp

lemma word_of_int_join_byte: "word_of_int (k * 256 + uint b) = (b :: byte)"
  by (rule word_uint_eqI) (simp only: uint_word_of_int, simp add: uint_lt2p [of b, simplified])

lemma be_bytes_be_int: "be_bytes (length bs) (be_int bs) = bs"
proof (induction bs rule: rev_induct)
  case (snoc b bs)
  have "uint b < 256" using uint_lt2p [of b] by simp
  then have "(be_int bs * 256 + uint b) div 256 = be_int bs" by simp
  with snoc show ?case by (simp add: word_of_int_join_byte del: of_int_add of_int_mult)
qed simp

text \<open>
  One argument of \<^verbatim>\<open>struct.pack\<close> with the network byte order \<^verbatim>\<open>!\<close>: \<open>U n x\<close> is an unsigned
  integer of \<open>n\<close> bytes (formats \<^verbatim>\<open>B\<close>, \<^verbatim>\<open>H\<close>, \<^verbatim>\<open>I\<close> for 1, 2, 4), \<open>S n b\<close> the format \<^verbatim>\<open>ns\<close>,
  which truncates or zero-pads. An integer outside its range raises \<^verbatim>\<open>struct.error\<close>.
\<close>

datatype field = U nat int | S nat bytes

fun pack_field :: "field \<Rightarrow> bytes res" where
  "pack_field (U n x) = (if 0 \<le> x \<and> x < 256 ^ n then Inr (be_bytes n x) else Inl StructError)"
| "pack_field (S n bs) = Inr (take n (bs @ replicate n 0))"

fun pack :: "field list \<Rightarrow> bytes res" where
  "pack [] = Inr []"
| "pack (f # fs) = bindr (pack_field f) (\<lambda>b. bindr (pack fs) (\<lambda>bs. Inr (b @ bs)))"

fun unpack_ints :: "nat list \<Rightarrow> bytes \<Rightarrow> int list" where
  "unpack_ints [] bs = []"
| "unpack_ints (w # ws) bs = be_int (take w bs) # unpack_ints ws (drop w bs)"

text \<open>\<^verbatim>\<open>struct.unpack\<close> of integer fields: the buffer must have exactly the format's size.\<close>

definition unpack :: "nat list \<Rightarrow> bytes \<Rightarrow> int list res" where
  "unpack ws bs = (if length bs = sum_list ws then Inr (unpack_ints ws bs) else Inl StructError)"

fun field_fits :: "field \<Rightarrow> bool" where
  "field_fits (U n x) \<longleftrightarrow> 0 \<le> x \<and> x < 256 ^ n"
| "field_fits (S n bs) \<longleftrightarrow> True"

fun field_bytes :: "field \<Rightarrow> bytes" where
  "field_bytes (U n x) = be_bytes n x"
| "field_bytes (S n bs) = take n (bs @ replicate n 0)"

lemma pack_fits: "list_all field_fits fs \<Longrightarrow> pack fs = Inr (concat (map field_bytes fs))"
proof (induction fs)
  case (Cons f fs)
  then show ?case by (cases f) simp_all
qed simp

lemma pack_unfit: "\<not> list_all field_fits fs \<Longrightarrow> pack fs = Inl StructError"
proof (induction fs)
  case (Cons f fs)
  then show ?case by (cases f; cases "list_all field_fits fs") (simp_all add: pack_fits)
qed simp

declare pack.simps [simp del]

lemma pack_eq_Inr:
  "pack fs = Inr bs \<longleftrightarrow> list_all field_fits fs \<and> bs = concat (map field_bytes fs)"
  using pack_fits [of fs] pack_unfit [of fs] by (cases "list_all field_fits fs") auto

lemma length_field_bytes_S [simp]: "length (field_bytes (S n bs)) = n"
  by simp

lemma field_bytes_S_exact: "length bs = n \<Longrightarrow> field_bytes (S n bs) = bs"
  by simp

lemma be_int_be_bytes_fits: "0 \<le> x \<Longrightarrow> x < 256 ^ n \<Longrightarrow> be_int (be_bytes n x) = x"
  by (simp add: be_int_be_bytes)

lemma be_int_slice_bounds: "0 \<le> be_int bs" "length bs \<le> n \<Longrightarrow> be_int bs < 256 ^ n"
proof -
  show "0 \<le> be_int bs" using be_int_bounds by blast
  assume "length bs \<le> n"
  then have "(256::int) ^ length bs \<le> 256 ^ n" by (simp add: power_increasing)
  then show "be_int bs < 256 ^ n" using be_int_bounds [of bs] by linarith
qed

text \<open>\<^verbatim>\<open>bytes([...])\<close> of a list of integers: each must be in \<open>range(256)\<close>.\<close>

fun py_bytes :: "int list \<Rightarrow> bytes res" where
  "py_bytes [] = Inr []"
| "py_bytes (x # xs) =
     (if 0 \<le> x \<and> x < 256 then bindr (py_bytes xs) (\<lambda>bs. Inr (word_of_int x # bs))
      else Inl ValueError)"

section \<open>Fixed-offset reads\<close>

text \<open>
  \<^verbatim>\<open>struct.unpack('!H', b[i:i+2])[0]\<close> and its 4-byte counterpart, where the surrounding
  code has checked the length (\<open>unpack_u16\<close>, \<open>unpack_u32\<close>: then the unpack cannot raise).
\<close>

definition u16_at :: "nat \<Rightarrow> bytes \<Rightarrow> int" where
  "u16_at i b = be_int (slice i (i + 2) b)"

definition u32_at :: "nat \<Rightarrow> bytes \<Rightarrow> int" where
  "u32_at i b = be_int (slice i (i + 4) b)"

lemma unpack_u16: "i + 2 \<le> length b \<Longrightarrow> unpack [2] (slice i (i + 2) b) = Inr [u16_at i b]"
  by (simp add: unpack_def u16_at_def slice_def)

lemma unpack_u32: "i + 4 \<le> length b \<Longrightarrow> unpack [4] (slice i (i + 4) b) = Inr [u32_at i b]"
  by (simp add: unpack_def u32_at_def slice_def)

lemma u16_at_bounds [simp]: "0 \<le> u16_at i b" "u16_at i b < 65536"
  using be_int_slice_bounds(1) [of "slice i (i + 2) b"]
    be_int_slice_bounds(2) [of "slice i (i + 2) b" 2] by (simp_all add: u16_at_def)

lemma u32_at_bounds [simp]: "0 \<le> u32_at i b" "u32_at i b < 4294967296"
  using be_int_slice_bounds(1) [of "slice i (i + 4) b"]
    be_int_slice_bounds(2) [of "slice i (i + 4) b" 4] by (simp_all add: u32_at_def)

text \<open>Reads from a concatenation of fields of known length.\<close>

named_theorems reads \<open>slices and fixed-offset reads of concatenated fields\<close>

lemma slice_skip [reads]:
  "length xs \<le> i \<Longrightarrow> slice i j (xs @ ys) = slice (i - length xs) (j - length xs) ys"
  by (rule slice_append_right)

lemma slice_hit [reads]:
  "length xs \<le> j \<Longrightarrow> slice 0 j (xs @ ys) = xs @ slice 0 (j - length xs) ys"
  by (simp add: slice_def)

lemma slice_within [reads]: "j \<le> length xs \<Longrightarrow> slice i j (xs @ ys) = slice i j xs"
  by (rule slice_append_left)

lemma slice_full [reads]: "length xs = j \<Longrightarrow> slice 0 j xs = xs"
  by (simp add: slice_def)

lemma slice_none [reads]: "slice i i xs = []" "slice i 0 xs = []" "slice i j [] = []"
  by (simp_all add: slice_def)

lemma slice_to_end: "length xs \<le> j \<Longrightarrow> slice i j xs = drop i xs"
  by (simp add: slice_def)

lemma u16_at_skip [reads]: "length xs \<le> i \<Longrightarrow> u16_at i (xs @ ys) = u16_at (i - length xs) ys"
proof -
  assume "length xs \<le> i"
  moreover from this have "i + 2 - length xs = i - length xs + 2" by arith
  ultimately show ?thesis by (simp only: u16_at_def slice_append_right trans_le_add1)
qed

lemma u32_at_skip [reads]: "length xs \<le> i \<Longrightarrow> u32_at i (xs @ ys) = u32_at (i - length xs) ys"
proof -
  assume "length xs \<le> i"
  moreover from this have "i + 4 - length xs = i - length xs + 4" by arith
  ultimately show ?thesis by (simp only: u32_at_def slice_append_right trans_le_add1)
qed

lemma u16_at_hit [reads]: "u16_at 0 (be_bytes 2 x @ ys) = x mod 65536"
  by (simp add: u16_at_def reads be_int_be_bytes)

lemma u32_at_hit [reads]: "u32_at 0 (be_bytes 4 x @ ys) = x mod 4294967296"
  by (simp add: u32_at_def reads be_int_be_bytes)

lemma u16_at_hit0 [reads]: "u16_at 0 (be_bytes 2 x) = x mod 65536"
  using u16_at_hit [of x "[]"] by simp

lemma byte_at_be_bytes_2 [reads]:
  "byte_at (be_bytes 2 x) 0 = x div 256 mod 256" "byte_at (be_bytes 2 x) (Suc 0) = x mod 256"
  by (simp_all add: numeral_2_eq_2 uint_word_of_int)

lemma u16_at_Cons [reads]: "0 < i \<Longrightarrow> u16_at i (x # ys) = u16_at (i - 1) ys"
  using u16_at_skip [of "[x]" i ys] by simp

lemma u32_at_Cons [reads]: "0 < i \<Longrightarrow> u32_at i (x # ys) = u32_at (i - 1) ys"
  using u32_at_skip [of "[x]" i ys] by simp

lemma slice_Cons [reads]: "0 < i \<Longrightarrow> slice i j (x # ys) = slice (i - 1) (j - 1) ys"
  using slice_skip [of "[x]" i j ys] by simp

lemma slice_Cons_hit [reads]: "0 < j \<Longrightarrow> slice 0 j (x # ys) = x # slice 0 (j - 1) ys"
  using slice_hit [of "[x]" j ys] by simp

lemma byte_at_Cons_skip [reads]: "0 < i \<Longrightarrow> byte_at (x # xs) i = byte_at xs (i - 1)"
  by (cases i) simp_all

lemma be_bytes_1 [simp]: "be_bytes (Suc 0) x = [word_of_int x]"
  by simp

lemma uint_word_of_byte [simp]: "0 \<le> x \<Longrightarrow> x < 256 \<Longrightarrow> uint (word_of_int x :: byte) = x"
  by (simp add: uint_word_of_int)

lemma uint_of_nat_byte [simp]: "n < 256 \<Longrightarrow> uint (word_of_nat n :: byte) = int n"
  using uint_word_of_byte [of "int n"] by simp

text \<open>Putting slices back together.\<close>

lemma slice_join:
  assumes "i \<le> j" "j \<le> k"
  shows "slice i j xs @ slice j k xs = slice i k xs"
proof -
  have "k - i = (j - i) + (k - j)" "(j - i) + i = j" using assms by arith+
  then show ?thesis by (simp only: slice_def take_add drop_drop)
qed

lemma slice_drop: "i \<le> j \<Longrightarrow> slice i j xs @ drop j xs = drop i xs"
  by (metis append_take_drop_id drop_drop le_add_diff_inverse2 slice_def)

lemma slice_0_drop: "slice 0 j xs @ drop j xs = xs"
  using slice_drop [of 0 j xs] by simp

lemma be_bytes_u16: "i + 2 \<le> length b \<Longrightarrow> be_bytes 2 (u16_at i b) = slice i (i + 2) b"
  using be_bytes_be_int [of "slice i (i + 2) b"] by (simp add: u16_at_def)

lemma be_bytes_u32: "i + 4 \<le> length b \<Longrightarrow> be_bytes 4 (u32_at i b) = slice i (i + 4) b"
  using be_bytes_be_int [of "slice i (i + 4) b"] by (simp add: u32_at_def)

lemma be_bytes_byte: "i < length b \<Longrightarrow> [word_of_int (byte_at b i)] = slice i (Suc i) b"
  by (simp add: byte_at_def slice_def take_Suc_conv_app_nth Cons_nth_drop_Suc [symmetric])

lemma u16_at_bytes:
  assumes "i + 2 \<le> length b"
  shows "u16_at i b = byte_at b i * 256 + byte_at b (Suc i)"
proof -
  have "slice i (i + 2) b = [b ! i, b ! Suc i]"
    using assms by (simp add: slice_def numeral_2_eq_2 Cons_nth_drop_Suc [symmetric])
  then have "u16_at i b = be_int ([b ! i] @ [b ! Suc i])" by (simp add: u16_at_def)
  also have "\<dots> = be_int [b ! i] * 256 + uint (b ! Suc i)" by (rule be_int_snoc)
  also have "be_int [b ! i] = uint (b ! i)" using be_int_snoc(2) [of "[]" "b ! i"] by simp
  finally show ?thesis by (simp add: byte_at_def)
qed

end
