(* ===== verification/Py_Str.thy ===== *)
theory Py_Str
  imports Prelude
begin

text \<open>
  The string operations the gateway uses, on lists of code points (\<^verbatim>\<open>str\<close>) and on the
  integer values of a byte string: \<^verbatim>\<open>split\<close>, \<^verbatim>\<open>join\<close>, \<^verbatim>\<open>strip\<close>, \<^verbatim>\<open>lower\<close>, \<^verbatim>\<open>find\<close>, \<^verbatim>\<open>str(int)\<close>
  and \<^verbatim>\<open>int(str)\<close>. The lemmas are the inversion laws between them.
\<close>

section \<open>Split and join\<close>

text \<open>\<^verbatim>\<open>s.split(c)\<close> with a one-character separator: never empty, no piece contains \<open>c\<close>.\<close>

fun split_on :: "'a \<Rightarrow> 'a list \<Rightarrow> 'a list list" where
  "split_on c [] = [[]]"
| "split_on c (x # xs) =
     (if x = c then [] # split_on c xs
      else (case split_on c xs of [] \<Rightarrow> [[x]] | y # ys \<Rightarrow> (x # y) # ys))"

text \<open>\<^verbatim>\<open>sep.join(pieces)\<close>.\<close>

fun join_with :: "'a list \<Rightarrow> 'a list list \<Rightarrow> 'a list" where
  "join_with sep [] = []"
| "join_with sep [x] = x"
| "join_with sep (x # y # ys) = x @ sep @ join_with sep (y # ys)"

lemma split_on_ne [simp]: "split_on c xs \<noteq> []"
  by (induction xs) (auto split: list.splits)

lemma split_on_free: "c \<notin> set xs \<Longrightarrow> split_on c xs = [xs]"
  by (induction xs) auto

lemma split_on_append: "c \<notin> set xs \<Longrightarrow> split_on c (xs @ c # ys) = xs # split_on c ys"
  by (induction xs) auto

lemma split_join:
  assumes "xss \<noteq> []" "\<forall>xs\<in>set xss. c \<notin> set xs"
  shows "split_on c (join_with [c] xss) = xss"
  using assms by (induction "[c]" xss rule: join_with.induct) (auto simp: split_on_free split_on_append)

lemma join_Cons: "yss \<noteq> [] \<Longrightarrow> join_with sep (ys # yss) = ys @ sep @ join_with sep yss"
  by (cases yss) simp_all

lemma join_split: "join_with [c] (split_on c xs) = xs"
proof (induction xs)
  case (Cons x xs)
  then show ?case
    by (cases "split_on c xs"; cases "tl (split_on c xs)") (auto simp: join_Cons)
qed simp

lemma split_on_pieces: "ys \<in> set (split_on c xs) \<Longrightarrow> c \<notin> set ys"
proof (induction xs arbitrary: ys)
  case (Cons x xs)
  then show ?case by (auto split: if_splits list.splits)
qed simp

lemma set_join_with: "set (join_with sep xss) \<subseteq> set sep \<union> \<Union> (set ` set xss)"
  by (induction sep xss rule: join_with.induct) auto

section \<open>Character classes, strip, lower\<close>

definition is_digit :: "nat \<Rightarrow> bool" where
  "is_digit c \<longleftrightarrow> 48 \<le> c \<and> c \<le> 57"

text \<open>The ASCII whitespace that \<^verbatim>\<open>bytes.strip\<close> and \<^verbatim>\<open>int\<close> skip.\<close>

definition is_ascii_space :: "nat \<Rightarrow> bool" where
  "is_ascii_space c \<longleftrightarrow> 9 \<le> c \<and> c \<le> 13 \<or> c = 32"

text \<open>\<^verbatim>\<open>str.isspace\<close>, the characters \<^verbatim>\<open>str.strip\<close> removes.\<close>

definition is_uni_space :: "nat \<Rightarrow> bool" where
  "is_uni_space c \<longleftrightarrow> 9 \<le> c \<and> c \<le> 13 \<or> 28 \<le> c \<and> c \<le> 32 \<or> 8192 \<le> c \<and> c \<le> 8202 \<or>
     c = 133 \<or> c = 160 \<or> c = 5760 \<or> c = 8232 \<or> c = 8233 \<or> c = 8239 \<or> c = 8287 \<or> c = 12288"

definition rstrip :: "('a \<Rightarrow> bool) \<Rightarrow> 'a list \<Rightarrow> 'a list" where
  "rstrip p xs = rev (dropWhile p (rev xs))"

definition strip :: "('a \<Rightarrow> bool) \<Rightarrow> 'a list \<Rightarrow> 'a list" where
  "strip p xs = rstrip p (dropWhile p xs)"

text \<open>
  \<^verbatim>\<open>lower()\<close>: exact on ASCII. A non-ASCII character is left alone; none of the strings
  the gateway compares a lowered string with has a non-ASCII upper-case form.
\<close>

definition lower :: "nat list \<Rightarrow> nat list" where
  "lower = map (\<lambda>c. if 65 \<le> c \<and> c \<le> 90 then c + 32 else c)"

lemma length_lower [simp]: "length (lower xs) = length xs"
  by (simp add: lower_def)

lemma lower_lower [simp]: "lower (lower xs) = lower xs"
  by (simp add: lower_def)

lemma dropWhile_free: "\<forall>x\<in>set xs. \<not> p x \<Longrightarrow> dropWhile p xs = xs"
  by (cases xs) simp_all

lemma strip_free: "\<forall>x\<in>set xs. \<not> p x \<Longrightarrow> strip p xs = xs"
  by (simp add: strip_def rstrip_def dropWhile_free)

text \<open>\<^verbatim>\<open>s.find(sub)\<close>, \<open>None\<close> for \<^verbatim>\<open>-1\<close>.\<close>

fun find_sub :: "'a list \<Rightarrow> 'a list \<Rightarrow> nat option" where
  "find_sub sub [] = (if sub = [] then Some 0 else None)"
| "find_sub sub (x # xs) =
     (if take (length sub) (x # xs) = sub then Some 0 else map_option Suc (find_sub sub xs))"

lemma find_sub_Some:
  "find_sub sub xs = Some i \<Longrightarrow> take (length sub) (drop i xs) = sub \<and> i + length sub \<le> length xs"
proof (induction xs arbitrary: i)
  case (Cons x xs)
  show ?case
  proof (cases "take (length sub) (x # xs) = sub")
    case True
    then have "length sub \<le> length (x # xs)" by (metis length_take min.cobounded1)
    with True Cons.prems show ?thesis by simp
  next
    case False
    with Cons show ?thesis by auto
  qed
qed (simp split: if_splits)

section \<open>Decimal integers\<close>

fun decimal :: "nat \<Rightarrow> nat list" where
  "decimal n = (if n < 10 then [48 + n] else decimal (n div 10) @ [48 + n mod 10])"

declare decimal.simps [simp del]

text \<open>
  \<^verbatim>\<open>int(s)\<close> in base 10: surrounding whitespace, a sign, digits with single underscores
  between them, at most 4300 digits; anything else raises \<^verbatim>\<open>ValueError\<close>. Characters
  beyond ASCII are rejected: the gateway calls it on byte strings and ASCII constants.
\<close>

fun digit_groups :: "nat list \<Rightarrow> bool" where
  "digit_groups [] = False"
| "digit_groups [c] = is_digit c"
| "digit_groups (c # d # cs) =
     (is_digit c \<and> (if d = 95 then digit_groups cs else digit_groups (d # cs)))"

definition digits_value :: "nat list \<Rightarrow> nat" where
  "digits_value s = foldl (\<lambda>acc c. 10 * acc + (c - 48)) 0 (filter is_digit s)"

definition int_body :: "int \<Rightarrow> nat list \<Rightarrow> int res" where
  "int_body sign s =
     (if digit_groups s \<and> length (filter is_digit s) \<le> 4300
      then Inr (sign * int (digits_value s)) else Inl ValueError)"

definition py_int :: "nat list \<Rightarrow> int res" where
  "py_int s = (case strip is_ascii_space s of
       [] \<Rightarrow> Inl ValueError
     | c # cs \<Rightarrow> if c = 43 then int_body 1 cs else if c = 45 then int_body (- 1) cs
                else int_body 1 (c # cs))"

lemma decimal_digits: "c \<in> set (decimal n) \<Longrightarrow> is_digit c"
proof (induction n rule: decimal.induct)
  case (1 n)
  then show ?case by (subst (asm) decimal.simps) (auto simp: is_digit_def split: if_splits)
qed

lemma decimal_ne [simp]: "decimal n \<noteq> []"
  by (subst decimal.simps) simp

lemma digit_groups_digits: "xs \<noteq> [] \<Longrightarrow> \<forall>c\<in>set xs. is_digit c \<Longrightarrow> digit_groups xs"
  by (induction xs rule: digit_groups.induct) (auto simp: is_digit_def)

lemma digits_value_decimal: "digits_value (decimal n) = n"
proof (induction n rule: decimal.induct)
  case (1 n)
  have f: "filter is_digit (decimal (n div 10)) = decimal (n div 10)"
    by (simp add: filter_id_conv decimal_digits)
  show ?case
  proof (cases "n < 10")
    case True
    then show ?thesis by (subst decimal.simps) (simp add: digits_value_def is_digit_def)
  next
    case False
    then have "digits_value (decimal (n div 10)) = n div 10" by (rule 1)
    with False f show ?thesis
      by (subst decimal.simps) (simp add: digits_value_def is_digit_def)
  qed
qed

lemma decimal_length: "n < 10 ^ k \<Longrightarrow> 0 < k \<Longrightarrow> length (decimal n) \<le> k"
proof (induction k arbitrary: n)
  case (Suc k)
  show ?case
  proof (cases "n < 10")
    case True
    then show ?thesis by (subst decimal.simps) simp
  next
    case False
    then have "0 < k" using Suc.prems by (cases k) auto
    moreover have "n div 10 < 10 ^ k" using Suc.prems by (simp add: less_mult_imp_div_less mult.commute)
    ultimately have "length (decimal (n div 10)) \<le> k" by (rule Suc.IH [rotated])
    with False show ?thesis by (subst decimal.simps) simp
  qed
qed simp

lemma py_int_decimal:
  assumes "n < 10 ^ k" "0 < k" "k \<le> 4300"
  shows "py_int (decimal n) = Inr (int n)"
proof -
  have "\<forall>c\<in>set (decimal n). \<not> is_ascii_space c"
    by (auto dest!: decimal_digits simp: is_digit_def is_ascii_space_def)
  then have s: "strip is_ascii_space (decimal n) = decimal n" by (rule strip_free)
  obtain c cs where c: "decimal n = c # cs" by (cases "decimal n") auto
  then have "is_digit c" using decimal_digits [of c n] by simp
  moreover have "int_body 1 (decimal n) = Inr (int n)"
    using decimal_length [OF assms(1,2)] assms(3) decimal_digits
    by (simp add: int_body_def digit_groups_digits digits_value_decimal filter_id_conv)
  ultimately show ?thesis using s by (simp add: py_int_def c is_digit_def)
qed

end
