(* ===== verification/Codec.thy ===== *)
theory Codec
  imports Prelude
begin

text \<open>
  The interface every wire format of the gateway offers: an encoder that may raise, a
  decoder that may raise, the values the encoder accepts (\<open>wf\<close>) and what decoding an
  encoded value gives back (\<open>norm\<close>: the value with its computed fields filled in). The
  component theories interpret these locales on their own parsers and printers.
\<close>

locale codec =
  fixes enc :: "'a \<Rightarrow> 'c res"
    and dec :: "'c \<Rightarrow> 'a res"
    and wf :: "'a \<Rightarrow> bool"
    and norm :: "'a \<Rightarrow> 'a"
  assumes enc_ok: "wf x \<Longrightarrow> \<exists>c. enc x = Inr c"
    and dec_enc: "wf x \<Longrightarrow> enc x = Inr c \<Longrightarrow> dec c = Inr (norm x)"
begin

lemma round_trip: "wf x \<Longrightarrow> bindr (enc x) dec = Inr (norm x)"
  using enc_ok [of x] dec_enc [of x] by (auto simp: bindr_eq_Inr)

lemma enc_inj: "wf x \<Longrightarrow> wf y \<Longrightarrow> enc x = enc y \<Longrightarrow> norm x = norm y"
  using enc_ok [of x] dec_enc [of x] dec_enc [of y] by auto

lemma enc_not_Inl: "wf x \<Longrightarrow> enc x \<noteq> Inl e"
  using enc_ok [of x] by auto

end

text \<open>A format without redundancy: what parses prints back to the same bytes.\<close>

locale exact_codec = codec +
  assumes norm_id: "norm x = x"
    and dec_wf: "dec c = Inr x \<Longrightarrow> wf x"
    and enc_dec: "dec c = Inr x \<Longrightarrow> enc x = Inr c"
begin

lemma dec_inj: "dec c = Inr x \<Longrightarrow> dec d = Inr x \<Longrightarrow> c = d"
  using enc_dec [of c x] enc_dec [of d x] by simp

lemma dec_iff_enc: "wf x \<Longrightarrow> dec c = Inr x \<longleftrightarrow> enc x = Inr c"
  using dec_enc [of x c] enc_dec [of c x] norm_id [of x] by auto

end

text \<open>A parser whose only failure is the \<^verbatim>\<open>ValueError\<close> that its callers catch.\<close>

locale safe_parser =
  fixes parse :: "'c \<Rightarrow> 'a res"
  assumes only_value_error: "parse c = Inl e \<Longrightarrow> e = ValueError"
begin

lemma caught: "catch_value (parse c) d k = (case parse c of Inl _ \<Rightarrow> d | Inr x \<Rightarrow> k x)"
  using only_value_error [of c] by (cases "parse c") auto

lemma caught_ok: "(\<And>x. parse c = Inr x \<Longrightarrow> \<exists>y. k x = Inr y) \<Longrightarrow> \<exists>y. d = Inr y \<Longrightarrow>
    \<exists>y. catch_value (parse c) d k = Inr y"
  using only_value_error [of c] by (cases "parse c") auto

end

end
