(* ===== verification/Consts.thy ===== *)
theory Consts
  imports Complex_Main Py_Str Codec
begin

text \<open>
  \<^verbatim>\<open>velxiogw/net/consts.py\<close>: the addresses of the virtual network, the protocol numbers
  and the dotted-quad conversions. The lemmas evaluate the address constants and show
  that the two conversions are inverse.
\<close>

section \<open>Addresses\<close>

definition SUBNET :: pystr where "SUBNET = str_of ''10.13.37.0/24''"
definition NETMASK :: pystr where "NETMASK = str_of ''255.255.255.0''"
definition GATEWAY_IP :: pystr where "GATEWAY_IP = str_of ''10.13.37.1''"
definition DNS_IP :: pystr where "DNS_IP = str_of ''10.13.37.1''"
definition STA_IP :: pystr where "STA_IP = str_of ''10.13.37.42''"
definition BROADCAST_IP :: pystr where "BROADCAST_IP = str_of ''10.13.37.255''"

definition STA_MAC :: bytes where "STA_MAC = [0x02, 0x42, 0xda, 0x00, 0x00, 0x42]"
definition GATEWAY_MAC :: bytes where "GATEWAY_MAC = [0x02, 0x42, 0xda, 0x42, 0xff, 0xff]"
definition BROADCAST_MAC :: bytes where "BROADCAST_MAC = [0xff, 0xff, 0xff, 0xff, 0xff, 0xff]"

definition HOST_ALIAS_HOSTNAME :: pystr where
  "HOST_ALIAS_HOSTNAME = str_of ''host.velxio.internal''"
definition HOST_ALIAS_IP :: pystr where "HOST_ALIAS_IP = str_of ''192.0.2.1''"

section \<open>Tunables and protocol numbers\<close>

definition MTU :: int where "MTU = 1500"
definition TCP_WINDOW :: int where "TCP_WINDOW = 65535"
definition TCP_MSS :: int where "TCP_MSS = MTU - 40"
definition DHCP_LEASE_SECONDS :: int where "DHCP_LEASE_SECONDS = 86400"
definition TCP_IDLE_TIMEOUT :: real where "TCP_IDLE_TIMEOUT = 600"

definition ETHERTYPE_IPV4 :: int where "ETHERTYPE_IPV4 = 0x0800"
definition ETHERTYPE_ARP :: int where "ETHERTYPE_ARP = 0x0806"
definition ETHERTYPE_IPV6 :: int where "ETHERTYPE_IPV6 = 0x86dd"

definition IPPROTO_ICMP :: int where "IPPROTO_ICMP = 1"
definition IPPROTO_TCP :: int where "IPPROTO_TCP = 6"
definition IPPROTO_UDP :: int where "IPPROTO_UDP = 17"

definition TCP_FIN :: int where "TCP_FIN = 0x01"
definition TCP_SYN :: int where "TCP_SYN = 0x02"
definition TCP_RST :: int where "TCP_RST = 0x04"
definition TCP_PSH :: int where "TCP_PSH = 0x08"
definition TCP_ACK :: int where "TCP_ACK = 0x10"
definition TCP_URG :: int where "TCP_URG = 0x20"

definition ARP_REQUEST :: int where "ARP_REQUEST = 1"
definition ARP_REPLY :: int where "ARP_REPLY = 2"

definition ICMP_ECHO_REPLY :: int where "ICMP_ECHO_REPLY = 0"
definition ICMP_ECHO_REQUEST :: int where "ICMP_ECHO_REQUEST = 8"
definition ICMP_DEST_UNREACHABLE :: int where "ICMP_DEST_UNREACHABLE = 3"

definition DHCP_DISCOVER :: int where "DHCP_DISCOVER = 1"
definition DHCP_OFFER :: int where "DHCP_OFFER = 2"
definition DHCP_REQUEST :: int where "DHCP_REQUEST = 3"
definition DHCP_DECLINE :: int where "DHCP_DECLINE = 4"
definition DHCP_ACK :: int where "DHCP_ACK = 5"
definition DHCP_NAK :: int where "DHCP_NAK = 6"
definition DHCP_RELEASE :: int where "DHCP_RELEASE = 7"
definition DHCP_INFORM :: int where "DHCP_INFORM = 8"

lemmas tunable_defs = MTU_def TCP_WINDOW_def TCP_MSS_def DHCP_LEASE_SECONDS_def
lemmas ethertype_defs = ETHERTYPE_IPV4_def ETHERTYPE_ARP_def
lemmas ipproto_defs = IPPROTO_ICMP_def IPPROTO_TCP_def IPPROTO_UDP_def
lemmas tcp_flag_defs = TCP_FIN_def TCP_SYN_def TCP_RST_def TCP_PSH_def TCP_ACK_def
lemmas mac_defs = STA_MAC_def GATEWAY_MAC_def BROADCAST_MAC_def

lemma mac_lengths [simp]:
  "length STA_MAC = 6" "length GATEWAY_MAC = 6" "length BROADCAST_MAC = 6"
  by (simp_all add: mac_defs)

section \<open>Dotted quads\<close>

definition ip_to_bytes :: "pystr \<Rightarrow> bytes res" where
  "ip_to_bytes ip = bindr (mapr py_int (split_on 46 ip)) py_bytes"

definition bytes_to_ip :: "bytes \<Rightarrow> pystr" where
  "bytes_to_ip b = join_with [46] (map (\<lambda>x. decimal (unat x)) b)"

text \<open>\<^verbatim>\<open>ip_to_bytes\<close> of a module constant, where it does not raise (\<open>ip_constants\<close> below).\<close>

definition ip_const :: "pystr \<Rightarrow> bytes" where
  "ip_const ip = (case ip_to_bytes ip of Inl _ \<Rightarrow> [] | Inr b \<Rightarrow> b)"

lemma ip_constants:
  "ip_to_bytes GATEWAY_IP = Inr [10, 13, 37, 1]"
  "ip_to_bytes DNS_IP = Inr [10, 13, 37, 1]"
  "ip_to_bytes STA_IP = Inr [10, 13, 37, 42]"
  "ip_to_bytes HOST_ALIAS_IP = Inr [192, 0, 2, 1]"
  by code_simp+

lemma ip_const_simps [simp]:
  "ip_const GATEWAY_IP = [10, 13, 37, 1]"
  "ip_const DNS_IP = [10, 13, 37, 1]"
  "ip_const STA_IP = [10, 13, 37, 42]"
  "ip_const HOST_ALIAS_IP = [192, 0, 2, 1]"
  by (simp_all add: ip_const_def ip_constants)

text \<open>
  The addressing plan the comments ask for: the gateway, the name server and the station are
  on the subnet, whose network address is written with the length of the mask; the
  broadcast address has all host bits set; the host alias is off the subnet, so the chip sends it to
  the gateway, and is not a loopback address.
\<close>

definition on_subnet :: "bytes \<Rightarrow> bool" where
  "on_subnet a \<longleftrightarrow> map2 and a (ip_const NETMASK) = map2 and (ip_const GATEWAY_IP) (ip_const NETMASK)"

lemma addressing_plan:
  "on_subnet (ip_const GATEWAY_IP)" "on_subnet (ip_const DNS_IP)" "on_subnet (ip_const STA_IP)"
  "on_subnet (ip_const BROADCAST_IP)" "map2 or (ip_const STA_IP) (map not (ip_const NETMASK)) = ip_const BROADCAST_IP"
  "\<not> on_subnet (ip_const HOST_ALIAS_IP)" "hd (ip_const HOST_ALIAS_IP) \<noteq> 127"
  "SUBNET = bytes_to_ip (map2 and (ip_const GATEWAY_IP) (ip_const NETMASK)) @ str_of ''/'' @
     decimal (length (filter id (concat (map (\<lambda>b :: byte. map (bit b) [0..<8]) (ip_const NETMASK)))))"
  by code_simp+

lemma unat_byte_less: "unat (x::byte) < 256"
  using unsigned_less [of x, where ?'a = nat] by simp

lemma uint_byte_less: "uint (x::byte) < 256"
  using uint_lt2p [of x] by simp

lemma decimal_no_dot: "46 \<notin> set (decimal n)" "58 \<notin> set (decimal n)"
  using decimal_digits [of 46 n] decimal_digits [of 58 n] by (auto simp: is_digit_def)

lemma py_bytes_uint: "py_bytes (map uint b) = Inr (b :: bytes)"
  by (induction b) (simp_all add: uint_byte_less)

lemma mapr_map: "mapr f (map g xs) = mapr (\<lambda>x. f (g x)) xs"
  by (induction xs) simp_all

lemma ip_to_bytes_bytes_to_ip: "b \<noteq> [] \<Longrightarrow> ip_to_bytes (bytes_to_ip b) = Inr b"
proof -
  assume "b \<noteq> []"
  then have s: "split_on 46 (bytes_to_ip b) = map (\<lambda>x. decimal (unat x)) b"
    unfolding bytes_to_ip_def by (intro split_join) (auto simp: decimal_no_dot)
  have "py_int (decimal (unat x)) = Inr (int (unat x))" for x :: byte
    using unat_byte_less [of x] by (intro py_int_decimal [of _ 3]) auto
  then have "mapr py_int (split_on 46 (bytes_to_ip b)) = Inr (map uint b)"
    by (simp add: s mapr_map mapr_Inr [where g = uint])
  then show ?thesis by (simp add: ip_to_bytes_def py_bytes_uint)
qed

text \<open>The dotted quad as a codec: printing never raises and parsing inverts it.\<close>

definition print_ip :: "bytes \<Rightarrow> pystr res" where
  "print_ip b = Inr (bytes_to_ip b)"

interpretation dotted_quad: codec print_ip ip_to_bytes "\<lambda>b. b \<noteq> []" "\<lambda>b. b"
  by unfold_locales (auto simp: print_ip_def ip_to_bytes_bytes_to_ip)

lemma bytes_to_ip_inj: "a \<noteq> [] \<Longrightarrow> b \<noteq> [] \<Longrightarrow> bytes_to_ip a = bytes_to_ip b \<Longrightarrow> a = b"
  using dotted_quad.enc_inj [of a b] by (simp add: print_ip_def)

lemma bytes_to_ip_eq_HOST_ALIAS:
  "length b = 4 \<Longrightarrow> bytes_to_ip b = HOST_ALIAS_IP \<longleftrightarrow> b = [192, 0, 2, 1]"
proof -
  assume "length b = 4"
  then have "b \<noteq> []" by auto
  have "bytes_to_ip [192, 0, 2, 1] = HOST_ALIAS_IP" by code_simp
  then show ?thesis using bytes_to_ip_inj [OF \<open>b \<noteq> []\<close>, of "[192, 0, 2, 1]"] by auto
qed

end
