(* ===== verification/Checksums.thy ===== *)
theory Checksums
  imports Prelude
begin

text \<open>
  \<^verbatim>\<open>velxiogw/net/checksums.py\<close>: the RFC 1071 one's complement checksum and the TCP/UDP
  pseudo-header. The lemmas give the folding loop in closed form and show that a buffer
  into which its checksum has been written verifies to zero at the receiver.
\<close>

section \<open>The checksum functions\<close>

text \<open>The \<^verbatim>\<open>for hi, lo in zip(data[0::2], data[1::2])\<close> loop.\<close>

fun sum_words :: "bytes \<Rightarrow> int" where
  "sum_words (hi # lo # bs) = (push_bit 8 (uint hi) OR uint lo) + sum_words bs"
| "sum_words _ = 0"

text \<open>The \<^verbatim>\<open>while s >> 16\<close> loop.\<close>

function fold_carry :: "int \<Rightarrow> int" where
  "fold_carry s = (if drop_bit 16 s \<noteq> 0 then fold_carry ((s AND 65535) + drop_bit 16 s) else s)"
  by pat_completeness auto

definition carry_measure :: "int \<Rightarrow> nat" where
  "carry_measure s = (if s < 0 then nat (- s) + 65536 else nat s)"

termination fold_carry
proof (relation "measure carry_measure")
  fix s :: int
  assume "drop_bit 16 s \<noteq> 0"
  then have q: "s div 65536 \<noteq> 0" by (simp add: bit_arith)
  define q r where "q = s div 65536" and "r = s mod 65536"
  have s: "s = 65536 * q + r" and r: "0 \<le> r" "r < 65536" by (simp_all add: q_def r_def)
  have "q \<noteq> 0" using q by (simp add: q_def)
  then have "carry_measure (r + q) < carry_measure s"
    using s r by (auto simp: carry_measure_def)
  then show "((s AND 65535) + drop_bit 16 s, s) \<in> measure carry_measure"
    by (simp add: bit_arith q_def r_def)
qed simp

declare fold_carry.simps [simp del]

definition ones_complement_sum :: "bytes \<Rightarrow> int" where
  "ones_complement_sum data =
     fold_carry (sum_words (if odd (length data) then data @ [0] else data))"

definition internet_checksum :: "bytes \<Rightarrow> int" where
  "internet_checksum data = NOT (ones_complement_sum data) AND 65535"

definition tcp_udp_pseudo_header :: "bytes \<Rightarrow> bytes \<Rightarrow> int \<Rightarrow> int \<Rightarrow> bytes res" where
  "tcp_udp_pseudo_header src_ip dst_ip protocol len =
     bindr (py_bytes [0, protocol]) (\<lambda>zp.
     bindr (pack [U 2 len]) (\<lambda>l.
       Inr (src_ip @ dst_ip @ zp @ l)))"

definition tcp_udp_checksum :: "bytes \<Rightarrow> bytes \<Rightarrow> int \<Rightarrow> bytes \<Rightarrow> int res" where
  "tcp_udp_checksum src_ip dst_ip protocol segment =
     bindr (tcp_udp_pseudo_header src_ip dst_ip protocol (int (length segment))) (\<lambda>pseudo.
       Inr (internet_checksum (pseudo @ segment)))"

section \<open>The folding loop in closed form\<close>

lemma fold_carry_small: "0 \<le> s \<Longrightarrow> s < 65536 \<Longrightarrow> fold_carry s = s"
  by (subst fold_carry.simps) (simp add: bit_arith)

lemma fold_carry_step: "65536 \<le> s \<Longrightarrow> fold_carry s = fold_carry (s mod 65536 + s div 65536)"
proof -
  assume "65536 \<le> s"
  then have "s div 65536 \<noteq> 0" by linarith
  then show ?thesis by (subst fold_carry.simps) (simp add: bit_arith)
qed

text \<open>Residues modulo 65535, on which the end-around carry acts as the identity.\<close>

lemma mod_65535_pred: "((s::int) - 1) mod 65535 = 65534 \<longleftrightarrow> s mod 65535 = 0"
proof -
  define q r where "q = s div 65535" and "r = s mod 65535"
  have s: "s = 65535 * q + r" and r: "0 \<le> r" "r < 65535" by (simp_all add: q_def r_def)
  show ?thesis
  proof (cases "r = 0")
    case True
    then have "(s - 1) mod 65535 = 65534" using s by (intro int_mod_pos_eq [of _ _ "q - 1"]) auto
    with True show ?thesis by (simp add: r_def)
  next
    case False
    then have "(s - 1) mod 65535 = r - 1" using s r by (intro int_mod_pos_eq [of _ _ q]) auto
    with False r show ?thesis by (simp add: r_def)
  qed
qed

lemma mod_65535_succ_pred: "(((s::int) - 1) mod 65535 + 1) mod 65535 = s mod 65535"
  by (simp only: mod_add_left_eq diff_add_cancel)

lemma mod_65535_complement:
  assumes "(t::int) mod 65535 = s mod 65535"
  shows "(s + (65535 - t)) mod 65535 = 0"
proof -
  have "(s + (65535 - t)) mod 65535 = ((s - t) + 65535) mod 65535" by (simp only: algebra_simps)
  also have "\<dots> = (s - t) mod 65535" by (rule mod_add_self2)
  finally show ?thesis using assms mod_eq_dvd_iff [of s 65535 t] by auto
qed

lemma fold_carry_closed:
  assumes "0 \<le> s"
  shows "fold_carry s = (if s = 0 then 0 else (s - 1) mod 65535 + 1)"
  using assms
proof (induction "nat s" arbitrary: s rule: less_induct)
  case less
  show ?case
  proof (cases "s < 65536")
    case True
    have "(s - 1) mod 65535 = s - 1" if "0 < s" using that True by (intro mod_pos_pos_trivial) auto
    then show ?thesis using True less.prems by (auto simp: fold_carry_small)
  next
    case False
    define q r where "q = s div 65536" and "r = s mod 65536"
    have s: "s = 65536 * q + r" and r: "0 \<le> r" "r < 65536" by (simp_all add: q_def r_def)
    have "1 \<le> q" using False s r by linarith
    have "fold_carry s = fold_carry (r + q)" using False by (simp add: fold_carry_step q_def r_def)
    also have "\<dots> = (r + q - 1) mod 65535 + 1"
      using less.hyps [of "r + q"] s r \<open>1 \<le> q\<close> by simp
    also have "(r + q - 1) mod 65535 = ((r + q - 1) + q * 65535) mod 65535"
      by (simp only: mod_mult_self1)
    also have "(r + q - 1) + q * 65535 = s - 1" using s by simp
    finally show ?thesis using False by simp
  qed
qed

lemma fold_carry_range:
  assumes "0 \<le> s"
  shows "0 \<le> fold_carry s" "fold_carry s < 65536"
  using pos_mod_bound [of 65535 "s - 1"] pos_mod_sign [of 65535 "s - 1"] assms
  by (auto simp: fold_carry_closed simp del: pos_mod_bound pos_mod_sign)

section \<open>Sums of words\<close>

lemma word_pair: "push_bit 8 (uint hi) OR uint (lo::byte) = uint (hi::byte) * 256 + uint lo"
  using uint_lt2p [of lo] by (simp add: bit_arith)

lemma sum_words_nonneg: "0 \<le> sum_words bs"
  by (induction bs rule: sum_words.induct) (simp_all add: word_pair)

lemma sum_words_append: "even (length xs) \<Longrightarrow> sum_words (xs @ ys) = sum_words xs + sum_words ys"
  by (induction xs rule: sum_words.induct) simp_all

lemma sum_words_be_bytes:
  assumes "0 \<le> c" "c < 65536"
  shows "sum_words (be_bytes 2 c) = c"
proof -
  have "(c div 256) mod 256 = c div 256" using assms by (intro mod_pos_pos_trivial) auto
  then show ?thesis using div_mult_mod_eq [of c 256]
    by (simp add: numeral_2_eq_2 uint_word_of_int bit_arith)
qed

text \<open>\<open>word_sum\<close> is the sum the loop of \<^verbatim>\<open>ones_complement_sum\<close> computes, padding included.\<close>

definition word_sum :: "bytes \<Rightarrow> int" where
  "word_sum data = sum_words (if odd (length data) then data @ [0] else data)"

lemma word_sum_nonneg: "0 \<le> word_sum data"
  by (simp add: word_sum_def sum_words_nonneg)

lemma word_sum_append: "even (length xs) \<Longrightarrow> word_sum (xs @ ys) = sum_words xs + word_sum ys"
  by (auto simp: word_sum_def sum_words_append)

lemma word_sum_pair: "word_sum (be_bytes 2 c @ ys) = sum_words (be_bytes 2 c) + word_sum ys"
  by (simp add: word_sum_append)

lemma internet_checksum_word_sum: "internet_checksum data = 65535 - fold_carry (word_sum data)"
proof -
  have r: "0 \<le> fold_carry (word_sum data)" "fold_carry (word_sum data) < 65536"
    by (simp_all add: fold_carry_range word_sum_nonneg)
  have "(- fold_carry (word_sum data) - 1) mod 65536 =
      (- fold_carry (word_sum data) - 1 + 65536) mod 65536" by (simp only: mod_add_self2)
  also have "\<dots> = 65535 - fold_carry (word_sum data)"
    using r by (subst mod_pos_pos_trivial) auto
  finally show ?thesis
    by (simp add: internet_checksum_def ones_complement_sum_def word_sum_def bit_arith
        not_eq_complement)
qed

lemma internet_checksum_range: "0 \<le> internet_checksum data" "internet_checksum data < 65536"
  using fold_carry_range [OF word_sum_nonneg [of data]] by (simp_all add: internet_checksum_word_sum)

text \<open>The receiver's test: the folded sum is all ones.\<close>

lemma internet_checksum_0_iff:
  "internet_checksum data = 0 \<longleftrightarrow> 0 < word_sum data \<and> word_sum data mod 65535 = 0"
proof -
  let ?s = "word_sum data"
  have "fold_carry ?s = 65535 \<longleftrightarrow> 0 < ?s \<and> (?s - 1) mod 65535 = 65534"
    using word_sum_nonneg [of data] by (auto simp: fold_carry_closed)
  also have "(?s - 1) mod 65535 = 65534 \<longleftrightarrow> ?s mod 65535 = 0" by (rule mod_65535_pred)
  finally show ?thesis by (simp add: internet_checksum_word_sum)
qed

lemma fold_carry_mod: "0 \<le> s \<Longrightarrow> fold_carry s mod 65535 = s mod 65535"
  by (simp only: fold_carry_closed mod_65535_succ_pred split: if_split) simp

text \<open>A field of two bytes at an even offset contributes its value to the sum.\<close>

lemma word_sum_field:
  assumes "even (length xs)" "0 \<le> c" "c < 65536"
  shows "word_sum (xs @ be_bytes 2 c @ ys) = word_sum (xs @ be_bytes 2 0 @ ys) + c"
  using assms by (simp add: word_sum_append word_sum_pair sum_words_be_bytes)

lemma checksum_verifies:
  assumes "even (length xs)" and c: "c = internet_checksum (xs @ be_bytes 2 0 @ ys)"
  shows "internet_checksum (xs @ be_bytes 2 c @ ys) = 0"
proof -
  let ?s = "word_sum (xs @ be_bytes 2 0 @ ys)"
  have c': "c = 65535 - fold_carry ?s" using c by (simp add: internet_checksum_word_sum)
  have s: "0 \<le> ?s" by (rule word_sum_nonneg)
  have sum: "word_sum (xs @ be_bytes 2 c @ ys) = ?s + c"
    using assms(1) internet_checksum_range c by (intro word_sum_field) auto
  have "(?s + c) mod 65535 = 0"
    unfolding c' by (rule mod_65535_complement) (rule fold_carry_mod [OF s])
  moreover have "0 < ?s + c"
    using s fold_carry_small [of 0] internet_checksum_range [of "xs @ be_bytes 2 0 @ ys"] c c'
    by (cases "?s = 0") auto
  ultimately show ?thesis by (simp add: internet_checksum_0_iff sum)
qed

text \<open>The all-ones representation of zero, which UDP sends instead of 0, verifies as well.\<close>

lemma checksum_verifies_all_ones:
  assumes "even (length xs)" and "internet_checksum (xs @ be_bytes 2 0 @ ys) = 0"
  shows "internet_checksum (xs @ be_bytes 2 65535 @ ys) = 0"
  using assms by (simp add: internet_checksum_0_iff word_sum_field [of xs 65535])

lemma py_bytes_Inr: "list_all (\<lambda>x. 0 \<le> x \<and> x < 256) xs \<Longrightarrow> py_bytes xs = Inr (map word_of_int xs)"
  by (induction xs) simp_all

lemma tcp_udp_checksum_eq:
  assumes "0 \<le> protocol" "protocol < 256" "length segment < 65536"
  shows "tcp_udp_checksum src dst protocol segment =
    Inr (internet_checksum (src @ dst @ [0, word_of_int protocol] @
      be_bytes 2 (int (length segment)) @ segment))"
  using assms by (simp add: tcp_udp_checksum_def tcp_udp_pseudo_header_def pack_fits py_bytes_Inr)

section \<open>What a receiver detects\<close>

lemma checksum_field_unique:
  assumes "even (length xs)" "0 \<le> c" "c < 65536"
  shows "internet_checksum (xs @ be_bytes 2 (internet_checksum (xs @ be_bytes 2 0 @ ys)) @ ys) = 0 \<and>
    (internet_checksum (xs @ be_bytes 2 c @ ys) = 0 \<longrightarrow>
      c = internet_checksum (xs @ be_bytes 2 0 @ ys) \<or>
      c = 65535 \<and> internet_checksum (xs @ be_bytes 2 0 @ ys) = 0)"
proof -
  let ?c = "internet_checksum (xs @ be_bytes 2 0 @ ys)"
  let ?s = "word_sum (xs @ be_bytes 2 0 @ ys)"
  have v: "internet_checksum (xs @ be_bytes 2 ?c @ ys) = 0"
    using assms(1) by (rule checksum_verifies) simp
  have r: "0 \<le> ?c" "?c < 65536" by (simp_all add: internet_checksum_range)
  have sums: "word_sum (xs @ be_bytes 2 ?c @ ys) = ?s + ?c" "word_sum (xs @ be_bytes 2 c @ ys) = ?s + c"
    using assms r by (auto intro: word_sum_field)
  have "c = ?c \<or> c = 65535 \<and> ?c = 0" if "internet_checksum (xs @ be_bytes 2 c @ ys) = 0"
  proof -
    have m: "(?s + c) mod 65535 = 0" "(?s + ?c) mod 65535 = 0" and pos: "0 < ?s + c" "0 < ?s + ?c"
      using that v unfolding internet_checksum_0_iff sums by simp_all
    have "(65535::int) dvd (?s + c) - (?s + ?c)"
      using m by (intro dvd_diff) (simp_all only: dvd_eq_mod_eq_0)
    then obtain k where k: "c - ?c = 65535 * k" by (auto elim: dvdE)
    have "k = 0 \<or> k = 1 \<or> k = -1" using k assms(2,3) r by linarith
    then have "c = ?c \<or> c = 65535 \<and> ?c = 0 \<or> c = 0 \<and> ?c = 65535"
      using k assms(2,3) r by (elim disjE) simp_all
    moreover have False if "c = 0" "?c = 65535"
    proof -
      have "0 < ?s" using pos(1) \<open>c = 0\<close> by simp
      have "?s mod 65535 = 0" using m(1) \<open>c = 0\<close> by simp
      then have "?c = 0" using \<open>0 < ?s\<close> by (simp only: internet_checksum_0_iff simp_thms)
      then show False using that by simp
    qed
    ultimately show ?thesis by blast
  qed
  with v show ?thesis by blast
qed

end
