(* ===== verification/Frames.thy ===== *)
theory Frames
  imports Consts Checksums
begin

text \<open>
  The link and network layers of \<^verbatim>\<open>velxiogw/net/protocols.py\<close>: Ethernet, ARP and IPv4
  parsers and encoders, and the two frame builders. Each dataclass is a record, each
  \<^verbatim>\<open>parse\<close>/\<^verbatim>\<open>to_bytes\<close> pair a pair of functions into \<open>res\<close> that raise where the code does.
\<close>

section \<open>Ethernet\<close>

record ethernet =
  eth_dst :: bytes
  eth_src :: bytes
  eth_type :: int
  eth_payload :: bytes

definition ethernet_parse :: "bytes \<Rightarrow> ethernet res" where
  "ethernet_parse frame =
     (if length frame < 14 then Inl ValueError
      else Inr \<lparr>eth_dst = slice 0 6 frame, eth_src = slice 6 12 frame,
                eth_type = push_bit 8 (byte_at frame 12) OR byte_at frame 13,
                eth_payload = drop 14 frame\<rparr>)"

definition ethernet_to_bytes :: "ethernet \<Rightarrow> bytes res" where
  "ethernet_to_bytes e =
     bindr (pack [U 2 (eth_type e)]) (\<lambda>t. Inr (eth_dst e @ eth_src e @ t @ eth_payload e))"

definition wf_ethernet :: "ethernet \<Rightarrow> bool" where
  "wf_ethernet e \<longleftrightarrow> length (eth_dst e) = 6 \<and> length (eth_src e) = 6 \<and>
     0 \<le> eth_type e \<and> eth_type e < 65536"

lemma ethertype_u16: "push_bit 8 (byte_at b i) OR byte_at b (Suc i) = byte_at b i * 256 + byte_at b (Suc i)"
  by (simp add: bit_arith)

lemma ethernet_encode:
  "wf_ethernet e \<Longrightarrow>
   ethernet_to_bytes e = Inr (eth_dst e @ eth_src e @ be_bytes 2 (eth_type e) @ eth_payload e)"
  by (simp add: ethernet_to_bytes_def wf_ethernet_def pack_fits)

lemma ethernet_dec_enc:
  assumes "wf_ethernet e" "ethernet_to_bytes e = Inr bs"
  shows "ethernet_parse bs = Inr e"
proof -
  have bs: "bs = eth_dst e @ eth_src e @ be_bytes 2 (eth_type e) @ eth_payload e"
    using assms by (simp add: ethernet_encode)
  have l: "length (eth_dst e) = 6" "length (eth_src e) = 6" "0 \<le> eth_type e" "eth_type e < 65536"
    using assms(1) by (simp_all add: wf_ethernet_def)
  have "push_bit 8 (byte_at bs 12) OR byte_at bs 13 = byte_at bs 12 * 256 + byte_at bs 13"
    by (simp add: bit_arith)
  also have "\<dots> = eth_type e"
    using l div_mult_mod_eq [of "eth_type e" 256] by (simp add: bs reads)
  finally show ?thesis using l by (simp add: ethernet_parse_def bs reads)
qed

lemma ethernet_enc_dec:
  assumes "ethernet_parse bs = Inr e"
  shows "wf_ethernet e" "ethernet_to_bytes e = Inr bs"
proof -
  have l: "14 \<le> length bs" and e: "e = \<lparr>eth_dst = slice 0 6 bs, eth_src = slice 6 12 bs,
      eth_type = u16_at 12 bs, eth_payload = drop 14 bs\<rparr>"
    using assms by (auto simp: ethernet_parse_def bit_arith u16_at_bytes split: if_splits)
  then show wf: "wf_ethernet e" by (simp add: wf_ethernet_def)
  have "slice 0 6 bs @ slice 6 12 bs @ slice 12 14 bs @ drop 14 bs = bs"
    by (simp add: slice_join slice_drop slice_0_drop)
  then show "ethernet_to_bytes e = Inr bs"
    using l be_bytes_u16 [of 12 bs] by (simp add: ethernet_encode [OF wf]) (simp add: e)
qed

interpretation eth: exact_codec ethernet_to_bytes ethernet_parse wf_ethernet "\<lambda>e. e"
  by unfold_locales (auto simp: ethernet_encode intro: ethernet_dec_enc ethernet_enc_dec)

interpretation eth: safe_parser ethernet_parse
  by unfold_locales (auto simp: ethernet_parse_def split: if_splits)

section \<open>ARP\<close>

record arp =
  htype :: int
  ptype :: int
  hlen :: int
  plen :: int
  opcode :: int
  sha :: bytes
  spa :: bytes
  tha :: bytes
  tpa :: bytes

definition arp_parse :: "bytes \<Rightarrow> arp res" where
  "arp_parse payload =
     (if length payload < 28 then Inl ValueError
      else Inr \<lparr>htype = u16_at 0 payload, ptype = u16_at 2 payload,
                hlen = byte_at payload 4, plen = byte_at payload 5, opcode = u16_at 6 payload,
                sha = slice 8 14 payload, spa = slice 14 18 payload,
                tha = slice 18 24 payload, tpa = slice 24 28 payload\<rparr>)"

definition arp_to_bytes :: "arp \<Rightarrow> bytes res" where
  "arp_to_bytes a =
     bindr (pack [U 2 (htype a), U 2 (ptype a), U 1 (hlen a), U 1 (plen a), U 2 (opcode a)])
       (\<lambda>h. Inr (h @ sha a @ spa a @ tha a @ tpa a))"

definition wf_arp :: "arp \<Rightarrow> bool" where
  "wf_arp a \<longleftrightarrow> 0 \<le> htype a \<and> htype a < 65536 \<and> 0 \<le> ptype a \<and> ptype a < 65536 \<and>
     0 \<le> hlen a \<and> hlen a < 256 \<and> 0 \<le> plen a \<and> plen a < 256 \<and>
     0 \<le> opcode a \<and> opcode a < 65536 \<and>
     length (sha a) = 6 \<and> length (spa a) = 4 \<and> length (tha a) = 6 \<and> length (tpa a) = 4"

lemma arp_encode:
  "wf_arp a \<Longrightarrow> arp_to_bytes a =
     Inr (be_bytes 2 (htype a) @ be_bytes 2 (ptype a) @ be_bytes 1 (hlen a) @ be_bytes 1 (plen a) @
          be_bytes 2 (opcode a) @ sha a @ spa a @ tha a @ tpa a)"
  by (simp add: arp_to_bytes_def wf_arp_def pack_fits)

lemma arp_dec_enc:
  assumes "wf_arp a" "arp_to_bytes a = Inr bs"
  shows "arp_parse bs = Inr a"
proof -
  have bs: "bs = be_bytes 2 (htype a) @ be_bytes 2 (ptype a) @ be_bytes 1 (hlen a) @
      be_bytes 1 (plen a) @ be_bytes 2 (opcode a) @ sha a @ spa a @ tha a @ tpa a"
    using assms by (simp add: arp_encode)
  then have "length bs = 28" using assms(1) by (simp add: wf_arp_def)
  with assms(1) show ?thesis by (simp add: arp_parse_def bs wf_arp_def reads)
qed

lemma arp_parse_wf: "arp_parse bs = Inr a \<Longrightarrow> wf_arp a"
  by (auto simp: arp_parse_def wf_arp_def split: if_splits)

interpretation arp: codec arp_to_bytes arp_parse wf_arp "\<lambda>a. a"
  by unfold_locales (auto simp: arp_encode intro: arp_dec_enc)

interpretation arp: safe_parser arp_parse
  by unfold_locales (auto simp: arp_parse_def split: if_splits)

definition make_frame_arp :: "bytes \<Rightarrow> bytes \<Rightarrow> arp \<Rightarrow> bytes res" where
  "make_frame_arp dst_mac src_mac a =
     bindr (arp_to_bytes a) (\<lambda>p.
       ethernet_to_bytes \<lparr>eth_dst = dst_mac, eth_src = src_mac, eth_type = ETHERTYPE_ARP,
                          eth_payload = p\<rparr>)"

section \<open>IPv4\<close>

record ipv4 =
  ip_version :: int
  ip_ihl :: int
  ip_dscp :: int
  ip_ecn :: int
  ip_total_length :: int
  ip_ident :: int
  ip_flags :: int
  ip_frag_offset :: int
  ip_ttl :: int
  ip_protocol :: int
  ip_checksum :: int
  ip_src :: bytes
  ip_dst :: bytes
  ip_payload :: bytes

definition ipv4_parse :: "bytes \<Rightarrow> ipv4 res" where
  "ipv4_parse data =
     (if length data < 20 then Inl ValueError
      else let b0 = byte_at data 0; version = drop_bit 4 b0; ihl = b0 AND 15 in
        if ihl < 5 then Inl ValueError
        else let header_len = ihl * 4; dscp_ecn = byte_at data 1; total_length = u16_at 2 data;
                 flags_frag = u16_at 6 data
             in Inr \<lparr>ip_version = version, ip_ihl = ihl, ip_dscp = drop_bit 2 dscp_ecn,
                     ip_ecn = dscp_ecn AND 3, ip_total_length = total_length,
                     ip_ident = u16_at 4 data, ip_flags = drop_bit 13 flags_frag,
                     ip_frag_offset = flags_frag AND 8191, ip_ttl = byte_at data 8,
                     ip_protocol = byte_at data 9, ip_checksum = u16_at 10 data,
                     ip_src = slice 12 16 data, ip_dst = slice 16 20 data,
                     ip_payload = slice (nat header_len) (nat total_length) data\<rparr>)"

definition ipv4_to_bytes :: "ipv4 \<Rightarrow> bytes res" where
  "ipv4_to_bytes p =
     (let ihl = 5; total_length = ihl * 4 + int (length (ip_payload p));
          flags_frag = push_bit 13 (ip_flags p) OR ip_frag_offset p;
          dscp_ecn = push_bit 2 (ip_dscp p) OR ip_ecn p
      in bindr (pack [U 1 (push_bit 4 4 OR ihl), U 1 dscp_ecn, U 2 total_length, U 2 (ip_ident p),
                      U 2 flags_frag, U 1 (ip_ttl p), U 1 (ip_protocol p), U 2 0,
                      S 4 (ip_src p), S 4 (ip_dst p)]) (\<lambda>header_no_cksum.
         bindr (pack [U 2 (internet_checksum header_no_cksum)]) (\<lambda>ck.
           Inr (slice 0 10 header_no_cksum @ ck @ drop 12 header_no_cksum @ ip_payload p))))"

definition wf_ipv4 :: "ipv4 \<Rightarrow> bool" where
  "wf_ipv4 p \<longleftrightarrow> 0 \<le> ip_dscp p \<and> ip_dscp p < 64 \<and> 0 \<le> ip_ecn p \<and> ip_ecn p < 4 \<and>
     0 \<le> ip_ident p \<and> ip_ident p < 65536 \<and> 0 \<le> ip_flags p \<and> ip_flags p < 8 \<and>
     0 \<le> ip_frag_offset p \<and> ip_frag_offset p < 8192 \<and> 0 \<le> ip_ttl p \<and> ip_ttl p < 256 \<and>
     0 \<le> ip_protocol p \<and> ip_protocol p < 256 \<and> length (ip_src p) = 4 \<and>
     length (ip_dst p) = 4 \<and> length (ip_payload p) \<le> 65515"

text \<open>The header in two halves, around the checksum field at offset 10.\<close>

definition ipv4_head :: "ipv4 \<Rightarrow> bytes" where
  "ipv4_head p = be_bytes 1 69 @ be_bytes 1 (ip_dscp p * 4 + ip_ecn p) @
     be_bytes 2 (20 + int (length (ip_payload p))) @ be_bytes 2 (ip_ident p) @
     be_bytes 2 (ip_flags p * 8192 + ip_frag_offset p) @ be_bytes 1 (ip_ttl p) @
     be_bytes 1 (ip_protocol p)"

definition ipv4_header_cksum :: "ipv4 \<Rightarrow> int" where
  "ipv4_header_cksum p = internet_checksum (ipv4_head p @ be_bytes 2 0 @ ip_src p @ ip_dst p)"

lemma length_ipv4_head [simp]: "length (ipv4_head p) = 10"
  by (simp add: ipv4_head_def)

lemma ipv4_encode:
  assumes wf: "wf_ipv4 p"
  shows "ipv4_to_bytes p = Inr (ipv4_head p @ be_bytes 2 (ipv4_header_cksum p) @
    ip_src p @ ip_dst p @ ip_payload p)"
proof -
  have r: "0 \<le> ip_dscp p * 4 + ip_ecn p" "ip_dscp p * 4 + ip_ecn p < 256"
    "0 \<le> ip_flags p * 8192 + ip_frag_offset p" "ip_flags p * 8192 + ip_frag_offset p < 65536"
    "push_bit 4 4 OR 5 = (69::int)"
    using wf by (auto simp: wf_ipv4_def bit_arith)
  have "pack [U 1 (push_bit 4 4 OR 5), U 1 (push_bit 2 (ip_dscp p) OR ip_ecn p),
      U 2 (5 * 4 + int (length (ip_payload p))), U 2 (ip_ident p),
      U 2 (push_bit 13 (ip_flags p) OR ip_frag_offset p), U 1 (ip_ttl p), U 1 (ip_protocol p),
      U 2 0, S 4 (ip_src p), S 4 (ip_dst p)] =
      Inr (ipv4_head p @ be_bytes 2 0 @ ip_src p @ ip_dst p)"
    using wf r by (simp add: pack_fits wf_ipv4_def bit_arith ipv4_head_def)
  moreover have "pack [U 2 (ipv4_header_cksum p)] = Inr (be_bytes 2 (ipv4_header_cksum p))"
    by (simp add: pack_fits ipv4_header_cksum_def internet_checksum_range)
  ultimately show ?thesis
    unfolding ipv4_to_bytes_def Let_def
    by (simp only: bindr_simps ipv4_header_cksum_def [symmetric]) (simp add: reads)
qed

text \<open>What \<^verbatim>\<open>parse\<close> reads back: the version, header length, total length and checksum filled in.\<close>

definition ipv4_norm :: "ipv4 \<Rightarrow> ipv4" where
  "ipv4_norm p = p\<lparr>ip_version := 4, ip_ihl := 5,
     ip_total_length := 20 + int (length (ip_payload p)), ip_checksum := ipv4_header_cksum p\<rparr>"

lemma ipv4_header_cksum_range [simp]: "0 \<le> ipv4_header_cksum p" "ipv4_header_cksum p < 65536"
  by (simp_all add: ipv4_header_cksum_def internet_checksum_range)

lemma ipv4_dec_enc:
  assumes wf: "wf_ipv4 p" and enc: "ipv4_to_bytes p = Inr bs"
  shows "ipv4_parse bs = Inr (ipv4_norm p)"
proof -
  have bs: "bs = ipv4_head p @ be_bytes 2 (ipv4_header_cksum p) @ ip_src p @ ip_dst p @ ip_payload p"
    using assms by (simp add: ipv4_encode)
  have l: "length (ip_src p) = 4" "length (ip_dst p) = 4" using wf by (simp_all add: wf_ipv4_def)
  have b0: "byte_at bs 0 = 69" and b1: "byte_at bs (Suc 0) = ip_dscp p * 4 + ip_ecn p"
    and b8: "byte_at bs 8 = ip_ttl p" and b9: "byte_at bs 9 = ip_protocol p"
    using wf by (simp_all add: bs ipv4_head_def reads wf_ipv4_def del: of_int_add of_int_mult)
  have w2: "u16_at 2 bs = 20 + int (length (ip_payload p))" and w4: "u16_at 4 bs = ip_ident p"
    and w6: "u16_at 6 bs = ip_flags p * 8192 + ip_frag_offset p"
    using wf by (simp_all add: bs ipv4_head_def reads wf_ipv4_def)
  have w10: "u16_at 10 bs = ipv4_header_cksum p" by (simp add: bs reads)
  have s: "slice 12 16 bs = ip_src p" "slice 16 20 bs = ip_dst p"
    "slice 20 (20 + length (ip_payload p)) bs = ip_payload p"
    using l by (simp_all add: bs reads)
  have len: "\<not> length bs < 20" using l by (simp add: bs)
  have m: "drop_bit 4 (69::int) = 4" "(69::int) AND 15 = 5" by (simp_all add: bit_arith)
  show ?thesis
    using wf len s l by (simp add: ipv4_parse_def Let_def b0 b1 b8 b9 w2 w4 w6 w10 m nat_add_distrib)
      (cases p, simp add: ipv4_norm_def bit_arith wf_ipv4_def)
qed

interpretation ipv4: codec ipv4_to_bytes ipv4_parse wf_ipv4 ipv4_norm
  by unfold_locales (auto simp: ipv4_encode intro: ipv4_dec_enc)

interpretation ipv4: safe_parser ipv4_parse
  by unfold_locales (auto simp: ipv4_parse_def Let_def split: if_splits)

definition ipv4_default :: ipv4 where
  "ipv4_default = \<lparr>ip_version = 4, ip_ihl = 5, ip_dscp = 0, ip_ecn = 0, ip_total_length = 0,
     ip_ident = 0, ip_flags = 2, ip_frag_offset = 0, ip_ttl = 64, ip_protocol = 0, ip_checksum = 0,
     ip_src = [0, 0, 0, 0], ip_dst = [0, 0, 0, 0], ip_payload = []\<rparr>"

text \<open>\<^verbatim>\<open>make_frame_ipv4\<close> with the \<^verbatim>\<open>ttl=64, ident=0\<close> that every caller leaves in place.\<close>

definition make_frame_ipv4 :: "bytes \<Rightarrow> bytes \<Rightarrow> bytes \<Rightarrow> bytes \<Rightarrow> int \<Rightarrow> bytes \<Rightarrow> bytes res" where
  "make_frame_ipv4 dst_mac src_mac src_ip dst_ip protocol l4_payload =
     bindr (ipv4_to_bytes (ipv4_default\<lparr>ip_protocol := protocol, ip_src := src_ip,
              ip_dst := dst_ip, ip_ttl := 64, ip_ident := 0, ip_payload := l4_payload\<rparr>))
       (\<lambda>p. ethernet_to_bytes \<lparr>eth_dst = dst_mac, eth_src = src_mac,
               eth_type = ETHERTYPE_IPV4, eth_payload = p\<rparr>)"

lemma ipv4_parse_wf:
  assumes "ipv4_parse bs = Inr p"
  shows "wf_ipv4 p"
proof -
  define ihl where "ihl = byte_at bs 0 AND 15"
  have l: "20 \<le> length bs" "5 \<le> ihl" and p: "p = \<lparr>ip_version = drop_bit 4 (byte_at bs 0), ip_ihl = ihl,
      ip_dscp = byte_at bs 1 div 4, ip_ecn = byte_at bs 1 mod 4, ip_total_length = u16_at 2 bs,
      ip_ident = u16_at 4 bs, ip_flags = u16_at 6 bs div 8192, ip_frag_offset = u16_at 6 bs mod 8192,
      ip_ttl = byte_at bs 8, ip_protocol = byte_at bs 9, ip_checksum = u16_at 10 bs,
      ip_src = slice 12 16 bs, ip_dst = slice 16 20 bs,
      ip_payload = slice (nat (ihl * 4)) (nat (u16_at 2 bs)) bs\<rparr>"
    using assms by (auto simp: ipv4_parse_def Let_def ihl_def bit_arith split: if_splits)
  have "byte_at bs 1 div 4 < 64" "u16_at 6 bs div 8192 < 8"
    using byte_at_bounds [of bs 1] u16_at_bounds [of 6 bs] by linarith+
  moreover have "nat (u16_at 2 bs) - nat (ihl * 4) \<le> 65515"
    using l(2) u16_at_bounds [of 2 bs] by linarith
  ultimately show ?thesis
    using l by (simp add: wf_ipv4_def p pos_imp_zdiv_nonneg_iff min.coboundedI1)
qed

lemma ipv4_encode_verifies:
  assumes "wf_ipv4 p"
  shows "\<exists>bs. ipv4_to_bytes p = Inr bs \<and> ipv4_parse bs = Inr (ipv4_norm p) \<and>
    internet_checksum (take 20 bs) = 0"
proof -
  obtain bs where bs: "ipv4_to_bytes p = Inr bs" using ipv4.enc_ok [OF assms] by blast
  have "take 20 bs = ipv4_head p @ be_bytes 2 (ipv4_header_cksum p) @ ip_src p @ ip_dst p"
    using assms bs by (simp add: ipv4_encode wf_ipv4_def flip: append_assoc)
      (auto simp: wf_ipv4_def)
  then have "internet_checksum (take 20 bs) = 0"
    by (simp only:) (rule checksum_verifies, simp_all add: ipv4_header_cksum_def)
  with bs ipv4_dec_enc [OF assms bs] show ?thesis by blast
qed

text \<open>What a receiver reads from a frame that carries an IPv4 packet, once the header checksum passed.\<close>

definition ipv4_frame_view :: "bytes \<Rightarrow> (bytes \<times> bytes \<times> ipv4) res" where
  "ipv4_frame_view f =
     bindr (ethernet_parse f) (\<lambda>e.
       if eth_type e \<noteq> ETHERTYPE_IPV4 \<or> internet_checksum (take 20 (eth_payload e)) \<noteq> 0
       then Inl ValueError
       else bindr (ipv4_parse (eth_payload e)) (\<lambda>p. Inr (eth_dst e, eth_src e, p)))"

definition frame_packet :: "bytes \<Rightarrow> bytes \<Rightarrow> int \<Rightarrow> bytes \<Rightarrow> ipv4" where
  "frame_packet src_ip dst_ip protocol l4 =
     ipv4_norm (ipv4_default\<lparr>ip_protocol := protocol, ip_src := src_ip, ip_dst := dst_ip,
                            ip_ttl := 64, ip_ident := 0, ip_payload := l4\<rparr>)"

lemma frame_packet_simps [simp]:
  "ip_src (frame_packet s d pr l4) = s" "ip_dst (frame_packet s d pr l4) = d"
  "ip_protocol (frame_packet s d pr l4) = pr" "ip_payload (frame_packet s d pr l4) = l4"
  "ip_ttl (frame_packet s d pr l4) = 64" "ip_version (frame_packet s d pr l4) = 4"
  by (simp_all add: frame_packet_def ipv4_norm_def)

lemma make_frame_ipv4_view:
  assumes "length dst_mac = 6" "length src_mac = 6" "length src_ip = 4" "length dst_ip = 4"
    and "0 \<le> protocol" "protocol < 256" "length l4 \<le> 65515"
  shows "\<exists>f. make_frame_ipv4 dst_mac src_mac src_ip dst_ip protocol l4 = Inr f \<and>
    ipv4_frame_view f = Inr (dst_mac, src_mac, frame_packet src_ip dst_ip protocol l4)"
proof -
  let ?p = "ipv4_default\<lparr>ip_protocol := protocol, ip_src := src_ip, ip_dst := dst_ip,
    ip_ttl := 64, ip_ident := 0, ip_payload := l4\<rparr>"
  have wf: "wf_ipv4 ?p" using assms by (simp add: wf_ipv4_def ipv4_default_def)
  then obtain q where q: "ipv4_to_bytes ?p = Inr q" "ipv4_parse q = Inr (ipv4_norm ?p)"
    "internet_checksum (take 20 q) = 0"
    using ipv4_encode_verifies by blast
  let ?e = "\<lparr>eth_dst = dst_mac, eth_src = src_mac, eth_type = ETHERTYPE_IPV4, eth_payload = q\<rparr>"
  have "wf_ethernet ?e" using assms by (simp add: wf_ethernet_def ethertype_defs)
  then obtain f where "ethernet_to_bytes ?e = Inr f" "ethernet_parse f = Inr ?e"
    using eth.enc_ok ethernet_dec_enc by blast
  then show ?thesis
    by (simp add: make_frame_ipv4_def q ipv4_frame_view_def frame_packet_def)
qed

definition arp_frame_view :: "bytes \<Rightarrow> (bytes \<times> bytes \<times> int \<times> arp) res" where
  "arp_frame_view f =
     bindr (ethernet_parse f) (\<lambda>e. bindr (arp_parse (eth_payload e)) (\<lambda>a.
       Inr (eth_dst e, eth_src e, eth_type e, a)))"

lemma make_frame_arp_view:
  assumes "length dst_mac = 6" "length src_mac = 6" "wf_arp a"
  shows "\<exists>f. make_frame_arp dst_mac src_mac a = Inr f \<and>
    arp_frame_view f = Inr (dst_mac, src_mac, ETHERTYPE_ARP, a)"
proof -
  obtain q where q: "arp_to_bytes a = Inr q" using arp.enc_ok [OF assms(3)] by blast
  let ?e = "\<lparr>eth_dst = dst_mac, eth_src = src_mac, eth_type = ETHERTYPE_ARP, eth_payload = q\<rparr>"
  have "wf_ethernet ?e" using assms by (simp add: wf_ethernet_def ethertype_defs)
  then obtain f where "ethernet_to_bytes ?e = Inr f" "ethernet_parse f = Inr ?e"
    using eth.enc_ok ethernet_dec_enc by blast
  then show ?thesis
    using arp_dec_enc [OF assms(3) q] by (simp add: make_frame_arp_def q arp_frame_view_def)
qed

section \<open>Properties of the link and network layer\<close>

text \<open>The Ethernet parser and printer are exact inverses.\<close>

lemma ethernet_exact:
  "ethernet_parse bs = Inr e \<longleftrightarrow> wf_ethernet e \<and> ethernet_to_bytes e = Inr bs"
  using eth.dec_iff_enc eth.dec_wf by blast

end
