(* ===== verification/Py_Dict.thy ===== *)
theory Py_Dict
  imports Prelude "HOL-Library.AList"
begin

text \<open>
  Python dictionaries as association lists in insertion order: assignment keeps the
  position of an existing key and appends a new one, \<^verbatim>\<open>pop\<close> removes it. The locale states
  the laws of a keyed table that the NATs, the caches and the session registry rely on;
  the dictionary provides them.
\<close>

type_synonym ('k, 'v) dict = "('k \<times> 'v) list"

definition dict_get :: "('k, 'v) dict \<Rightarrow> 'k \<Rightarrow> 'v option" where
  "dict_get d k = map_of d k"

definition dict_set :: "'k \<Rightarrow> 'v \<Rightarrow> ('k, 'v) dict \<Rightarrow> ('k, 'v) dict" where
  "dict_set k v d = AList.update k v d"

definition dict_pop :: "'k \<Rightarrow> ('k, 'v) dict \<Rightarrow> ('k, 'v) dict" where
  "dict_pop k d = AList.delete k d"

definition dict_keys :: "('k, 'v) dict \<Rightarrow> 'k list" where
  "dict_keys d = map fst d"

definition dict_ok :: "('k, 'v) dict \<Rightarrow> bool" where
  "dict_ok d \<longleftrightarrow> distinct (dict_keys d)"

locale table =
  fixes empty :: 't
    and get :: "'t \<Rightarrow> 'k \<Rightarrow> 'v option"
    and put :: "'k \<Rightarrow> 'v \<Rightarrow> 't \<Rightarrow> 't"
    and pop :: "'k \<Rightarrow> 't \<Rightarrow> 't"
    and keys :: "'t \<Rightarrow> 'k list"
    and ok :: "'t \<Rightarrow> bool"
  assumes get_empty: "get empty k = None"
    and get_put: "get (put k v t) k' = (if k' = k then Some v else get t k')"
    and get_pop: "get (pop k t) k' = (if k' = k then None else get t k')"
    and in_keys: "k \<in> set (keys t) \<longleftrightarrow> get t k \<noteq> None"
    and ok_empty: "ok empty"
    and ok_put: "ok t \<Longrightarrow> ok (put k v t)"
    and ok_pop: "ok t \<Longrightarrow> ok (pop k t)"
    and ok_keys: "ok t \<Longrightarrow> distinct (keys t)"
begin

lemma get_put_same: "get (put k v t) k = Some v"
  by (simp add: get_put)

lemma get_pop_same: "get (pop k t) k = None"
  by (simp add: get_pop)

text \<open>A property of every entry survives the operations that respect it.\<close>

lemma entries_put: "(\<And>k v. get t k = Some v \<Longrightarrow> P k v) \<Longrightarrow> P k v \<Longrightarrow>
    get (put k v t) k' = Some v' \<Longrightarrow> P k' v'"
  by (auto simp: get_put split: if_splits)

lemma entries_pop: "(\<And>k v. get t k = Some v \<Longrightarrow> P k v) \<Longrightarrow>
    get (pop k t) k' = Some v' \<Longrightarrow> P k' v'"
  by (auto simp: get_pop split: if_splits)

text \<open>Popping every key of a snapshot empties the table.\<close>

lemma get_fold_pop: "get (fold pop ks t) k = (if k \<in> set ks then None else get t k)"
  by (induction ks arbitrary: t) (auto simp: get_pop)

lemma pop_all: "get (fold pop (keys t) t) k = None"
  by (auto simp: get_fold_pop in_keys)

end

interpretation py_dict: table "[] :: ('k, 'v) dict" dict_get dict_set dict_pop dict_keys dict_ok
proof unfold_locales
  fix d :: "('k, 'v) dict" and k k' :: 'k and v :: 'v
  show "dict_get [] k = (None :: 'v option)" by (simp add: dict_get_def)
  show "dict_get (dict_set k v d) k' = (if k' = k then Some v else dict_get d k')"
    by (simp add: dict_get_def dict_set_def update_conv')
  show "dict_get (dict_pop k d) k' = (if k' = k then None else dict_get d k')"
    by (simp add: dict_get_def dict_pop_def delete_conv')
  show "k \<in> set (dict_keys d) \<longleftrightarrow> dict_get d k \<noteq> None"
    by (metis dict_get_def dict_keys_def image_set map_of_eq_None_iff)
  show "dict_ok []" by (simp add: dict_ok_def dict_keys_def)
  show "dict_ok d \<Longrightarrow> dict_ok (dict_set k v d)"
    by (simp add: dict_ok_def dict_keys_def dict_set_def distinct_update)
  show "dict_ok d \<Longrightarrow> dict_ok (dict_pop k d)"
    by (simp add: dict_ok_def dict_keys_def dict_pop_def distinct_delete)
  show "dict_ok d \<Longrightarrow> distinct (dict_keys d)" by (simp add: dict_ok_def)
qed

lemmas dict_laws = py_dict.get_empty py_dict.get_put py_dict.get_pop

lemma dict_set_new: "dict_get d k = None \<Longrightarrow> dict_set k v d = d @ [(k, v)]"
  by (induction d) (auto simp: dict_get_def dict_set_def split: if_splits)

section \<open>Properties of every entry\<close>

text \<open>
  Kept as definitions, so that a key or a value that is a tuple does not split the
  quantifier.
\<close>

definition dict_all :: "('k \<Rightarrow> 'v \<Rightarrow> bool) \<Rightarrow> ('k, 'v) dict \<Rightarrow> bool" where
  "dict_all P d \<longleftrightarrow> (\<forall>k v. dict_get d k = Some v \<longrightarrow> P k v)"

lemma dict_all_nil [simp]: "dict_all P []"
  by (simp add: dict_all_def dict_get_def)

lemma dict_all_get: "dict_all P d \<Longrightarrow> dict_get d k = Some v \<Longrightarrow> P k v"
  unfolding dict_all_def by blast

lemma dict_allI: "(\<And>k v. dict_get d k = Some v \<Longrightarrow> P k v) \<Longrightarrow> dict_all P d"
  unfolding dict_all_def by blast

lemma dict_all_set:
  assumes "Q k v" "\<And>k' v'. k' \<noteq> k \<Longrightarrow> dict_get d k' = Some v' \<Longrightarrow> Q k' v'"
  shows "dict_all Q (dict_set k v d)"
  using assms by (intro dict_allI) (simp add: py_dict.get_put split: if_splits)

lemma dict_all_pop:
  assumes "\<And>k' v'. k' \<noteq> k \<Longrightarrow> dict_get d k' = Some v' \<Longrightarrow> Q k' v'"
  shows "dict_all Q (dict_pop k d)"
  using assms by (intro dict_allI) (simp add: py_dict.get_pop split: if_splits)

definition map_all :: "('k \<Rightarrow> 'v \<Rightarrow> bool) \<Rightarrow> ('k \<Rightarrow> 'v option) \<Rightarrow> bool" where
  "map_all P m \<longleftrightarrow> (\<forall>k v. m k = Some v \<longrightarrow> P k v)"

lemma map_all_empty [simp]: "map_all P (\<lambda>_. None)"
  by (simp add: map_all_def)

lemma map_all_get: "map_all P m \<Longrightarrow> m k = Some v \<Longrightarrow> P k v"
  unfolding map_all_def by blast

lemma map_allI: "(\<And>k v. m k = Some v \<Longrightarrow> P k v) \<Longrightarrow> map_all P m"
  unfolding map_all_def by blast

lemma dict_get_empty_iff: "(\<forall>k. dict_get d k = None) \<longleftrightarrow> d = []"
  by (cases d) (auto simp: dict_get_def)

lemma dict_pop_absent: "dict_get d k = None \<Longrightarrow> dict_pop k d = d"
  by (simp add: dict_get_def dict_pop_def map_of_eq_None_iff delete_id)

lemma dict_pops_filter: "fold dict_pop ks d = filter (\<lambda>(k, v). k \<notin> set ks) d"
proof (induction ks arbitrary: d)
  case (Cons k ks)
  have "dict_pop k d = filter (\<lambda>(k', v). k' \<noteq> k) d"
    by (simp add: dict_pop_def AList.delete_eq case_prod_unfold eq_commute)
  then show ?case by (simp add: Cons.IH case_prod_unfold conj_commute)
qed (simp add: case_prod_unfold)

lemma dict_pop_all: "fold dict_pop (dict_keys d) d = []"
  using py_dict.pop_all [of d] dict_get_empty_iff by blast

lemma dict_entry: "dict_ok d \<Longrightarrow> (k, v) \<in> set d \<Longrightarrow> dict_get d k = Some v"
  by (simp add: dict_ok_def dict_keys_def dict_get_def)

lemma dict_drop_filtered:
  assumes "dict_ok d"
  shows "filter (\<lambda>(k, v). k \<notin> set (map fst (filter P d))) d = filter (\<lambda>e. \<not> P e) d"
proof (rule filter_cong)
  fix e assume e: "e \<in> set d"
  obtain k v where kv: "e = (k, v)" by (cases e)
  have "v' = v" if "(k, v') \<in> set d" for v'
    using that e kv dict_entry [OF assms, of k v'] dict_entry [OF assms, of k v] by simp
  then have "k \<in> set (map fst (filter P d)) \<longleftrightarrow> P e"
  proof -
    have "k \<in> set (map fst (filter P d)) \<longleftrightarrow> (\<exists>v'. (k, v') \<in> set d \<and> P (k, v'))" by force
    then show ?thesis using e kv \<open>\<And>v'. (k, v') \<in> set d \<Longrightarrow> v' = v\<close> by metis
  qed
  then show "(case e of (k, v) \<Rightarrow> k \<notin> set (map fst (filter P d))) \<longleftrightarrow> \<not> P e"
    using kv by simp
qed simp

end
