(* ===== verification/Transport.thy ===== *)
theory Transport
  imports Frames Py_Dict
begin

text \<open>
  The transport layer of \<^verbatim>\<open>velxiogw/net/protocols.py\<close>: TCP, UDP and ICMP segments and the
  TCP option list. The lemmas are the round trips and the checksums a receiver verifies.
\<close>

section \<open>TCP\<close>

record tcp =
  src_port :: int
  dst_port :: int
  seq_no :: int
  ack_no :: int
  data_offset :: int
  tcp_flags :: int
  window :: int
  tcp_checksum :: int
  urg_ptr :: int
  tcp_options :: bytes
  tcp_payload :: bytes

definition tcp_parse :: "bytes \<Rightarrow> tcp res" where
  "tcp_parse segment =
     (if length segment < 20 then Inl ValueError
      else let off_flags = u16_at 12 segment; offs = drop_bit 12 off_flags AND 15;
               header_len = nat (offs * 4)
           in if header_len < 20 \<or> length segment < header_len then Inl ValueError
              else Inr \<lparr>src_port = u16_at 0 segment, dst_port = u16_at 2 segment,
                        seq_no = u32_at 4 segment, ack_no = u32_at 8 segment,
                        data_offset = offs, tcp_flags = off_flags AND 511,
                        window = u16_at 14 segment, tcp_checksum = u16_at 16 segment,
                        urg_ptr = u16_at 18 segment,
                        tcp_options = slice 20 header_len segment,
                        tcp_payload = drop header_len segment\<rparr>)"

definition pad4 :: "bytes \<Rightarrow> bytes" where
  "pad4 opts = (if length opts mod 4 \<noteq> 0 then opts @ replicate (4 - length opts mod 4) 0 else opts)"

definition tcp_to_bytes :: "tcp \<Rightarrow> bytes \<Rightarrow> bytes \<Rightarrow> bytes res" where
  "tcp_to_bytes t src_ip dst_ip =
     (let opts = pad4 (tcp_options t);
          offs = (20 + int (length opts)) div 4;
          off_flags = push_bit 12 offs OR (tcp_flags t AND 511)
      in bindr (pack [U 2 (src_port t), U 2 (dst_port t), U 4 (seq_no t AND 4294967295),
                      U 4 (ack_no t AND 4294967295), U 2 off_flags, U 2 (window t), U 2 0,
                      U 2 (urg_ptr t)]) (\<lambda>header.
         let segment = header @ opts @ tcp_payload t in
         bindr (tcp_udp_checksum src_ip dst_ip IPPROTO_TCP segment) (\<lambda>cksum.
         bindr (pack [U 2 cksum]) (\<lambda>ck.
           Inr (slice 0 16 segment @ ck @ drop 18 segment)))))"

definition wf_tcp :: "tcp \<Rightarrow> bool" where
  "wf_tcp t \<longleftrightarrow> 0 \<le> src_port t \<and> src_port t < 65536 \<and> 0 \<le> dst_port t \<and> dst_port t < 65536 \<and>
     0 \<le> window t \<and> window t < 65536 \<and> 0 \<le> urg_ptr t \<and> urg_ptr t < 65536 \<and>
     length (tcp_options t) \<le> 40 \<and>
     20 + length (pad4 (tcp_options t)) + length (tcp_payload t) < 65536"

definition tcp_head :: "tcp \<Rightarrow> bytes" where
  "tcp_head t = be_bytes 2 (src_port t) @ be_bytes 2 (dst_port t) @
     be_bytes 4 (seq_no t mod 4294967296) @ be_bytes 4 (ack_no t mod 4294967296) @
     be_bytes 2 ((20 + int (length (pad4 (tcp_options t)))) div 4 * 4096 + tcp_flags t mod 512) @
     be_bytes 2 (window t)"

definition tcp_tail :: "tcp \<Rightarrow> bytes" where
  "tcp_tail t = be_bytes 2 (urg_ptr t) @ pad4 (tcp_options t) @ tcp_payload t"

text \<open>The pseudo-header as transmitted in the checksum.\<close>

definition pseudo :: "bytes \<Rightarrow> bytes \<Rightarrow> int \<Rightarrow> nat \<Rightarrow> bytes" where
  "pseudo src_ip dst_ip protocol n =
     src_ip @ dst_ip @ [0, word_of_int protocol] @ be_bytes 2 (int n)"

definition tcp_cksum :: "tcp \<Rightarrow> bytes \<Rightarrow> bytes \<Rightarrow> int" where
  "tcp_cksum t src_ip dst_ip = internet_checksum
     (pseudo src_ip dst_ip IPPROTO_TCP (20 + length (pad4 (tcp_options t)) + length (tcp_payload t)) @
      tcp_head t @ be_bytes 2 0 @ tcp_tail t)"

lemma length_tcp_head [simp]: "length (tcp_head t) = 16"
  by (simp add: tcp_head_def)

lemma length_tcp_tail [simp]:
  "length (tcp_tail t) = 2 + length (pad4 (tcp_options t)) + length (tcp_payload t)"
  by (simp add: tcp_tail_def)

lemma pad4_length: "length (pad4 opts) mod 4 = 0" "length opts \<le> length (pad4 opts)"
  "length opts \<le> 40 \<Longrightarrow> length (pad4 opts) \<le> 40"
proof -
  show "length (pad4 opts) mod 4 = 0"
    by (cases "length opts mod 4 = 0") (simp_all add: pad4_def, presburger)
  show "length opts \<le> length (pad4 opts)" by (simp add: pad4_def) presburger
  show "length opts \<le> 40 \<Longrightarrow> length (pad4 opts) \<le> 40"
    by (simp add: pad4_def) presburger
qed

lemma pad4_id: "length opts mod 4 = 0 \<Longrightarrow> pad4 opts = opts"
  by (simp add: pad4_def)

lemma tcp_cksum_range [simp]: "0 \<le> tcp_cksum t s d" "tcp_cksum t s d < 65536"
  by (simp_all add: tcp_cksum_def internet_checksum_range)

lemma tcp_udp_checksum_pseudo:
  "0 \<le> protocol \<Longrightarrow> protocol < 256 \<Longrightarrow> length segment < 65536 \<Longrightarrow>
   tcp_udp_checksum src dst protocol segment =
     Inr (internet_checksum (pseudo src dst protocol (length segment) @ segment))"
  by (simp add: tcp_udp_checksum_eq pseudo_def)

lemma tcp_encode:
  assumes wf: "wf_tcp t"
  shows "tcp_to_bytes t s d = Inr (tcp_head t @ be_bytes 2 (tcp_cksum t s d) @ tcp_tail t)"
proof -
  let ?offs = "(20 + int (length (pad4 (tcp_options t)))) div 4"
  have o: "0 \<le> ?offs * 4096 + tcp_flags t mod 512" "?offs * 4096 + tcp_flags t mod 512 < 65536"
    using wf pad4_length(3) [of "tcp_options t"] pos_mod_bound [of 512 "tcp_flags t"]
    by (auto simp: wf_tcp_def)
  have off: "push_bit 12 ?offs OR (tcp_flags t AND 511) = ?offs * 4096 + tcp_flags t mod 512"
    by (simp add: bit_arith order.strict_trans2 [OF pos_mod_bound [of 512]])
  have "pack [U 2 (src_port t), U 2 (dst_port t), U 4 (seq_no t AND 4294967295),
      U 4 (ack_no t AND 4294967295), U 2 (push_bit 12 ?offs OR (tcp_flags t AND 511)),
      U 2 (window t), U 2 0, U 2 (urg_ptr t)] =
      Inr (tcp_head t @ be_bytes 2 0 @ be_bytes 2 (urg_ptr t))"
    using wf o by (simp add: off pack_fits wf_tcp_def bit_arith tcp_head_def)
  moreover have "tcp_udp_checksum s d IPPROTO_TCP
      ((tcp_head t @ be_bytes 2 0 @ be_bytes 2 (urg_ptr t)) @ pad4 (tcp_options t) @ tcp_payload t) =
      Inr (tcp_cksum t s d)"
    using wf by (simp add: tcp_udp_checksum_pseudo IPPROTO_TCP_def tcp_cksum_def tcp_tail_def
        wf_tcp_def add.commute add.left_commute)
  moreover have "pack [U 2 (tcp_cksum t s d)] = Inr (be_bytes 2 (tcp_cksum t s d))"
    by (simp add: pack_fits)
  ultimately show ?thesis
    unfolding tcp_to_bytes_def Let_def
    by (simp only: bindr_simps) (simp add: reads tcp_tail_def)
qed

text \<open>What \<^verbatim>\<open>parse\<close> reads back: sequence numbers reduced, options padded, offset and checksum set.\<close>

definition tcp_norm :: "bytes \<Rightarrow> bytes \<Rightarrow> tcp \<Rightarrow> tcp" where
  "tcp_norm s d t = t\<lparr>seq_no := seq_no t mod 4294967296, ack_no := ack_no t mod 4294967296,
     tcp_flags := tcp_flags t mod 512, tcp_options := pad4 (tcp_options t),
     data_offset := (20 + int (length (pad4 (tcp_options t)))) div 4,
     tcp_checksum := tcp_cksum t s d\<rparr>"

lemma tcp_dec_enc:
  assumes wf: "wf_tcp t" and enc: "tcp_to_bytes t s d = Inr bs"
  shows "tcp_parse bs = Inr (tcp_norm s d t)"
proof -
  define n where "n = length (pad4 (tcp_options t))"
  define offs where "offs = (20 + int n) div 4"
  have n: "n mod 4 = 0" "n \<le> 40"
    using pad4_length[of "tcp_options t"] wf by (simp_all add: n_def wf_tcp_def)
  have offs: "offs * 4 = 20 + int n" "0 \<le> offs" "offs < 16" using n by (auto simp: offs_def)
  have fl: "0 \<le> tcp_flags t mod 512" "tcp_flags t mod 512 < 512" by simp_all
  have bs: "bs = tcp_head t @ be_bytes 2 (tcp_cksum t s d) @ tcp_tail t"
    using assms by (simp add: tcp_encode)
  have len: "length bs = 20 + n + length (tcp_payload t)" by (simp add: bs n_def)
  have w12: "u16_at 12 bs = offs * 4096 + tcp_flags t mod 512"
    using offs fl by (simp add: bs tcp_head_def reads offs_def n_def)
  have "(offs * 4096 + tcp_flags t mod 512) mod 512 = tcp_flags t mod 512"
    by (rule int_mod_pos_eq [of _ _ "offs * 8"]) simp_all
  then have d: "drop_bit 12 (u16_at 12 bs) AND 15 = offs" "u16_at 12 bs AND 511 = tcp_flags t mod 512"
    using offs fl by (simp_all add: w12 bit_arith)
  have w: "u16_at 0 bs = src_port t" "u16_at 2 bs = dst_port t"
    "u32_at 4 bs = seq_no t mod 4294967296" "u32_at 8 bs = ack_no t mod 4294967296"
    "u16_at 14 bs = window t" "u16_at 16 bs = tcp_cksum t s d" "u16_at 18 bs = urg_ptr t"
    using wf by (simp_all add: bs tcp_head_def tcp_tail_def reads wf_tcp_def)
  have o: "slice 20 (20 + n) bs = pad4 (tcp_options t)" "drop (20 + n) bs = tcp_payload t"
    by (simp_all add: bs tcp_tail_def n_def reads)
  have h: "nat (offs * 4) = 20 + n" using offs by simp
  show ?thesis
    using len by (simp add: tcp_parse_def Let_def d w h o)
      (cases t, simp add: tcp_norm_def offs_def n_def)
qed

text \<open>The TCP codec for a fixed pair of addresses.\<close>

definition tcp_enc :: "bytes \<times> bytes \<Rightarrow> tcp \<Rightarrow> bytes res" where
  "tcp_enc sd t = tcp_to_bytes t (fst sd) (snd sd)"

interpretation tcp: codec "tcp_enc sd" tcp_parse wf_tcp "tcp_norm (fst sd) (snd sd)" for sd
  by unfold_locales (auto simp: tcp_enc_def tcp_encode intro: tcp_dec_enc)

interpretation tcp: safe_parser tcp_parse
  by unfold_locales (auto simp: tcp_parse_def Let_def split: if_splits)

lemma tcp_verifies:
  assumes "wf_tcp t" "even (length s + length d)" "tcp_to_bytes t s d = Inr bs"
  shows "tcp_udp_checksum s d IPPROTO_TCP bs = Inr 0"
proof -
  let ?n = "20 + length (pad4 (tcp_options t)) + length (tcp_payload t)"
  have bs: "bs = tcp_head t @ be_bytes 2 (tcp_cksum t s d) @ tcp_tail t"
    using assms by (simp add: tcp_encode)
  have "internet_checksum ((pseudo s d IPPROTO_TCP ?n @ tcp_head t) @
      be_bytes 2 (tcp_cksum t s d) @ tcp_tail t) = 0"
    using assms(2) by (intro checksum_verifies) (simp_all add: pseudo_def tcp_cksum_def)
  moreover have "length bs = ?n" by (simp add: bs)
  ultimately show ?thesis
    using assms(1) by (simp add: tcp_udp_checksum_pseudo IPPROTO_TCP_def wf_tcp_def bs
        add.assoc)
qed

section \<open>TCP options\<close>

text \<open>
  \<^verbatim>\<open>parse_tcp_options\<close> returns a dictionary keyed by the strings \<^verbatim>\<open>'mss'\<close> and \<^verbatim>\<open>'wscale'\<close>
  or by the option kind, with integer or byte-string values.
\<close>

datatype opt_key = Opt_mss | Opt_wscale | Opt_kind int
datatype opt_val = Opt_int int | Opt_bytes bytes

definition record_option ::
  "bytes \<Rightarrow> nat \<Rightarrow> int \<Rightarrow> nat \<Rightarrow> (opt_key, opt_val) dict \<Rightarrow> (opt_key, opt_val) dict" where
  "record_option opts i kind len out =
     (let val = slice (i + 2) (i + len) opts
      in if kind = 2 \<and> len = 4 then dict_set Opt_mss (Opt_int (u16_at (i + 2) opts)) out
         else if kind = 3 \<and> len = 3 then dict_set Opt_wscale (Opt_int (byte_at val 0)) out
         else dict_set (Opt_kind kind) (Opt_bytes val) out)"

function parse_options_from :: "bytes \<Rightarrow> nat \<Rightarrow> (opt_key, opt_val) dict \<Rightarrow> (opt_key, opt_val) dict"
where
  "parse_options_from opts i out =
     (if length opts \<le> i then out
      else if byte_at opts i = 0 then out
      else if byte_at opts i = 1 then parse_options_from opts (i + 1) out
      else if length opts \<le> i + 1 then out
      else if byte_at opts (i + 1) < 2 \<or> length opts < i + nat (byte_at opts (i + 1)) then out
      else parse_options_from opts (i + nat (byte_at opts (i + 1)))
             (record_option opts i (byte_at opts i) (nat (byte_at opts (i + 1))) out))"
  by pat_completeness auto

termination by (relation "measure (\<lambda>(opts, i, out). length opts - i)") auto

declare parse_options_from.simps [simp del]

definition parse_tcp_options :: "bytes \<Rightarrow> (opt_key, opt_val) dict" where
  "parse_tcp_options opts = parse_options_from opts 0 []"

text \<open>\<^verbatim>\<open>opts.get('mss', default)\<close>.\<close>

definition opt_mss :: "(opt_key, opt_val) dict \<Rightarrow> int \<Rightarrow> int" where
  "opt_mss opts deflt = (case dict_get opts Opt_mss of Some (Opt_int m) \<Rightarrow> m | _ \<Rightarrow> deflt)"

definition mss_option :: "int \<Rightarrow> bytes res" where
  "mss_option mss = bindr (pack [U 2 mss]) (\<lambda>m. Inr ([2, 4] @ m))"

definition mss_entry_ok :: "(opt_key, opt_val) dict \<Rightarrow> bool" where
  "mss_entry_ok d \<longleftrightarrow> (\<forall>v. dict_get d Opt_mss = Some v \<longrightarrow> (\<exists>m. v = Opt_int m \<and> 0 \<le> m \<and> m < 65536))"

lemma record_option_mss: "mss_entry_ok out \<Longrightarrow> mss_entry_ok (record_option opts i kind len out)"
  by (auto simp: record_option_def mss_entry_ok_def dict_laws Let_def)

lemma parse_options_mss: "mss_entry_ok out \<Longrightarrow> mss_entry_ok (parse_options_from opts i out)"
proof (induction opts i out rule: parse_options_from.induct)
  case (1 opts i out)
  then show ?case
    by (subst parse_options_from.simps) (simp add: record_option_mss)
qed

lemma opt_mss_range:
  assumes "0 \<le> deflt" "deflt < 65536"
  shows "0 \<le> opt_mss (parse_tcp_options opts) deflt" "opt_mss (parse_tcp_options opts) deflt < 65536"
proof -
  have "mss_entry_ok (parse_tcp_options opts)"
    unfolding parse_tcp_options_def
    by (rule parse_options_mss) (simp add: mss_entry_ok_def dict_laws)
  then show "0 \<le> opt_mss (parse_tcp_options opts) deflt" "opt_mss (parse_tcp_options opts) deflt < 65536"
    using assms by (auto simp: mss_entry_ok_def opt_mss_def split: option.splits)
qed

text \<open>The option the NAT advertises reads back as the MSS it holds.\<close>

lemma parse_mss_option:
  assumes "0 \<le> m" "m < 65536" "mss_option m = Inr opts"
  shows "opt_mss (parse_tcp_options opts) deflt = m"
proof -
  have opts: "opts = [2, 4] @ be_bytes 2 m"
    using assms by (simp add: mss_option_def pack_fits)
  have "parse_tcp_options opts = dict_set Opt_mss (Opt_int m) []"
    unfolding parse_tcp_options_def
    by (subst parse_options_from.simps, simp add: opts record_option_def assms reads)
      (subst parse_options_from.simps, simp add: assms reads)
  then show ?thesis by (simp add: opt_mss_def dict_laws)
qed

section \<open>UDP\<close>

record udp =
  udp_src_port :: int
  udp_dst_port :: int
  udp_length :: int
  udp_checksum :: int
  udp_payload :: bytes

definition udp_parse :: "bytes \<Rightarrow> udp res" where
  "udp_parse segment =
     (if length segment < 8 then Inl ValueError
      else Inr \<lparr>udp_src_port = u16_at 0 segment, udp_dst_port = u16_at 2 segment,
                udp_length = u16_at 4 segment, udp_checksum = u16_at 6 segment,
                udp_payload = slice 8 (nat (u16_at 4 segment)) segment\<rparr>)"

definition udp_to_bytes :: "udp \<Rightarrow> bytes \<Rightarrow> bytes \<Rightarrow> bytes res" where
  "udp_to_bytes u src_ip dst_ip =
     (let len = 8 + int (length (udp_payload u))
      in bindr (pack [U 2 (udp_src_port u), U 2 (udp_dst_port u), U 2 len, U 2 0]) (\<lambda>header.
         let segment = header @ udp_payload u in
         bindr (tcp_udp_checksum src_ip dst_ip IPPROTO_UDP segment) (\<lambda>cksum.
         bindr (pack [U 2 (if cksum = 0 then 65535 else cksum)]) (\<lambda>ck.
           Inr (slice 0 6 segment @ ck @ drop 8 segment)))))"

definition wf_udp :: "udp \<Rightarrow> bool" where
  "wf_udp u \<longleftrightarrow> 0 \<le> udp_src_port u \<and> udp_src_port u < 65536 \<and>
     0 \<le> udp_dst_port u \<and> udp_dst_port u < 65536 \<and> 8 + length (udp_payload u) < 65536"

definition udp_head :: "udp \<Rightarrow> bytes" where
  "udp_head u = be_bytes 2 (udp_src_port u) @ be_bytes 2 (udp_dst_port u) @
     be_bytes 2 (8 + int (length (udp_payload u)))"

definition udp_raw_cksum :: "udp \<Rightarrow> bytes \<Rightarrow> bytes \<Rightarrow> int" where
  "udp_raw_cksum u src_ip dst_ip = internet_checksum
     (pseudo src_ip dst_ip IPPROTO_UDP (8 + length (udp_payload u)) @
      udp_head u @ be_bytes 2 0 @ udp_payload u)"

definition udp_cksum :: "udp \<Rightarrow> bytes \<Rightarrow> bytes \<Rightarrow> int" where
  "udp_cksum u s d = (if udp_raw_cksum u s d = 0 then 65535 else udp_raw_cksum u s d)"

lemma length_udp_head [simp]: "length (udp_head u) = 6"
  by (simp add: udp_head_def)

lemma udp_cksum_range [simp]: "0 < udp_cksum u s d" "udp_cksum u s d < 65536"
  using internet_checksum_range [of "pseudo s d IPPROTO_UDP (8 + length (udp_payload u)) @
      udp_head u @ be_bytes 2 0 @ udp_payload u"]
  by (auto simp: udp_cksum_def udp_raw_cksum_def)

lemma udp_encode:
  assumes wf: "wf_udp u"
  shows "udp_to_bytes u s d = Inr (udp_head u @ be_bytes 2 (udp_cksum u s d) @ udp_payload u)"
proof -
  have "pack [U 2 (udp_src_port u), U 2 (udp_dst_port u), U 2 (8 + int (length (udp_payload u))),
      U 2 0] = Inr (udp_head u @ be_bytes 2 0)"
    using wf by (simp add: pack_fits wf_udp_def udp_head_def)
  moreover have "tcp_udp_checksum s d IPPROTO_UDP ((udp_head u @ be_bytes 2 0) @ udp_payload u) =
      Inr (udp_raw_cksum u s d)"
    using wf by (simp add: tcp_udp_checksum_pseudo IPPROTO_UDP_def udp_raw_cksum_def wf_udp_def)
  moreover have "pack [U 2 (udp_cksum u s d)] = Inr (be_bytes 2 (udp_cksum u s d))"
    by (simp add: pack_fits order.strict_implies_order)
  ultimately show ?thesis
    unfolding udp_to_bytes_def Let_def
    by (simp only: bindr_simps udp_cksum_def [symmetric]) (simp add: reads)
qed

definition udp_norm :: "bytes \<Rightarrow> bytes \<Rightarrow> udp \<Rightarrow> udp" where
  "udp_norm s d u = u\<lparr>udp_length := 8 + int (length (udp_payload u)),
     udp_checksum := udp_cksum u s d\<rparr>"

lemma udp_dec_enc:
  assumes wf: "wf_udp u" and enc: "udp_to_bytes u s d = Inr bs"
  shows "udp_parse bs = Inr (udp_norm s d u)"
proof -
  have bs: "bs = udp_head u @ be_bytes 2 (udp_cksum u s d) @ udp_payload u"
    using assms by (simp add: udp_encode)
  have w: "u16_at 0 bs = udp_src_port u" "u16_at 2 bs = udp_dst_port u"
    "u16_at 4 bs = 8 + int (length (udp_payload u))" "u16_at 6 bs = udp_cksum u s d"
    using wf by (simp_all add: bs udp_head_def reads wf_udp_def order.strict_implies_order)
  have p: "slice 8 (8 + length (udp_payload u)) bs = udp_payload u" by (simp add: bs reads)
  have "\<not> length bs < 8" by (simp add: bs)
  with p show ?thesis
    by (simp add: udp_parse_def w nat_add_distrib) (cases u, simp add: udp_norm_def)
qed

definition udp_enc :: "bytes \<times> bytes \<Rightarrow> udp \<Rightarrow> bytes res" where
  "udp_enc sd u = udp_to_bytes u (fst sd) (snd sd)"

interpretation udp: codec "udp_enc sd" udp_parse wf_udp "udp_norm (fst sd) (snd sd)" for sd
  by unfold_locales (auto simp: udp_enc_def udp_encode intro: udp_dec_enc)

interpretation udp: safe_parser udp_parse
  by unfold_locales (auto simp: udp_parse_def split: if_splits)

lemma udp_verifies:
  assumes "wf_udp u" "even (length s + length d)" "udp_to_bytes u s d = Inr bs"
  shows "tcp_udp_checksum s d IPPROTO_UDP bs = Inr 0"
proof -
  let ?pre = "pseudo s d IPPROTO_UDP (8 + length (udp_payload u)) @ udp_head u"
  have bs: "bs = udp_head u @ be_bytes 2 (udp_cksum u s d) @ udp_payload u"
    using assms by (simp add: udp_encode)
  have ev: "even (length ?pre)" using assms(2) by (simp add: pseudo_def)
  have raw: "udp_raw_cksum u s d = internet_checksum (?pre @ be_bytes 2 0 @ udp_payload u)"
    by (simp add: udp_raw_cksum_def)
  have "internet_checksum (?pre @ be_bytes 2 (udp_cksum u s d) @ udp_payload u) = 0"
    using checksum_verifies_all_ones [OF ev] checksum_verifies [OF ev raw] raw
    by (auto simp: udp_cksum_def)
  then show ?thesis
    using assms(1) by (simp add: tcp_udp_checksum_pseudo IPPROTO_UDP_def wf_udp_def bs)
qed

section \<open>ICMP\<close>

record icmp =
  icmp_type :: int
  icmp_code :: int
  icmp_checksum :: int
  icmp_rest :: bytes
  icmp_payload :: bytes

definition icmp_parse :: "bytes \<Rightarrow> icmp res" where
  "icmp_parse segment =
     (if length segment < 8 then Inl ValueError
      else Inr \<lparr>icmp_type = byte_at segment 0, icmp_code = byte_at segment 1,
                icmp_checksum = u16_at 2 segment, icmp_rest = slice 4 8 segment,
                icmp_payload = drop 8 segment\<rparr>)"

definition icmp_to_bytes :: "icmp \<Rightarrow> bytes res" where
  "icmp_to_bytes i =
     bindr (pack [U 1 (icmp_type i), U 1 (icmp_code i), U 2 0]) (\<lambda>h.
       let header_no_cksum = h @ icmp_rest i @ icmp_payload i in
       bindr (pack [U 2 (internet_checksum header_no_cksum)]) (\<lambda>ck.
         Inr (slice 0 2 header_no_cksum @ ck @ drop 4 header_no_cksum)))"

definition wf_icmp :: "icmp \<Rightarrow> bool" where
  "wf_icmp i \<longleftrightarrow> 0 \<le> icmp_type i \<and> icmp_type i < 256 \<and> 0 \<le> icmp_code i \<and> icmp_code i < 256 \<and>
     length (icmp_rest i) = 4"

definition icmp_cksum :: "icmp \<Rightarrow> int" where
  "icmp_cksum i = internet_checksum ((be_bytes 1 (icmp_type i) @ be_bytes 1 (icmp_code i)) @
     be_bytes 2 0 @ icmp_rest i @ icmp_payload i)"

lemma icmp_encode:
  assumes wf: "wf_icmp i"
  shows "icmp_to_bytes i = Inr ((be_bytes 1 (icmp_type i) @ be_bytes 1 (icmp_code i)) @
    be_bytes 2 (icmp_cksum i) @ icmp_rest i @ icmp_payload i)"
proof -
  have "pack [U 1 (icmp_type i), U 1 (icmp_code i), U 2 0] =
      Inr ((be_bytes 1 (icmp_type i) @ be_bytes 1 (icmp_code i)) @ be_bytes 2 0)"
    using wf by (simp add: pack_fits wf_icmp_def)
  moreover have "pack [U 2 (icmp_cksum i)] = Inr (be_bytes 2 (icmp_cksum i))"
    by (simp add: pack_fits icmp_cksum_def internet_checksum_range)
  ultimately show ?thesis
    unfolding icmp_to_bytes_def Let_def
    by (simp only: bindr_simps append_assoc icmp_cksum_def [symmetric, unfolded append_assoc])
      (simp add: reads)
qed

definition icmp_norm :: "icmp \<Rightarrow> icmp" where
  "icmp_norm i = i\<lparr>icmp_checksum := icmp_cksum i\<rparr>"

lemma icmp_dec_enc:
  assumes wf: "wf_icmp i" and enc: "icmp_to_bytes i = Inr bs"
  shows "icmp_parse bs = Inr (icmp_norm i)"
proof -
  have c: "0 \<le> icmp_cksum i" "icmp_cksum i < 65536"
    by (simp_all only: icmp_cksum_def internet_checksum_range)
  have bs: "bs = (be_bytes 1 (icmp_type i) @ be_bytes 1 (icmp_code i)) @
      be_bytes 2 (icmp_cksum i) @ icmp_rest i @ icmp_payload i"
    using assms by (simp add: icmp_encode)
  show ?thesis
    using wf c by (simp add: icmp_parse_def bs reads wf_icmp_def)
      (cases i, simp add: icmp_norm_def)
qed

interpretation icmp: codec icmp_to_bytes icmp_parse wf_icmp icmp_norm
  by unfold_locales (auto simp: icmp_encode intro: icmp_dec_enc)

interpretation icmp: safe_parser icmp_parse
  by unfold_locales (auto simp: icmp_parse_def split: if_splits)

lemma icmp_verifies: "wf_icmp i \<Longrightarrow> icmp_to_bytes i = Inr bs \<Longrightarrow> internet_checksum bs = 0"
  using checksum_verifies [of "be_bytes 1 (icmp_type i) @ be_bytes 1 (icmp_code i)" "icmp_cksum i"
      "icmp_rest i @ icmp_payload i"]
  by (simp add: icmp_encode icmp_cksum_def)

lemma udp_parse_wf: "udp_parse bs = Inr u \<Longrightarrow> wf_udp u"
proof -
  assume a: "udp_parse bs = Inr u"
  have "nat (u16_at 4 bs) - 8 \<le> 65527" using u16_at_bounds [of 4 bs] by linarith
  with a show ?thesis by (auto simp: udp_parse_def wf_udp_def split: if_splits)
qed

text \<open>A header field of a parsed segment is in range; its payload is part of the segment.\<close>

definition parsed_tcp :: "tcp \<Rightarrow> bool" where
  "parsed_tcp t \<longleftrightarrow> 0 \<le> src_port t \<and> src_port t < 65536 \<and> 0 \<le> dst_port t \<and> dst_port t < 65536 \<and>
     0 \<le> seq_no t \<and> seq_no t < 4294967296 \<and> 0 \<le> ack_no t \<and> ack_no t < 4294967296 \<and>
     0 \<le> tcp_flags t \<and> tcp_flags t < 512 \<and> 0 \<le> window t \<and> window t < 65536 \<and>
     length (tcp_options t) \<le> 40"

lemma tcp_parse_parsed:
  assumes "tcp_parse bs = Inr t"
  shows "parsed_tcp t" "length (tcp_payload t) + 20 \<le> length bs"
proof -
  define offs where "offs = drop_bit 12 (u16_at 12 bs) mod 16"
  have o: "0 \<le> offs" "offs < 16" by (simp_all add: offs_def)
  have l: "20 \<le> nat (offs * 4)" "nat (offs * 4) \<le> length bs"
    and t: "t = \<lparr>src_port = u16_at 0 bs, dst_port = u16_at 2 bs, seq_no = u32_at 4 bs,
      ack_no = u32_at 8 bs, data_offset = offs, tcp_flags = u16_at 12 bs mod 512,
      window = u16_at 14 bs, tcp_checksum = u16_at 16 bs, urg_ptr = u16_at 18 bs,
      tcp_options = slice 20 (nat (offs * 4)) bs, tcp_payload = drop (nat (offs * 4)) bs\<rparr>"
    using assms by (auto simp: tcp_parse_def Let_def and_masks offs_def split: if_splits)
  have "nat (offs * 4) \<le> 60" using o by linarith
  then show "parsed_tcp t" by (simp add: parsed_tcp_def t)
  show "length (tcp_payload t) + 20 \<le> length bs" using l by (simp add: t)
qed

lemma icmp_parse_wf: "icmp_parse bs = Inr i \<Longrightarrow> wf_icmp i \<and> length (icmp_payload i) + 8 = length bs"
  by (auto simp: icmp_parse_def wf_icmp_def split: if_splits)

section \<open>UDP frames\<close>

text \<open>The 4-tuple a flow or a connection is filed under: source and destination.\<close>

type_synonym flow_key = "bytes \<times> int \<times> bytes \<times> int"

text \<open>The \<^verbatim>\<open>UDP(...)\<close> calls give ports and payload; the other fields take their defaults.\<close>

definition udp_default :: udp where
  "udp_default = \<lparr>udp_src_port = 0, udp_dst_port = 0, udp_length = 0, udp_checksum = 0, udp_payload = []\<rparr>"

definition udp_frame :: "bytes \<Rightarrow> bytes \<Rightarrow> bytes \<Rightarrow> udp \<Rightarrow> bytes res" where
  "udp_frame mac src dst u =
     bindr (udp_to_bytes u src dst) (\<lambda>l4. make_frame_ipv4 mac GATEWAY_MAC src dst IPPROTO_UDP l4)"

text \<open>What the chip reads from a frame: addresses and datagram, after both checksums passed.\<close>

definition udp_frame_view :: "bytes \<Rightarrow> (bytes \<times> bytes \<times> bytes \<times> bytes \<times> udp) res" where
  "udp_frame_view f =
     bindr (ipv4_frame_view f) (\<lambda>(dmac, smac, p).
       if ip_protocol p \<noteq> IPPROTO_UDP then Inl ValueError
       else bindr (tcp_udp_checksum (ip_src p) (ip_dst p) IPPROTO_UDP (ip_payload p)) (\<lambda>ck.
         if ck \<noteq> 0 then Inl ValueError
         else bindr (udp_parse (ip_payload p)) (\<lambda>u. Inr (dmac, smac, ip_src p, ip_dst p, u))))"

lemma udp_frame_view:
  assumes "length mac = 6" "length s = 4" "length d = 4" "wf_udp u" "length (udp_payload u) \<le> 65507"
  shows "\<exists>f. udp_frame mac s d u = Inr f \<and>
    udp_frame_view f = Inr (mac, GATEWAY_MAC, s, d, udp_norm s d u)"
proof -
  obtain l4 where l4: "udp_to_bytes u s d = Inr l4" using assms(4) by (simp add: udp_encode)
  have "length l4 = 8 + length (udp_payload u)" using l4 assms(4) by (auto simp: udp_encode)
  then obtain f where "make_frame_ipv4 mac GATEWAY_MAC s d IPPROTO_UDP l4 = Inr f"
    "ipv4_frame_view f = Inr (mac, GATEWAY_MAC, frame_packet s d IPPROTO_UDP l4)"
    using make_frame_ipv4_view [of mac GATEWAY_MAC s d IPPROTO_UDP l4] assms
    by (auto simp: IPPROTO_UDP_def)
  then show ?thesis
    using l4 assms by (simp add: udp_frame_def udp_frame_view_def udp_dec_enc udp_verifies)
qed

lemma udp_norm_simps [simp]:
  "udp_src_port (udp_norm s d u) = udp_src_port u" "udp_dst_port (udp_norm s d u) = udp_dst_port u"
  "udp_payload (udp_norm s d u) = udp_payload u"
  by (simp_all add: udp_norm_def)

section \<open>Properties of the transport layer\<close>

lemma tcp_encode_verifies:
  assumes "wf_tcp t" "length s = 4" "length d = 4"
  shows "\<exists>bs. tcp_to_bytes t s d = Inr bs \<and> tcp_parse bs = Inr (tcp_norm s d t) \<and>
    tcp_udp_checksum s d IPPROTO_TCP bs = Inr 0"
proof -
  obtain bs where bs: "tcp_to_bytes t s d = Inr bs"
    using tcp.enc_ok [OF assms(1), of "(s, d)"] by (auto simp: tcp_enc_def)
  with assms show ?thesis by (auto intro: tcp_dec_enc tcp_verifies)
qed

definition sample_tcp :: tcp where
  "sample_tcp = \<lparr>src_port = 80, dst_port = 49152, seq_no = 4294967297, ack_no = 7,
     data_offset = 5, tcp_flags = 18, window = 65535, tcp_checksum = 0, urg_ptr = 0,
     tcp_options = [2, 4, 5, 180, 1], tcp_payload = [104, 105]\<rparr>"

lemma wf_sample_tcp: "wf_tcp sample_tcp"
  by (simp add: wf_tcp_def sample_tcp_def pad4_def)

lemma udp_encode_verifies:
  assumes "wf_udp u" "length s = 4" "length d = 4"
  shows "\<exists>bs v. udp_to_bytes u s d = Inr bs \<and> udp_parse bs = Inr v \<and>
    v = u\<lparr>udp_length := int (length bs), udp_checksum := udp_checksum v\<rparr> \<and>
    0 < udp_checksum v \<and> tcp_udp_checksum s d IPPROTO_UDP bs = Inr 0"
proof -
  obtain bs where bs: "udp_to_bytes u s d = Inr bs"
    using udp.enc_ok [OF assms(1), of "(s, d)"] by (auto simp: udp_enc_def)
  have "length bs = 8 + length (udp_payload u)" using assms(1) bs by (auto simp: udp_encode)
  moreover have "udp_parse bs = Inr (udp_norm s d u)" using assms(1) bs by (rule udp_dec_enc)
  moreover have "tcp_udp_checksum s d IPPROTO_UDP bs = Inr 0"
    using assms bs by (intro udp_verifies) simp_all
  ultimately show ?thesis using bs by (simp add: udp_norm_def)
qed

lemma parsers_total:
  "(case ethernet_parse bs of Inl e \<Rightarrow> e = ValueError | Inr f \<Rightarrow> wf_ethernet f) \<and>
   (case arp_parse bs of Inl e \<Rightarrow> e = ValueError | Inr a \<Rightarrow> wf_arp a) \<and>
   (case ipv4_parse bs of Inl e \<Rightarrow> e = ValueError | Inr p \<Rightarrow> wf_ipv4 p) \<and>
   (case tcp_parse bs of Inl e \<Rightarrow> e = ValueError
    | Inr t \<Rightarrow> parsed_tcp t \<and> length (tcp_payload t) + 20 \<le> length bs) \<and>
   (case udp_parse bs of Inl e \<Rightarrow> e = ValueError | Inr u \<Rightarrow> wf_udp u) \<and>
   (case icmp_parse bs of Inl e \<Rightarrow> e = ValueError
    | Inr i \<Rightarrow> wf_icmp i \<and> length (icmp_payload i) + 8 = length bs)"
  using eth.only_value_error eth.dec_wf arp.only_value_error arp_parse_wf
    ipv4.only_value_error ipv4_parse_wf tcp.only_value_error tcp_parse_parsed
    udp.only_value_error udp_parse_wf icmp.only_value_error icmp_parse_wf
  by (simp add: sum.split)

end
