(* ===== verification/Responders.thy ===== *)
theory Responders
  imports Transport
begin

text \<open>
  The two stateless responders: \<^verbatim>\<open>velxiogw/net/arp.py\<close> and \<^verbatim>\<open>velxiogw/net/icmp.py\<close>. Each
  returns the frame to inject, or \<open>None\<close> for silence; the lemmas show that neither ever
  raises on a frame the bridge hands it, and what the reply says.
\<close>

section \<open>ARP\<close>

definition arp_reply :: "arp \<Rightarrow> arp" where
  "arp_reply a = \<lparr>htype = 1, ptype = ETHERTYPE_IPV4, hlen = 6, plen = 4, opcode = ARP_REPLY,
     sha = GATEWAY_MAC, spa = tpa a, tha = sha a, tpa = spa a\<rparr>"

definition arp_handle :: "ethernet \<Rightarrow> bytes option res" where
  "arp_handle frame =
     catch_value (arp_parse (eth_payload frame)) (Inr None) (\<lambda>a.
       if opcode a \<noteq> ARP_REQUEST then Inr None
       else if spa a \<noteq> ip_const STA_IP then Inr None
       else bindr (make_frame_arp (sha a) GATEWAY_MAC (arp_reply a)) (\<lambda>f. Inr (Some f)))"

lemma arp_reply_wf: "wf_arp a \<Longrightarrow> wf_arp (arp_reply a)"
  by (simp add: wf_arp_def arp_reply_def ETHERTYPE_IPV4_def ARP_REPLY_def)

text \<open>The specification: which payloads deserve an answer.\<close>

definition arp_question :: "bytes \<Rightarrow> arp option" where
  "arp_question payload =
     (case arp_parse payload of Inl _ \<Rightarrow> None
      | Inr a \<Rightarrow> if opcode a = ARP_REQUEST \<and> spa a = [10, 13, 37, 42] then Some a else None)"

lemma arp_handle_cases:
  "case arp_question (eth_payload frame) of
     None \<Rightarrow> arp_handle frame = Inr None
   | Some a \<Rightarrow> \<exists>f. arp_handle frame = Inr (Some f) \<and>
       arp_frame_view f = Inr (sha a, GATEWAY_MAC, ETHERTYPE_ARP, arp_reply a)"
proof (cases "arp_question (eth_payload frame)")
  case None
  then show ?thesis
    by (auto simp: arp_question_def arp_handle_def arp.caught split: sum.splits if_splits)
next
  case (Some a)
  then have a: "arp_parse (eth_payload frame) = Inr a" "opcode a = ARP_REQUEST"
    "spa a = [10, 13, 37, 42]"
    by (auto simp: arp_question_def split: sum.splits if_splits)
  have wf: "wf_arp a" using a(1) by (rule arp_parse_wf)
  then have "length (sha a) = 6" by (simp add: wf_arp_def)
  then show ?thesis
    using make_frame_arp_view [OF _ _ arp_reply_wf [OF wf], of "sha a" GATEWAY_MAC] a
    by (auto simp: Some arp_handle_def)
qed

lemma arp_handle_answers:
  "case arp_question (eth_payload frame) of
     None \<Rightarrow> arp_handle frame = Inr None
   | Some a \<Rightarrow> \<exists>f. arp_handle frame = Inr (Some f) \<and>
       arp_frame_view f = Inr (sha a, GATEWAY_MAC, ETHERTYPE_ARP, arp_reply a)"
  by (rule arp_handle_cases)

section \<open>ICMP\<close>

definition icmp_reply :: "icmp \<Rightarrow> icmp" where
  "icmp_reply i = \<lparr>icmp_type = ICMP_ECHO_REPLY, icmp_code = 0, icmp_checksum = 0,
     icmp_rest = icmp_rest i, icmp_payload = icmp_payload i\<rparr>"

definition icmp_handle :: "bytes \<Rightarrow> ipv4 \<Rightarrow> bytes option res" where
  "icmp_handle chip_mac ip =
     catch_value (icmp_parse (ip_payload ip)) (Inr None) (\<lambda>i.
       if icmp_type i \<noteq> ICMP_ECHO_REQUEST then Inr None
       else bindr (icmp_to_bytes (icmp_reply i)) (\<lambda>l4.
            bindr (make_frame_ipv4 chip_mac GATEWAY_MAC (ip_dst ip) (ip_src ip) IPPROTO_ICMP l4)
              (\<lambda>f. Inr (Some f))))"

definition echo_request :: "bytes \<Rightarrow> icmp option" where
  "echo_request payload =
     (case icmp_parse payload of Inl _ \<Rightarrow> None
      | Inr i \<Rightarrow> if icmp_type i = ICMP_ECHO_REQUEST then Some i else None)"

lemma icmp_reply_wf: "wf_icmp i \<Longrightarrow> wf_icmp (icmp_reply i)"
  by (simp add: wf_icmp_def icmp_reply_def ICMP_ECHO_REPLY_def)

lemma icmp_handle_cases:
  assumes "wf_ipv4 ip" "length chip_mac = 6"
  shows "case echo_request (ip_payload ip) of
      None \<Rightarrow> icmp_handle chip_mac ip = Inr None
    | Some i \<Rightarrow> \<exists>f l4. icmp_handle chip_mac ip = Inr (Some f) \<and>
        ipv4_frame_view f =
          Inr (chip_mac, GATEWAY_MAC, frame_packet (ip_dst ip) (ip_src ip) IPPROTO_ICMP l4) \<and>
        icmp_parse l4 = Inr (icmp_norm (icmp_reply i)) \<and> internet_checksum l4 = 0"
proof (cases "echo_request (ip_payload ip)")
  case None
  then show ?thesis
    by (auto simp: echo_request_def icmp_handle_def icmp.caught split: sum.splits if_splits)
next
  case (Some i)
  then have i: "icmp_parse (ip_payload ip) = Inr i" "icmp_type i = ICMP_ECHO_REQUEST"
    by (auto simp: echo_request_def split: sum.splits if_splits)
  then have wf: "wf_icmp (icmp_reply i)" and len: "length (icmp_payload i) + 8 = length (ip_payload ip)"
    using icmp_parse_wf [of "ip_payload ip" i] icmp_reply_wf by auto
  obtain l4 where l4: "icmp_to_bytes (icmp_reply i) = Inr l4" using icmp.enc_ok [OF wf] by blast
  have "length l4 = length (ip_payload ip)"
    using l4 wf len by (auto simp: icmp_encode wf_icmp_def icmp_reply_def)
  then obtain f where "make_frame_ipv4 chip_mac GATEWAY_MAC (ip_dst ip) (ip_src ip) IPPROTO_ICMP l4 = Inr f"
    "ipv4_frame_view f = Inr (chip_mac, GATEWAY_MAC, frame_packet (ip_dst ip) (ip_src ip) IPPROTO_ICMP l4)"
    using make_frame_ipv4_view [of chip_mac GATEWAY_MAC "ip_dst ip" "ip_src ip" IPPROTO_ICMP l4] assms
    by (auto simp: wf_ipv4_def IPPROTO_ICMP_def)
  then show ?thesis
    using i l4 icmp_dec_enc [OF wf l4] icmp_verifies [OF wf l4]
    by (auto simp: Some icmp_handle_def)
qed

lemma icmp_handle_echoes:
  assumes "wf_ipv4 ip" "length chip_mac = 6"
  shows "case echo_request (ip_payload ip) of
      None \<Rightarrow> icmp_handle chip_mac ip = Inr None
    | Some i \<Rightarrow> \<exists>f l4. icmp_handle chip_mac ip = Inr (Some f) \<and>
        ipv4_frame_view f =
          Inr (chip_mac, GATEWAY_MAC, frame_packet (ip_dst ip) (ip_src ip) IPPROTO_ICMP l4) \<and>
        icmp_parse l4 = Inr (icmp_norm (icmp_reply i)) \<and> internet_checksum l4 = 0"
  using assms by (rule icmp_handle_cases)

end
