(* ===== verification/Dhcp.thy ===== *)
theory Dhcp
  imports Transport
begin

text \<open>
  DHCP: the message codec of \<^verbatim>\<open>velxiogw/net/protocols.py\<close> (class \<^verbatim>\<open>Dhcp\<close>) and the server of
  \<^verbatim>\<open>velxiogw/net/dhcp.py\<close>. The option field is a dictionary in insertion order; the option
  loops of \<^verbatim>\<open>parse\<close> and \<^verbatim>\<open>to_bytes\<close> are shown to be inverse, and the server's replies are
  decoded to say what lease the chip receives.
\<close>

section \<open>The message codec\<close>

definition DHCP_MAGIC :: bytes where "DHCP_MAGIC = [0x63, 0x82, 0x53, 0x63]"

record dhcp =
  op :: int
  xid :: int
  dhcp_flags :: int
  ciaddr :: bytes
  yiaddr :: bytes
  siaddr :: bytes
  giaddr :: bytes
  chaddr :: bytes
  dhcp_options :: "(int, bytes) dict"

text \<open>The \<^verbatim>\<open>while i < len(payload)\<close> loop over the options.\<close>

function dhcp_options_from :: "bytes \<Rightarrow> nat \<Rightarrow> (int, bytes) dict \<Rightarrow> (int, bytes) dict" where
  "dhcp_options_from payload i opts =
     (if length payload \<le> i then opts
      else if byte_at payload i = 0 then dhcp_options_from payload (i + 1) opts
      else if byte_at payload i = 255 then opts
      else if length payload \<le> i + 1 then opts
      else let len = nat (byte_at payload (i + 1))
           in dhcp_options_from payload (i + 2 + len)
                (dict_set (byte_at payload i) (slice (i + 2) (i + 2 + len) payload) opts))"
  by pat_completeness auto

termination by (relation "measure (\<lambda>(payload, i, opts). length payload - i)") auto

declare dhcp_options_from.simps [simp del]

definition dhcp_parse :: "bytes \<Rightarrow> dhcp res" where
  "dhcp_parse payload =
     (if length payload < 240 then Inl ValueError
      else if slice 236 240 payload \<noteq> DHCP_MAGIC then Inl ValueError
      else Inr \<lparr>op = byte_at payload 0, xid = u32_at 4 payload, dhcp_flags = u16_at 10 payload,
                ciaddr = slice 12 16 payload, yiaddr = slice 16 20 payload,
                siaddr = slice 20 24 payload, giaddr = slice 24 28 payload,
                chaddr = slice 28 44 payload,
                dhcp_options = dhcp_options_from payload 240 []\<rparr>)"

text \<open>
  The loop of \<^verbatim>\<open>to_bytes\<close>: \<^verbatim>\<open>bytearray.append\<close> raises \<^verbatim>\<open>ValueError\<close> outside \<open>range(256)\<close>.
\<close>

fun options_bytes :: "(int, bytes) dict \<Rightarrow> bytes res" where
  "options_bytes [] = Inr []"
| "options_bytes ((code, val) # opts) =
     bindr (py_bytes [code, int (length val)]) (\<lambda>h.
     bindr (options_bytes opts) (\<lambda>rest. Inr (h @ val @ rest)))"

definition dhcp_to_bytes :: "dhcp \<Rightarrow> bytes res" where
  "dhcp_to_bytes d =
     bindr (pack [U 1 (op d), U 1 1, U 1 6, U 1 0, U 4 (xid d), U 2 0, U 2 (dhcp_flags d),
                  S 4 (ciaddr d), S 4 (yiaddr d), S 4 (siaddr d), S 4 (giaddr d),
                  S 16 (chaddr d), S 64 [], S 128 []]) (\<lambda>head.
     bindr (options_bytes (dhcp_options d)) (\<lambda>opts. Inr (head @ DHCP_MAGIC @ opts @ [255])))"

definition option_ok :: "int \<times> bytes \<Rightarrow> bool" where
  "option_ok kv \<longleftrightarrow> 0 < fst kv \<and> fst kv < 255 \<and> length (snd kv) < 256"

definition wf_dhcp :: "dhcp \<Rightarrow> bool" where
  "wf_dhcp d \<longleftrightarrow> 0 \<le> op d \<and> op d < 256 \<and> 0 \<le> xid d \<and> xid d < 4294967296 \<and>
     0 \<le> dhcp_flags d \<and> dhcp_flags d < 65536 \<and> length (ciaddr d) = 4 \<and> length (yiaddr d) = 4 \<and>
     length (siaddr d) = 4 \<and> length (giaddr d) = 4 \<and> length (chaddr d) = 16 \<and>
     dict_ok (dhcp_options d) \<and> list_all option_ok (dhcp_options d)"

subsection \<open>Round trip\<close>

fun flat_options :: "(int, bytes) dict \<Rightarrow> bytes" where
  "flat_options [] = []"
| "flat_options ((code, val) # opts) =
     word_of_int code # word_of_int (int (length val)) # val @ flat_options opts"

lemma options_encode: "list_all option_ok opts \<Longrightarrow> options_bytes opts = Inr (flat_options opts)"
  by (induction opts rule: options_bytes.induct) (auto simp: option_ok_def)

lemma dict_set_append:
  "dict_ok (d @ (k, v) # d') \<Longrightarrow> dict_set k v d = d @ [(k, v)]"
  by (rule dict_set_new) (auto simp: dict_ok_def dict_keys_def dict_get_def map_of_eq_None_iff)

lemma dhcp_options_decode:
  assumes "list_all option_ok opts" "dict_ok (acc @ opts)"
  shows "dhcp_options_from (pre @ flat_options opts @ [255]) (length pre) acc = acc @ opts"
  using assms
proof (induction opts arbitrary: pre acc rule: flat_options.induct)
  case 1
  then show ?case by (subst dhcp_options_from.simps) simp
next
  case (2 code val opts)
  let ?p = "pre @ flat_options ((code, val) # opts) @ [255]"
  let ?pre' = "pre @ [word_of_int code, word_of_int (int (length val))] @ val"
  have c: "0 < code" "code < 255" "length val < 256" using "2.prems"(1) by (auto simp: option_ok_def)
  have "slice (length pre + 2) (length pre + 2 + length val) ?p = val" by (simp add: reads)
  moreover have "byte_at ?p (length pre) = code"
    "byte_at ?p (length pre + 1) = int (length val)" using c by simp_all
  moreover have "dict_set code val acc = acc @ [(code, val)]"
    using "2.prems"(2) by (rule dict_set_append)
  moreover have "length pre + 1 < length ?p" by simp
  ultimately have "dhcp_options_from ?p (length pre) acc =
      dhcp_options_from ?p (length pre + 2 + length val) (acc @ [(code, val)])"
    using c by (subst dhcp_options_from.simps) (simp add: Let_def del: flat_options.simps byte_at_append length_append)
  also have "\<dots> = dhcp_options_from (?pre' @ flat_options opts @ [255]) (length ?pre') (acc @ [(code, val)])"
    by (simp add: add.commute)
  also have "\<dots> = (acc @ [(code, val)]) @ opts"
    using "2.prems" by (intro "2.IH") simp_all
  finally show ?case by simp
qed

definition dhcp_head :: "dhcp \<Rightarrow> bytes" where
  "dhcp_head d = be_bytes 1 (op d) @ be_bytes 1 1 @ be_bytes 1 6 @ be_bytes 1 0 @
     be_bytes 4 (xid d) @ be_bytes 2 0 @ be_bytes 2 (dhcp_flags d) @ ciaddr d @ yiaddr d @
     siaddr d @ giaddr d @ chaddr d @ replicate 64 0 @ replicate 128 0"

lemma dhcp_encode:
  "wf_dhcp d \<Longrightarrow> dhcp_to_bytes d = Inr (dhcp_head d @ DHCP_MAGIC @ flat_options (dhcp_options d) @ [255])"
  by (simp add: dhcp_to_bytes_def wf_dhcp_def pack_fits options_encode dhcp_head_def)

lemma length_dhcp_head: "wf_dhcp d \<Longrightarrow> length (dhcp_head d) = 236"
  by (simp add: dhcp_head_def wf_dhcp_def)

lemma dhcp_dec_enc:
  assumes wf: "wf_dhcp d" and enc: "dhcp_to_bytes d = Inr bs"
  shows "dhcp_parse bs = Inr d"
proof -
  have bs: "bs = dhcp_head d @ DHCP_MAGIC @ flat_options (dhcp_options d) @ [255]"
    using assms by (simp add: dhcp_encode)
  have l: "length (dhcp_head d) = 236" "length DHCP_MAGIC = 4"
    using wf by (simp_all add: length_dhcp_head DHCP_MAGIC_def)
  have "dhcp_options_from bs 240 [] = dhcp_options d"
    using dhcp_options_decode [of "dhcp_options d" "[]" "dhcp_head d @ DHCP_MAGIC"] wf l
    by (simp add: bs wf_dhcp_def)
  moreover have "slice 236 240 bs = DHCP_MAGIC" using l by (simp add: bs reads)
  moreover have "byte_at bs 0 = op d" "u32_at 4 bs = xid d" "u16_at 10 bs = dhcp_flags d"
    "slice 12 16 bs = ciaddr d" "slice 16 20 bs = yiaddr d" "slice 20 24 bs = siaddr d"
    "slice 24 28 bs = giaddr d" "slice 28 44 bs = chaddr d"
    using wf by (simp_all add: bs dhcp_head_def wf_dhcp_def reads)
  moreover have "\<not> length bs < 240" using l by (simp add: bs)
  ultimately show ?thesis by (simp add: dhcp_parse_def)
qed

interpretation dhcp: codec dhcp_to_bytes dhcp_parse wf_dhcp "\<lambda>d. d"
  by unfold_locales (auto simp: dhcp_encode intro: dhcp_dec_enc)

interpretation dhcp: safe_parser dhcp_parse
  by unfold_locales (auto simp: dhcp_parse_def split: if_splits)

lemma dhcp_round_trip:
  assumes "wf_dhcp d"
  shows "bindr (dhcp_to_bytes d) dhcp_parse = Inr d"
  using assms by (rule dhcp.round_trip)

section \<open>The server\<close>

definition OPT_SUBNET_MASK :: int where "OPT_SUBNET_MASK = 1"
definition OPT_ROUTER :: int where "OPT_ROUTER = 3"
definition OPT_DNS :: int where "OPT_DNS = 6"
definition OPT_LEASE_TIME :: int where "OPT_LEASE_TIME = 51"
definition OPT_MESSAGE_TYPE :: int where "OPT_MESSAGE_TYPE = 53"
definition OPT_SERVER_ID :: int where "OPT_SERVER_ID = 54"
definition OPT_RENEWAL_TIME :: int where "OPT_RENEWAL_TIME = 58"
definition OPT_REBINDING_TIME :: int where "OPT_REBINDING_TIME = 59"

lemmas opt_defs = OPT_SUBNET_MASK_def OPT_ROUTER_def OPT_DNS_def OPT_LEASE_TIME_def
  OPT_MESSAGE_TYPE_def OPT_SERVER_ID_def OPT_RENEWAL_TIME_def OPT_REBINDING_TIME_def
lemmas dhcp_type_defs = DHCP_DISCOVER_def DHCP_OFFER_def DHCP_REQUEST_def DHCP_ACK_def

record dhcp_server =
  lease_active :: bool

text \<open>\<^verbatim>\<open>chip_mac.ljust(16, b'\x00')\<close>.\<close>

definition ljust16 :: "bytes \<Rightarrow> bytes" where
  "ljust16 b = b @ replicate (16 - length b) 0"

definition dhcp_options_of :: "int \<Rightarrow> (int, bytes) dict res" where
  "dhcp_options_of msg_type =
     (let gw_ip = ip_const GATEWAY_IP; dns_ip = ip_const DNS_IP; lease_secs = DHCP_LEASE_SECONDS
      in bindr (py_bytes [msg_type]) (\<lambda>mt.
         bindr (pack [U 4 lease_secs]) (\<lambda>lt.
         bindr (pack [U 4 (lease_secs div 2)]) (\<lambda>rn.
         bindr (pack [U 4 (lease_secs * 7 div 8)]) (\<lambda>rb.
         bindr (py_bytes [255, 255, 255, 0]) (\<lambda>sm.
           Inr [(OPT_MESSAGE_TYPE, mt), (OPT_SERVER_ID, gw_ip), (OPT_LEASE_TIME, lt),
                (OPT_RENEWAL_TIME, rn), (OPT_REBINDING_TIME, rb), (OPT_SUBNET_MASK, sm),
                (OPT_ROUTER, gw_ip), (OPT_DNS, dns_ip)]))))))"

text \<open>\<^verbatim>\<open>_build_response\<close>: destination address, source address, UDP datagram.\<close>

definition build_response :: "dhcp \<Rightarrow> int \<Rightarrow> bytes \<Rightarrow> (bytes \<times> bytes \<times> udp) res" where
  "build_response req msg_type chip_mac =
     (let gw_ip = ip_const GATEWAY_IP; sta_ip = ip_const STA_IP
      in bindr (dhcp_options_of msg_type) (\<lambda>opts.
         let resp = \<lparr>op = 2, xid = xid req, dhcp_flags = dhcp_flags req, ciaddr = ciaddr req,
                     yiaddr = sta_ip, siaddr = gw_ip, giaddr = giaddr req,
                     chaddr = ljust16 chip_mac, dhcp_options = opts\<rparr>
         in bindr (dhcp_to_bytes resp) (\<lambda>payload.
              Inr (sta_ip, gw_ip, \<lparr>udp_src_port = 67, udp_dst_port = 68, udp_length = 0,
                                   udp_checksum = 0, udp_payload = payload\<rparr>))))"

text \<open>\<^verbatim>\<open>DhcpServer.handle\<close>: the reply, if any, and the server's next state.\<close>

definition dhcp_handle ::
  "dhcp_server \<Rightarrow> bytes \<Rightarrow> udp \<Rightarrow> (bytes \<times> bytes \<times> udp) option res \<times> dhcp_server" where
  "dhcp_handle srv chip_mac u =
     (case dhcp_parse (udp_payload u) of
        Inl e \<Rightarrow> (if e = ValueError then Inr None else Inl e, srv)
      | Inr req \<Rightarrow>
          if op req \<noteq> 1 then (Inr None, srv)
          else (case dict_get (dhcp_options req) OPT_MESSAGE_TYPE of
              None \<Rightarrow> (Inr None, srv)
            | Some [] \<Rightarrow> (Inr None, srv)
            | Some (b # _) \<Rightarrow>
                if uint b = DHCP_DISCOVER
                then (bindr (build_response req DHCP_OFFER chip_mac) (\<lambda>r. Inr (Some r)), srv)
                else if uint b = DHCP_REQUEST
                then (bindr (build_response req DHCP_ACK chip_mac) (\<lambda>r. Inr (Some r)),
                      srv\<lparr>lease_active := True\<rparr>)
                else (Inr None, srv)))"

definition is_dhcp_traffic :: "udp \<Rightarrow> bool" where
  "is_dhcp_traffic u \<longleftrightarrow> udp_dst_port u = 67 \<or> udp_src_port u = 67"

text \<open>\<^verbatim>\<open>make_dhcp_frame\<close> with its default \<^verbatim>\<open>use_broadcast_dst=True\<close> as \<open>use_broadcast_dst\<close>.\<close>

definition make_dhcp_frame :: "bytes \<Rightarrow> bytes \<Rightarrow> bytes \<Rightarrow> udp \<Rightarrow> bool \<Rightarrow> bytes res" where
  "make_dhcp_frame chip_mac src_ip dst_ip u use_broadcast_dst =
     (let dst_mac = (if use_broadcast_dst then BROADCAST_MAC else chip_mac)
      in bindr (udp_to_bytes u src_ip dst_ip) (\<lambda>l4.
         make_frame_ipv4 dst_mac GATEWAY_MAC src_ip dst_ip 17 l4))"

subsection \<open>What the server answers\<close>

text \<open>The options of a reply, as the bytes the chip reads.\<close>

definition lease_options :: "int \<Rightarrow> (int, bytes) dict" where
  "lease_options msg_type =
     [(53, [word_of_int msg_type]), (54, [10, 13, 37, 1]), (51, be_bytes 4 86400),
      (58, be_bytes 4 43200), (59, be_bytes 4 75600), (1, [255, 255, 255, 0]),
      (3, [10, 13, 37, 1]), (6, [10, 13, 37, 1])]"

definition lease_message :: "dhcp \<Rightarrow> int \<Rightarrow> bytes \<Rightarrow> dhcp" where
  "lease_message req msg_type chip_mac =
     \<lparr>op = 2, xid = xid req, dhcp_flags = dhcp_flags req, ciaddr = ciaddr req,
      yiaddr = [10, 13, 37, 42], siaddr = [10, 13, 37, 1], giaddr = giaddr req,
      chaddr = chip_mac @ replicate 10 0, dhcp_options = lease_options msg_type\<rparr>"

lemma dhcp_options_of_eq:
  "0 \<le> mt \<Longrightarrow> mt < 256 \<Longrightarrow> dhcp_options_of mt = Inr (lease_options mt)"
  by (simp add: dhcp_options_of_def Let_def pack_fits DHCP_LEASE_SECONDS_def lease_options_def opt_defs)

lemma dhcp_parse_fields:
  assumes "dhcp_parse bs = Inr d"
  shows "0 \<le> xid d" "xid d < 4294967296" "0 \<le> dhcp_flags d" "dhcp_flags d < 65536"
    "length (ciaddr d) = 4" "length (giaddr d) = 4"
  using assms by (auto simp: dhcp_parse_def split: if_splits)

lemma lease_message_wf:
  assumes "dhcp_parse bs = Inr req" "0 \<le> mt" "mt < 256" "length chip_mac = 6"
  shows "wf_dhcp (lease_message req mt chip_mac)"
  using dhcp_parse_fields [OF assms(1)] assms(2-)
  by (simp add: wf_dhcp_def lease_message_def lease_options_def dict_ok_def dict_keys_def option_ok_def)

lemma build_response_eq:
  assumes "dhcp_parse bs = Inr req" "0 \<le> mt" "mt < 256" "length chip_mac = 6"
  shows "\<exists>u. build_response req mt chip_mac = Inr ([10, 13, 37, 42], [10, 13, 37, 1], u) \<and>
    udp_src_port u = 67 \<and> udp_dst_port u = 68 \<and> length (udp_payload u) = 286 \<and>
    dhcp_parse (udp_payload u) = Inr (lease_message req mt chip_mac)"
proof -
  let ?m = "lease_message req mt chip_mac"
  have wf: "wf_dhcp ?m" using assms by (rule lease_message_wf)
  then obtain p where p: "dhcp_to_bytes ?m = Inr p" using dhcp.enc_ok by blast
  have m: "\<lparr>op = 2, xid = xid req, dhcp_flags = dhcp_flags req, ciaddr = ciaddr req,
      yiaddr = [10, 13, 37, 42], siaddr = [10, 13, 37, 1], giaddr = giaddr req,
      chaddr = ljust16 chip_mac, dhcp_options = lease_options mt\<rparr> = ?m"
    using assms(4) by (simp add: lease_message_def ljust16_def)
  have "length p = 286"
    using p wf length_dhcp_head [OF wf]
    by (auto simp: dhcp_encode DHCP_MAGIC_def) (simp add: lease_message_def lease_options_def)
  then show ?thesis
    using dhcp_dec_enc [OF wf p] assms(2,3)
    by (simp add: build_response_def Let_def dhcp_options_of_eq m p)
qed

text \<open>The message type of a payload the server looks at, \<open>None\<close> where it is not a request.\<close>

definition request_type :: "bytes \<Rightarrow> (dhcp \<times> int) option" where
  "request_type payload =
     (case dhcp_parse payload of
        Inl _ \<Rightarrow> None
      | Inr req \<Rightarrow>
          if op req \<noteq> 1 then None
          else (case dict_get (dhcp_options req) OPT_MESSAGE_TYPE of
                  Some (b # _) \<Rightarrow> Some (req, uint b) | _ \<Rightarrow> None))"

lemma request_type_parse: "request_type payload = Some (req, t) \<Longrightarrow> dhcp_parse payload = Inr req"
  by (auto simp: request_type_def split: sum.splits if_splits option.splits list.splits)

lemma dhcp_handle_eq:
  "dhcp_handle srv mac u =
     (case request_type (udp_payload u) of
        None \<Rightarrow> (Inr None, srv)
      | Some (req, t) \<Rightarrow>
          if t = 1 then (bindr (build_response req 2 mac) (\<lambda>r. Inr (Some r)), srv)
          else if t = 3 then (bindr (build_response req 5 mac) (\<lambda>r. Inr (Some r)),
                              srv\<lparr>lease_active := True\<rparr>)
          else (Inr None, srv))"
  using dhcp.only_value_error [of "udp_payload u"]
  by (auto simp: dhcp_handle_def request_type_def dhcp_type_defs
      split: sum.splits option.splits list.splits)

text \<open>A reply always fits its frame.\<close>

lemma dhcp_handle_fits:
  assumes "length mac = 6"
  shows "\<exists>x. fst (dhcp_handle srv mac u) = Inr x \<and>
    (case x of None \<Rightarrow> True
     | Some (d, s, out) \<Rightarrow> length d = 4 \<and> length s = 4 \<and> wf_udp out \<and> length (udp_payload out) = 286)"
proof (cases "request_type (udp_payload u)")
  case None
  then show ?thesis by (simp add: dhcp_handle_eq)
next
  case (Some rt)
  obtain req t where rt: "rt = (req, t)" by (cases rt)
  then have p: "dhcp_parse (udp_payload u) = Inr req" using Some request_type_parse by simp
  show ?thesis
    using build_response_eq [OF p, of 2 mac] build_response_eq [OF p, of 5 mac] assms
    by (auto simp: dhcp_handle_eq Some rt wf_udp_def)
qed

text \<open>What the station gives back is not taken back: a RELEASE or a DECLINE leaves the lease active.\<close>

lemma dhcp_lease_kept:
  assumes "request_type (udp_payload u) = Some (req, t)" "t \<in> {DHCP_DECLINE, DHCP_NAK, DHCP_RELEASE, DHCP_INFORM}"
  shows "dhcp_handle srv mac u = (Inr None, srv)"
  using assms by (auto simp: dhcp_handle_eq DHCP_DECLINE_def DHCP_NAK_def DHCP_RELEASE_def DHCP_INFORM_def)

text \<open>C40: The DHCP server never raises on any datagram. A DISCOVER is answered with an OFFER
  and a REQUEST with an ACK: the reply goes from the gateway's port 67 to the station's
  port 68, and its payload parses to the lease the chip must read (the transaction id
  echoed, the station address offered, mask, router, name server, server id and lease times
  in the options). Only a REQUEST activates the lease; every other datagram is silent and
  leaves the server unchanged.\<close>

theorem dhcp_handle_leases:
  assumes "length mac = 6"
  shows "case request_type (udp_payload u) of
      None \<Rightarrow> dhcp_handle srv mac u = (Inr None, srv)
    | Some (req, t) \<Rightarrow>
        if t = 1 \<or> t = 3 then
          \<exists>out. dhcp_handle srv mac u =
              (Inr (Some ([10, 13, 37, 42], [10, 13, 37, 1], out)),
               if t = 3 then srv\<lparr>lease_active := True\<rparr> else srv) \<and>
            udp_src_port out = 67 \<and> udp_dst_port out = 68 \<and>
            dhcp_parse (udp_payload out) = Inr (lease_message req (if t = 1 then 2 else 5) mac)
        else dhcp_handle srv mac u = (Inr None, srv)"
proof (cases "request_type (udp_payload u)")
  case None
  then show ?thesis by (simp add: dhcp_handle_eq)
next
  case (Some rt)
  obtain req t where rt: "rt = (req, t)" by (cases rt)
  then have p: "dhcp_parse (udp_payload u) = Inr req" using Some request_type_parse by simp
  show ?thesis
    using build_response_eq [OF p, of 2 mac] build_response_eq [OF p, of 5 mac] assms
    by (auto simp: dhcp_handle_eq Some rt)
qed

text \<open>A DISCOVER as the chip sends it: the smallest BOOTP request with a message type option.\<close>

definition sample_discover :: "int \<Rightarrow> bytes" where
  "sample_discover t = [1, 1, 6, 0, 0, 0, 0x13, 0x37] @ replicate 20 0 @ STA_MAC @
     replicate 202 0 @ DHCP_MAGIC @ [53, 1, word_of_int t, 255]"

lemma sample_discover_type:
  "0 \<le> t \<Longrightarrow> t < 256 \<Longrightarrow> \<exists>req. request_type (sample_discover t) = Some (req, t) \<and> xid req = 0x1337"
proof -
  assume t: "0 \<le> t" "t < 256"
  let ?p = "sample_discover t"
  have opts: "dhcp_options_from ?p 240 [] = [(53, [word_of_int t])]"
    using dhcp_options_decode [of "[(53, [word_of_int t])]" "[]" "[1, 1, 6, 0, 0, 0, 0x13, 0x37] @
        replicate 20 0 @ STA_MAC @ replicate 202 0 @ DHCP_MAGIC"]
    by (simp add: sample_discover_def option_ok_def dict_ok_def dict_keys_def DHCP_MAGIC_def)
  have len: "length ?p = 244" by (simp add: sample_discover_def DHCP_MAGIC_def)
  have m: "slice 236 240 ?p = DHCP_MAGIC" by (simp add: sample_discover_def reads DHCP_MAGIC_def)
  have b0: "byte_at ?p 0 = 1" by (simp add: sample_discover_def)
  have "u32_at 4 ?p = be_int [0, 0, 0x13, 0x37]"
    by (simp add: u32_at_def sample_discover_def reads)
  also have "\<dots> = 0x1337" by (simp add: be_int_def)
  finally show ?thesis
    using t by (simp add: request_type_def dhcp_parse_def len m b0 opts OPT_MESSAGE_TYPE_def dict_get_def)
qed

theorem dhcp_handle_leases_witness:
  "\<exists>out req. dhcp_handle \<lparr>lease_active = False\<rparr> STA_MAC
       \<lparr>udp_src_port = 68, udp_dst_port = 67, udp_length = 252, udp_checksum = 0,
        udp_payload = sample_discover 3\<rparr> =
     (Inr (Some ([10, 13, 37, 42], [10, 13, 37, 1], out)), \<lparr>lease_active = True\<rparr>) \<and>
     dhcp_parse (udp_payload out) = Inr (lease_message req 5 STA_MAC) \<and> xid req = 0x1337"
proof -
  obtain req where "request_type (sample_discover 3) = Some (req, 3)" "xid req = 0x1337"
    using sample_discover_type [of 3] by auto
  then show ?thesis
    using dhcp_handle_leases [of STA_MAC, where srv = "\<lparr>lease_active = False\<rparr>" and
        u = "\<lparr>udp_src_port = 68, udp_dst_port = 67, udp_length = 252, udp_checksum = 0,
          udp_payload = sample_discover 3\<rparr>"]
    by auto
qed

end
