(* ===== verification/Egress.thy ===== *)
theory Egress
  imports Consts
begin

text \<open>
  \<^verbatim>\<open>velxiogw/net/egress_guard.py\<close>: which destinations the NATs may open a real socket to
  and which resolved addresses the DNS proxy may hand out, with the part of Python's
  \<^verbatim>\<open>ipaddress\<close> it uses (CPython 3.13's tables). The lemmas give the policy octet by octet
  and show that the connect-time and the DNS-time checks agree.
\<close>

section \<open>The ipaddress module\<close>

definition in_net :: "int \<Rightarrow> int \<Rightarrow> nat \<Rightarrow> bool" where
  "in_net addr net prefix \<longleftrightarrow> drop_bit (32 - prefix) addr = drop_bit (32 - prefix) net"

definition quad :: "int \<Rightarrow> int \<Rightarrow> int \<Rightarrow> int \<Rightarrow> int" where
  "quad a b c d = a * 16777216 + b * 65536 + c * 256 + d"

definition private_networks :: "(int \<times> nat) list" where
  "private_networks = [(quad 0 0 0 0, 8), (quad 10 0 0 0, 8), (quad 127 0 0 0, 8),
     (quad 169 254 0 0, 16), (quad 172 16 0 0, 12), (quad 192 0 0 0, 24), (quad 192 0 0 170, 31),
     (quad 192 0 2 0, 24), (quad 192 168 0 0, 16), (quad 198 18 0 0, 15), (quad 198 51 100 0, 24),
     (quad 203 0 113 0, 24), (quad 240 0 0 0, 4), (quad 255 255 255 255, 32)]"

definition private_networks_exceptions :: "(int \<times> nat) list" where
  "private_networks_exceptions = [(quad 192 0 0 9, 32), (quad 192 0 0 10, 32)]"

definition v4_is_private :: "int \<Rightarrow> bool" where
  "v4_is_private addr \<longleftrightarrow> list_ex (\<lambda>(n, p). in_net addr n p) private_networks \<and>
     list_all (\<lambda>(n, p). \<not> in_net addr n p) private_networks_exceptions"

definition v4_is_global :: "int \<Rightarrow> bool" where
  "v4_is_global addr \<longleftrightarrow> \<not> in_net addr (quad 100 64 0 0) 10 \<and> \<not> v4_is_private addr"

definition v4_is_multicast :: "int \<Rightarrow> bool" where
  "v4_is_multicast addr \<longleftrightarrow> in_net addr (quad 224 0 0 0) 4"

definition v4_is_reserved :: "int \<Rightarrow> bool" where
  "v4_is_reserved addr \<longleftrightarrow> in_net addr (quad 240 0 0 0) 4"

text \<open>\<^verbatim>\<open>_parse_octet\<close>: one to three decimal digits, no leading zero, at most 255.\<close>

definition parse_octet :: "pystr \<Rightarrow> int option" where
  "parse_octet s =
     (if s = [] \<or> \<not> list_all is_digit s \<or> 3 < length s \<or> (s \<noteq> [48] \<and> hd s = 48) then None
      else let v = int (digits_value s) in if 255 < v then None else Some v)"

definition ipv4_of_text :: "pystr \<Rightarrow> int option" where
  "ipv4_of_text s =
     (case map parse_octet (split_on 46 s) of
        [Some a, Some b, Some c, Some d] \<Rightarrow> Some (quad a b c d) | _ \<Rightarrow> None)"

section \<open>The guard\<close>

text \<open>
  What the guard reads from its surroundings: the environment variable, and the verdict
  on IPv6 addresses, which no caller produces (\<open>is_allowed_dst_v4\<close>); \<open>ip6_text\<close> is \<open>None\<close>
  where the text is not an IPv6 address.
\<close>

record egress_env =
  allow_private_var :: "pystr option"
  ip6_text :: "pystr \<Rightarrow> bool option"
  ip6_bytes :: "bytes \<Rightarrow> bool"

definition allow_private :: "egress_env \<Rightarrow> bool" where
  "allow_private env =
     (lower (strip is_uni_space (case allow_private_var env of None \<Rightarrow> [] | Some v \<Rightarrow> v))
        \<in> set [str_of ''1'', str_of ''true'', str_of ''yes'', str_of ''on''])"

definition ip_ok :: "int \<Rightarrow> bool" where
  "ip_ok ip \<longleftrightarrow> v4_is_global ip \<and> \<not> v4_is_multicast ip \<and> \<not> v4_is_reserved ip"

definition is_allowed_dst :: "egress_env \<Rightarrow> pystr \<Rightarrow> int \<Rightarrow> bool \<times> string" where
  "is_allowed_dst env ip_str port =
     (if allow_private env then (True, ''allow_private_override'')
      else case (case ipv4_of_text ip_str of Some v \<Rightarrow> Some (ip_ok v) | None \<Rightarrow> ip6_text env ip_str) of
          None \<Rightarrow> (False, ''invalid_ip'')
        | Some ok \<Rightarrow> if \<not> ok then (False, ''non_global'') else (True, ''ok''))"

definition packed_ok :: "egress_env \<Rightarrow> bytes \<Rightarrow> bool" where
  "packed_ok env packed =
     (if length packed = 4 then ip_ok (be_int packed)
      else if length packed = 16 then ip6_bytes env packed else False)"

definition filter_resolved_ips :: "egress_env \<Rightarrow> bytes list \<Rightarrow> bytes list" where
  "filter_resolved_ips env ips = (if allow_private env then ips else filter (packed_ok env) ips)"

section \<open>The policy, octet by octet\<close>

lemma be_int_4: "be_int [a, b, c, d] = quad (uint a) (uint b) (uint c) (uint d)"
  by (simp add: be_int_def quad_def)

text \<open>The blocks the guard's documentation names, on the four octets.\<close>

definition blocked_octets :: "int \<Rightarrow> int \<Rightarrow> int \<Rightarrow> int \<Rightarrow> bool" where
  "blocked_octets a b c d \<longleftrightarrow> a = 0 \<or> a = 10 \<or> a = 127 \<or> a = 169 \<and> b = 254 \<or>
     a = 172 \<and> 16 \<le> b \<and> b < 32 \<or> a = 192 \<and> b = 168 \<or> a = 100 \<and> 64 \<le> b \<and> b < 128 \<or>
     a = 192 \<and> b = 0 \<and> c = 0 \<and> d \<noteq> 9 \<and> d \<noteq> 10 \<or> a = 192 \<and> b = 0 \<and> c = 2 \<or>
     a = 198 \<and> (b = 18 \<or> b = 19) \<or> a = 198 \<and> b = 51 \<and> c = 100 \<or>
     a = 203 \<and> b = 0 \<and> c = 113 \<or> 224 \<le> a"

definition octet :: "int \<Rightarrow> bool" where
  "octet x \<longleftrightarrow> 0 \<le> x \<and> x < 256"

lemma quad_div:
  assumes "octet a" "octet b" "octet c" "octet d"
  shows "quad a b c d div 268435456 = a div 16" "quad a b c d div 16777216 = a"
    "quad a b c d div 4194304 = a * 4 + b div 64" "quad a b c d div 1048576 = a * 16 + b div 16"
    "quad a b c d div 131072 = a * 128 + b div 2" "quad a b c d div 65536 = a * 256 + b"
    "quad a b c d div 256 = a * 65536 + b * 256 + c"
    "quad a b c d div 2 = a * 8388608 + b * 32768 + c * 128 + d div 2"
  using assms unfolding octet_def quad_def by linarith+

text \<open>Equal mixed-radix numbers have equal digits.\<close>

lemma digit_eq:
  fixes x y :: int
  assumes "0 \<le> y" "y < m" "0 \<le> y'" "y' < m"
  shows "x * m + y = x' * m + y' \<longleftrightarrow> x = x' \<and> y = y'"
proof
  assume e: "x * m + y = x' * m + y'"
  have "(x * m + y) div m = x" "(x' * m + y') div m = x'" using assms by simp_all
  with e have "x = x'" by simp
  with e show "x = x' \<and> y = y'" by simp
qed simp

lemma div_eq_interval:
  assumes m: "0 < (m::int)"
  shows "x div m = k \<longleftrightarrow> k * m \<le> x \<and> x < (k + 1) * m"
proof
  assume "x div m = k"
  then have "x = k * m + x mod m" using div_mult_mod_eq [of x m] by simp
  then show "k * m \<le> x \<and> x < (k + 1) * m"
    using pos_mod_sign [OF m, of x] pos_mod_bound [OF m, of x] by (simp add: distrib_right)
next
  assume "k * m \<le> x \<and> x < (k + 1) * m"
  then show "x div m = k"
    by (intro int_div_pos_eq [of x m k "x - k * m"]) (simp_all add: algebra_simps)
qed

lemma div_digit: "octet x \<Longrightarrow> 0 \<le> x div 2" "octet x \<Longrightarrow> x div 2 < 128"
    "octet x \<Longrightarrow> 0 \<le> x div 16" "octet x \<Longrightarrow> x div 16 < 16"
    "octet x \<Longrightarrow> 0 \<le> x div 64" "octet x \<Longrightarrow> x div 64 < 4"
  unfolding octet_def by linarith+

lemma octet_bounds: "octet x \<Longrightarrow> 0 \<le> x" "octet x \<Longrightarrow> x < 256"
  by (simp_all add: octet_def)

lemma join3: "a * 65536 + b * 256 + c = (a * 256 + b) * 256 + (c::int)"
  and join4: "quad a b c d = ((a * 256 + b) * 256 + c) * 256 + d"
  and join31: "a * 8388608 + b * 32768 + c * 128 + e = ((a * 256 + b) * 256 + c) * 128 + (e::int)"
  by (simp_all add: quad_def)

text \<open>Membership in a block, octet by octet.\<close>

lemma in_net_octets:
  assumes o: "octet a" "octet b" "octet c" "octet d" and n: "octet a'" "octet b'" "octet c'" "octet d'"
  shows "in_net (quad a b c d) (quad a' b' c' d') 4 \<longleftrightarrow> a div 16 = a' div 16"
    "in_net (quad a b c d) (quad a' b' c' d') 8 \<longleftrightarrow> a = a'"
    "in_net (quad a b c d) (quad a' b' c' d') 10 \<longleftrightarrow> a = a' \<and> b div 64 = b' div 64"
    "in_net (quad a b c d) (quad a' b' c' d') 12 \<longleftrightarrow> a = a' \<and> b div 16 = b' div 16"
    "in_net (quad a b c d) (quad a' b' c' d') 15 \<longleftrightarrow> a = a' \<and> b div 2 = b' div 2"
    "in_net (quad a b c d) (quad a' b' c' d') 16 \<longleftrightarrow> a = a' \<and> b = b'"
    "in_net (quad a b c d) (quad a' b' c' d') 24 \<longleftrightarrow> a = a' \<and> b = b' \<and> c = c'"
    "in_net (quad a b c d) (quad a' b' c' d') 31 \<longleftrightarrow> a = a' \<and> b = b' \<and> c = c' \<and> d div 2 = d' div 2"
    "in_net (quad a b c d) (quad a' b' c' d') 32 \<longleftrightarrow> a = a' \<and> b = b' \<and> c = c' \<and> d = d'"
proof -
  note db = div_digit [OF o(2)] div_digit [OF n(2)] div_digit [OF o(4)] div_digit [OF n(4)]
    octet_bounds [OF o(2)] octet_bounds [OF n(2)] octet_bounds [OF o(3)] octet_bounds [OF n(3)]
    octet_bounds [OF o(4)] octet_bounds [OF n(4)]
  have p: "(2::int) ^ (32 - 4) = 268435456" "(2::int) ^ (32 - 8) = 16777216"
    "(2::int) ^ (32 - 10) = 4194304" "(2::int) ^ (32 - 12) = 1048576" "(2::int) ^ (32 - 15) = 131072"
    "(2::int) ^ (32 - 16) = 65536" "(2::int) ^ (32 - 24) = 256" "(2::int) ^ (32 - 31) = 2"
    "(2::int) ^ (32 - 32) = 1" by simp_all
  note r = in_net_def shift_right p quad_div [OF o] quad_div [OF n]
  show "in_net (quad a b c d) (quad a' b' c' d') 4 \<longleftrightarrow> a div 16 = a' div 16"
    "in_net (quad a b c d) (quad a' b' c' d') 8 \<longleftrightarrow> a = a'"
    by (simp_all only: r)
  show "in_net (quad a b c d) (quad a' b' c' d') 10 \<longleftrightarrow> a = a' \<and> b div 64 = b' div 64"
    "in_net (quad a b c d) (quad a' b' c' d') 12 \<longleftrightarrow> a = a' \<and> b div 16 = b' div 16"
    "in_net (quad a b c d) (quad a' b' c' d') 15 \<longleftrightarrow> a = a' \<and> b div 2 = b' div 2"
    "in_net (quad a b c d) (quad a' b' c' d') 16 \<longleftrightarrow> a = a' \<and> b = b'"
    by (simp_all only: r digit_eq db)
  show "in_net (quad a b c d) (quad a' b' c' d') 24 \<longleftrightarrow> a = a' \<and> b = b' \<and> c = c'"
    "in_net (quad a b c d) (quad a' b' c' d') 31 \<longleftrightarrow> a = a' \<and> b = b' \<and> c = c' \<and> d div 2 = d' div 2"
    by (simp_all only: r join3 join31 digit_eq db conj_assoc)
  show "in_net (quad a b c d) (quad a' b' c' d') 32 \<longleftrightarrow> a = a' \<and> b = b' \<and> c = c' \<and> d = d'"
    by (simp only: in_net_def shift_right p join4 div_by_1 digit_eq db conj_assoc)
qed

lemma v4_is_private_octets:
  assumes "octet a" "octet b" "octet c" "octet d"
  shows "v4_is_private (quad a b c d) \<longleftrightarrow>
    (a = 0 \<or> a = 10 \<or> a = 127 \<or> a = 169 \<and> b = 254 \<or> a = 172 \<and> b div 16 = 1 \<or>
     a = 192 \<and> b = 0 \<and> c = 0 \<or> a = 192 \<and> b = 0 \<and> c = 0 \<and> d div 2 = 85 \<or>
     a = 192 \<and> b = 0 \<and> c = 2 \<or> a = 192 \<and> b = 168 \<or>
     a = 198 \<and> b div 2 = 9 \<or> a = 198 \<and> b = 51 \<and> c = 100 \<or>
     a = 203 \<and> b = 0 \<and> c = 113 \<or> a div 16 = 15 \<or> a = 255 \<and> b = 255 \<and> c = 255 \<and> d = 255) \<and>
    \<not> (a = 192 \<and> b = 0 \<and> c = 0 \<and> d = 9) \<and> \<not> (a = 192 \<and> b = 0 \<and> c = 0 \<and> d = 10)"
  by (simp add: v4_is_private_def private_networks_def private_networks_exceptions_def
      in_net_octets [OF assms] octet_def)

lemma ip_ok_octets:
  assumes "octet a" "octet b" "octet c" "octet d"
  shows "ip_ok (quad a b c d) \<longleftrightarrow> \<not> blocked_octets a b c d"
proof -
  have k: "ip_ok (quad a b c d) \<longleftrightarrow> \<not> (a = 100 \<and> b div 64 = 1) \<and> \<not> v4_is_private (quad a b c d) \<and>
      a div 16 \<noteq> 14 \<and> a div 16 \<noteq> 15"
    by (simp add: ip_ok_def v4_is_global_def v4_is_multicast_def v4_is_reserved_def
        in_net_octets [OF assms] octet_def)
  have i: "a div 16 = 14 \<longleftrightarrow> 224 \<le> a \<and> a < 240" "a div 16 = 15 \<longleftrightarrow> 240 \<le> a \<and> a < 256"
    "b div 64 = 1 \<longleftrightarrow> 64 \<le> b \<and> b < 128" "b div 16 = 1 \<longleftrightarrow> 16 \<le> b \<and> b < 32"
    "b div 2 = 9 \<longleftrightarrow> 18 \<le> b \<and> b < 20"
    by (simp_all add: div_eq_interval)
  have a: "a < 256" using assms by (simp add: octet_def)
  show ?thesis
    unfolding k v4_is_private_octets [OF assms] i blocked_octets_def using a
    by (cases "a = 100"; cases "a = 192"; cases "a = 198"; cases "a = 203"; cases "a = 172";
        cases "a = 169") auto
qed

section \<open>The guard on the addresses its callers pass\<close>

lemma octet_uint [simp]: "octet (uint (x :: byte))"
  by (simp add: octet_def uint_byte_less)

lemma ip_ok_bytes:
  "ip_ok (be_int [a, b, c, d]) \<longleftrightarrow> \<not> blocked_octets (uint a) (uint b) (uint c) (uint d)"
  by (simp add: be_int_4 ip_ok_octets)

lemma decimal_hd: "0 < n \<Longrightarrow> hd (decimal n) \<noteq> 48"
proof (induction n rule: decimal.induct)
  case (1 n)
  then show ?case by (subst decimal.simps) (auto simp: hd_append)
qed

lemma parse_octet_decimal: "parse_octet (decimal (unat (x :: byte))) = Some (uint x)"
proof -
  have x: "unat x < 256" by (rule unat_byte_less)
  have "list_all is_digit (decimal (unat x))" by (auto simp: list_all_iff decimal_digits)
  moreover have "length (decimal (unat x)) \<le> 3" using x by (intro decimal_length) auto
  moreover have "decimal (unat x) = [48] \<or> hd (decimal (unat x)) \<noteq> 48"
    using decimal_hd [of "unat x"] decimal.simps [of 0] by (cases "unat x = 0") simp_all
  moreover have "\<not> 255 < uint x" using uint_byte_less [of x] by simp
  ultimately show ?thesis by (auto simp: parse_octet_def digits_value_decimal Let_def)
qed

lemma ipv4_of_text_bytes: "length b = 4 \<Longrightarrow> ipv4_of_text (bytes_to_ip b) = Some (be_int b)"
proof -
  assume l: "length b = 4"
  then obtain w x y z where b: "b = [w, x, y, z]"
    by (auto simp: numeral_eq_Suc length_Suc_conv)
  have "split_on 46 (bytes_to_ip b) = map (\<lambda>x. decimal (unat x)) b"
    unfolding bytes_to_ip_def using l by (intro split_join) (auto simp: decimal_no_dot)
  then show ?thesis by (simp add: ipv4_of_text_def b parse_octet_decimal be_int_4)
qed

text \<open>On a dotted quad made from four bytes the IPv6 branch is never reached.\<close>

lemma is_allowed_dst_v4:
  "length b = 4 \<Longrightarrow> is_allowed_dst env (bytes_to_ip b) port =
     (if allow_private env then (True, ''allow_private_override'')
      else if ip_ok (be_int b) then (True, ''ok'') else (False, ''non_global''))"
  by (simp add: is_allowed_dst_def ipv4_of_text_bytes)

lemma loopback_text: "ipv4_of_text (str_of ''127.0.0.1'') = Some (quad 127 0 0 1)"
  by code_simp

text \<open>The rewritten host alias is loopback: reachable exactly under the override.\<close>

lemma is_allowed_loopback:
  "is_allowed_dst env (str_of ''127.0.0.1'') port =
     (if allow_private env then (True, ''allow_private_override'') else (False, ''non_global''))"
  using ip_ok_octets [of 127 0 0 1]
  by (simp add: is_allowed_dst_def loopback_text blocked_octets_def octet_def)

text \<open>The override switch: off when unset, on for the value the command line sets.\<close>

lemma allow_private_unset: "allow_private_var env = None \<Longrightarrow> \<not> allow_private env"
  by (simp add: allow_private_def strip_def rstrip_def lower_def str_of_def)

lemma allow_private_set: "allow_private_var env = Some (str_of ''1'') \<Longrightarrow> allow_private env"
proof -
  have "lower (strip is_uni_space (str_of ''1'')) = str_of ''1''"
    by (simp add: lower_def strip_def rstrip_def is_uni_space_def str_of_def)
  then show "allow_private_var env = Some (str_of ''1'') \<Longrightarrow> allow_private env"
    by (simp only: allow_private_def option.case set_simps) simp
qed

section \<open>Properties of the policy\<close>

text \<open>C35: Without the override, the guard lets a connection to a four-byte address through
  exactly when the address is outside every block the policy names (private, loopback,
  link-local with the cloud metadata address, CGNAT, documentation, benchmarking,
  multicast, reserved, unspecified), whatever the port.\<close>

theorem guard_blocks_non_global:
  assumes "\<not> allow_private env"
  shows "is_allowed_dst env (bytes_to_ip [a, b, c, d]) port =
    (if blocked_octets (uint a) (uint b) (uint c) (uint d)
     then (False, ''non_global'') else (True, ''ok''))"
  using assms by (simp add: is_allowed_dst_v4 ip_ok_bytes)

theorem guard_blocks_non_global_witness:
  "let env = \<lparr>allow_private_var = None, ip6_text = (\<lambda>_. None), ip6_bytes = (\<lambda>_. False)\<rparr> in
     is_allowed_dst env (bytes_to_ip [169, 254, 169, 254]) 80 = (False, ''non_global'') \<and>
     is_allowed_dst env (bytes_to_ip [8, 8, 8, 8]) 53 = (True, ''ok'')"
proof -
  have "\<not> allow_private \<lparr>allow_private_var = None, ip6_text = f, ip6_bytes = g\<rparr>" for f g
    by (simp add: allow_private_unset)
  then show ?thesis by (simp add: Let_def guard_blocks_non_global blocked_octets_def)
qed

lemma filter_agrees_with_guard:
  assumes "list_all (\<lambda>ip. length ip = 4) ips"
  shows "filter_resolved_ips env ips =
    filter (\<lambda>ip. fst (is_allowed_dst env (bytes_to_ip ip) port)) ips"
proof (cases "allow_private env")
  case True
  then show ?thesis
    by (simp add: filter_resolved_ips_def is_allowed_dst_def)
next
  case False
  have "packed_ok env ip = fst (is_allowed_dst env (bytes_to_ip ip) port)" if "ip \<in> set ips" for ip
    using that assms False by (simp add: list_all_iff packed_ok_def is_allowed_dst_v4)
  then show ?thesis using False by (simp add: filter_resolved_ips_def cong: filter_cong)
qed

section \<open>The destination of a real socket\<close>

text \<open>Both NATs rewrite the host alias to loopback before they ask the guard.\<close>

definition dial_host :: "bytes \<Rightarrow> pystr" where
  "dial_host dst =
     (let s = bytes_to_ip dst in if s = HOST_ALIAS_IP then str_of ''127.0.0.1'' else s)"

text \<open>A destination that a NAT computed from four bytes and the guard let through.\<close>

definition guarded_target :: "egress_env \<Rightarrow> pystr \<Rightarrow> int \<Rightarrow> bool" where
  "guarded_target env host port \<longleftrightarrow>
     fst (is_allowed_dst env host port) \<and> (\<exists>b. length b = 4 \<and> host = dial_host b)"

lemma guarded_public:
  assumes "guarded_target env host port" "\<not> allow_private env"
  shows "\<exists>a b c d. host = bytes_to_ip [a, b, c, d] \<and> \<not> blocked_octets (uint a) (uint b) (uint c) (uint d)"
proof -
  obtain b where al: "fst (is_allowed_dst env host port)" and b: "length b = 4" "host = dial_host b"
    using assms(1) by (auto simp: guarded_target_def)
  obtain w x y z where q: "b = [w, x, y, z]" using b(1) by (auto simp: numeral_eq_Suc length_Suc_conv)
  have "bytes_to_ip b \<noteq> HOST_ALIAS_IP"
    using al assms(2) b(2) is_allowed_loopback [of env port] by (auto simp: dial_host_def Let_def)
  then have h: "host = bytes_to_ip b" using b(2) by (simp add: dial_host_def Let_def)
  then have "ip_ok (be_int b)"
    using al assms(2) by (simp add: is_allowed_dst_v4 [OF b(1)] split: if_splits)
  then show ?thesis using h by (auto simp: q ip_ok_bytes)
qed

text \<open>Values for evaluation: no override, and a public destination.\<close>

definition public_env :: egress_env where
  "public_env = \<lparr>allow_private_var = None, ip6_text = (\<lambda>_. None), ip6_bytes = (\<lambda>_. False)\<rparr>"

lemma public_env_blocks: "\<not> allow_private public_env"
  by (simp add: public_env_def allow_private_unset)

lemma dial_host_sample: "dial_host [93, 184, 216, 34] = bytes_to_ip [93, 184, 216, 34]"
  by (simp add: dial_host_def Let_def bytes_to_ip_eq_HOST_ALIAS)

lemma sample_allowed: "is_allowed_dst public_env (bytes_to_ip [93, 184, 216, 34]) port = (True, ''ok'')"
  by (simp add: is_allowed_dst_v4 public_env_blocks ip_ok_bytes blocked_octets_def)

end
