(* ===== verification/Gateway_Frames.thy ===== *)
theory Gateway_Frames
  imports Transport
begin

text \<open>
  What a receiver with a strict stack takes from the gateway: a frame from the gateway's MAC
  that holds an ARP message, or an IPv4 packet whose header checksum verifies and whose TCP,
  UDP or ICMP part parses and verifies its own checksum. The components that inject frames
  show that theirs are such frames.
\<close>

definition l4_ok :: "ipv4 \<Rightarrow> bool" where
  "l4_ok p \<longleftrightarrow>
     (if ip_protocol p = IPPROTO_ICMP
      then \<not> isl (icmp_parse (ip_payload p)) \<and> internet_checksum (ip_payload p) = 0
      else if ip_protocol p = IPPROTO_TCP
      then \<not> isl (tcp_parse (ip_payload p)) \<and>
           tcp_udp_checksum (ip_src p) (ip_dst p) IPPROTO_TCP (ip_payload p) = Inr 0
      else ip_protocol p = IPPROTO_UDP \<and> \<not> isl (udp_parse (ip_payload p)) \<and>
           tcp_udp_checksum (ip_src p) (ip_dst p) IPPROTO_UDP (ip_payload p) = Inr 0)"

definition frame_ok :: "bytes \<Rightarrow> bool" where
  "frame_ok f \<longleftrightarrow>
     (case ethernet_parse f of Inl _ \<Rightarrow> False
      | Inr e \<Rightarrow> eth_src e = GATEWAY_MAC \<and>
          (if eth_type e = ETHERTYPE_ARP then \<not> isl (arp_parse (eth_payload e))
           else eth_type e = ETHERTYPE_IPV4 \<and> internet_checksum (take 20 (eth_payload e)) = 0 \<and>
                (case ipv4_parse (eth_payload e) of Inl _ \<Rightarrow> False | Inr p \<Rightarrow> l4_ok p)))"

text \<open>The views of the frames that the components build imply it.\<close>

lemma frame_ok_arp: "arp_frame_view f = Inr (mac, GATEWAY_MAC, ETHERTYPE_ARP, a) \<Longrightarrow> frame_ok f"
  by (auto simp: arp_frame_view_def frame_ok_def bindr_eq_Inr)

lemma frame_ok_ipv4: "ipv4_frame_view f = Inr (mac, GATEWAY_MAC, p) \<Longrightarrow> l4_ok p \<Longrightarrow> frame_ok f"
  by (auto simp: ipv4_frame_view_def frame_ok_def bindr_eq_Inr ethertype_defs split: if_splits)

lemma frame_ok_udp: "udp_frame_view f = Inr (mac, GATEWAY_MAC, s, d, u) \<Longrightarrow> frame_ok f"
  by (auto simp: udp_frame_view_def bindr_eq_Inr IPPROTO_UDP_def IPPROTO_TCP_def IPPROTO_ICMP_def
      l4_ok_def split: if_splits prod.splits intro!: frame_ok_ipv4)

text \<open>A segment or datagram that is built at all is well formed: what does not fit raises.\<close>

lemma tcp_to_bytes_wf:
  assumes "tcp_to_bytes t s d = Inr l4"
  shows "wf_tcp t"
proof -
  let ?opts = "pad4 (tcp_options t)"
  define offs where "offs = (20 + int (length ?opts)) div 4"
  obtain header where h: "pack [U 2 (src_port t), U 2 (dst_port t), U 4 (seq_no t AND 4294967295),
      U 4 (ack_no t AND 4294967295), U 2 (push_bit 12 offs OR (tcp_flags t AND 511)),
      U 2 (window t), U 2 0, U 2 (urg_ptr t)] = Inr header"
    and ck: "tcp_udp_checksum s d IPPROTO_TCP (header @ ?opts @ tcp_payload t) \<noteq> Inl e" for e
    using assms by (auto simp: tcp_to_bytes_def Let_def bindr_eq_Inr simp flip: offs_def)
  have "push_bit 12 offs OR (tcp_flags t AND 511) = offs * 4096 + tcp_flags t mod 512"
    by (simp add: bit_arith order.strict_trans2 [OF pos_mod_bound [of 512]])
  then have f: "0 \<le> src_port t" "src_port t < 65536" "0 \<le> dst_port t" "dst_port t < 65536"
    "0 \<le> window t" "window t < 65536" "0 \<le> urg_ptr t" "urg_ptr t < 65536"
    "offs * 4096 + tcp_flags t mod 512 < 65536" and l: "length header = 20"
    using h by (auto simp: pack_eq_Inr)
  have "offs < 16" using f(9) pos_mod_sign [of 512 "tcp_flags t"] by linarith
  then have "length ?opts \<le> 43" unfolding offs_def by linarith
  then have "length ?opts \<le> 40" using pad4_length(1) [of "tcp_options t"] by presburger
  moreover have "length (header @ ?opts @ tcp_payload t) < 65536"
  proof (rule ccontr)
    assume "\<not> length (header @ ?opts @ tcp_payload t) < 65536"
    then have "pack [U 2 (int (length (header @ ?opts @ tcp_payload t)))] = Inl StructError"
      by (intro pack_unfit) simp
    then show False
      using ck [of StructError] by (simp add: tcp_udp_checksum_def tcp_udp_pseudo_header_def IPPROTO_TCP_def py_bytes_Inr)
  qed
  ultimately show ?thesis
    using f(1-8) l pad4_length(2) [of "tcp_options t"] by (simp add: wf_tcp_def)
qed

lemma udp_to_bytes_wf: "udp_to_bytes u s d = Inr l4 \<Longrightarrow> wf_udp u"
  by (auto simp: udp_to_bytes_def Let_def bindr_eq_Inr pack_eq_Inr wf_udp_def)

lemma make_frame_ipv4_length:
  "make_frame_ipv4 dm sm s d pr l4 = Inr f \<Longrightarrow> length l4 \<le> 65515"
  by (auto simp: make_frame_ipv4_def ipv4_to_bytes_def Let_def bindr_eq_Inr pack_eq_Inr)

lemma udp_frame_ok:
  assumes "udp_frame mac s d u = Inr f" "length mac = 6" "length s = 4" "length d = 4"
  shows "frame_ok f"
proof -
  obtain l4 where l4: "udp_to_bytes u s d = Inr l4" "make_frame_ipv4 mac GATEWAY_MAC s d IPPROTO_UDP l4 = Inr f"
    using assms(1) by (auto simp: udp_frame_def bindr_eq_Inr)
  have wf: "wf_udp u" using udp_to_bytes_wf [OF l4(1)] .
  then have "length l4 = 8 + length (udp_payload u)" using l4(1) by (auto simp: udp_encode)
  then have "length (udp_payload u) \<le> 65507" using make_frame_ipv4_length [OF l4(2)] by simp
  then show ?thesis
    using udp_frame_view [OF assms(2-4) wf] assms(1) by (auto intro: frame_ok_udp)
qed

end
