(* ===== verification/Machine.thy ===== *)
theory Machine
  imports Main
begin

text \<open>
  Event-driven components. A component is a state, the events that may reach it between
  two suspension points, and a step relation; \<open>machine\<close> is the contract under which a
  component's invariant holds after every run and \<open>progress_machine\<close> adds a measure of
  progress that no step decreases; \<open>logging_machine\<close> adds a log that steps only extend, by
  entries that are in order. The component theories interpret them.
\<close>

definition some_step :: "('s \<Rightarrow> 'e \<Rightarrow> 's \<Rightarrow> bool) \<Rightarrow> 's \<Rightarrow> 's \<Rightarrow> bool" where
  "some_step step s t \<longleftrightarrow> (\<exists>e. step s e t)"

definition runs :: "('s \<Rightarrow> 'e \<Rightarrow> 's \<Rightarrow> bool) \<Rightarrow> 's \<Rightarrow> 's \<Rightarrow> bool" where
  "runs step = (some_step step)\<^sup>*\<^sup>*"

lemma runs_refl: "runs step s s"
  by (simp add: runs_def)

lemma runs_step: "runs step s t \<Longrightarrow> step t e u \<Longrightarrow> runs step s u"
  unfolding runs_def some_step_def by (rule rtranclp.rtrancl_into_rtrancl) auto

lemma runs_trans: "runs step s t \<Longrightarrow> runs step t u \<Longrightarrow> runs step s u"
  unfolding runs_def by (rule rtranclp_trans)

lemma runs_one: "step s e t \<Longrightarrow> runs step s t"
  using runs_refl runs_step by metis

lemma runs_induct:
  assumes "runs step s t" "P s" "\<And>t e u. runs step s t \<Longrightarrow> P t \<Longrightarrow> step t e u \<Longrightarrow> P u"
  shows "P t"
  using assms(1) unfolding runs_def
proof (induction rule: rtranclp_induct)
  case (step t u)
  then show ?case using assms(3) by (auto simp: some_step_def runs_def)
qed (rule assms(2))

locale machine =
  fixes start :: "'s \<Rightarrow> bool"
    and step :: "'s \<Rightarrow> 'e \<Rightarrow> 's \<Rightarrow> bool"
    and inv :: "'s \<Rightarrow> bool"
  assumes inv_start: "start s \<Longrightarrow> inv s"
    and inv_step: "inv s \<Longrightarrow> step s e t \<Longrightarrow> inv t"
begin

lemma inv_runs: "inv s \<Longrightarrow> runs step s t \<Longrightarrow> inv t"
  by (erule runs_induct) (auto intro: inv_step)

lemma inv_reachable: "start s \<Longrightarrow> runs step s t \<Longrightarrow> inv t"
  by (rule inv_runs) (rule inv_start)

text \<open>A further property that steps keep under the invariant.\<close>

lemma also_runs:
  assumes "inv s" "runs step s t" "P s"
    and "\<And>t e u. inv t \<Longrightarrow> P t \<Longrightarrow> step t e u \<Longrightarrow> P u"
  shows "P t"
  using assms(2)
proof (rule runs_induct)
  show "P s" by (rule assms(3))
  fix t e u
  assume "runs step s t" "P t" "step t e u"
  then show "P u" using inv_runs [OF assms(1)] assms(4) by blast
qed

end

locale progress_machine = machine start step inv
  for start :: "'s \<Rightarrow> bool" and step :: "'s \<Rightarrow> 'e \<Rightarrow> 's \<Rightarrow> bool" and inv +
  fixes rank :: "'s \<Rightarrow> 'i \<Rightarrow> 'r::order"
  assumes rank_step: "inv s \<Longrightarrow> step s e t \<Longrightarrow> rank s i \<le> rank t i"
begin

lemma rank_runs: "inv s \<Longrightarrow> runs step s t \<Longrightarrow> rank s i \<le> rank t i"
  by (rule also_runs [where P = "\<lambda>u. rank s i \<le> rank u i"]) (auto intro: order_trans rank_step)

end

text \<open>
  A system that contains a component: under the system's invariant each step does to the
  component what some run of the component alone does, so what holds of all runs of the
  component holds of it inside the system.
\<close>

locale simulation = machine start step inv
  for start :: "'s \<Rightarrow> bool" and step :: "'s \<Rightarrow> 'e \<Rightarrow> 's \<Rightarrow> bool" and inv +
  fixes part :: "'s \<Rightarrow> 'c" and part_step :: "'c \<Rightarrow> 'd \<Rightarrow> 'c \<Rightarrow> bool"
  assumes part_sim: "inv s \<Longrightarrow> step s e t \<Longrightarrow> runs part_step (part s) (part t)"
begin

lemma part_runs: "inv s \<Longrightarrow> runs step s t \<Longrightarrow> runs part_step (part s) (part t)"
proof (rule also_runs [where P = "\<lambda>u. runs part_step (part s) (part u)"])
  fix u e v
  assume "inv u" "runs part_step (part s) (part u)" "step u e v"
  then show "runs part_step (part s) (part v)" using part_sim runs_trans by metis
qed (auto simp: runs_refl)

lemma part_reachable:
  assumes "start s" "runs step s t" "runs part_step p (part s)"
  shows "runs part_step p (part t)"
  using assms(3) part_runs [OF inv_start [OF assms(1)] assms(2)] by (rule runs_trans)

end

text \<open>Logs: \<open>ys\<close> is \<open>xs\<close> and further entries that satisfy \<open>P\<close>.\<close>

definition extends :: "('a \<Rightarrow> bool) \<Rightarrow> 'a list \<Rightarrow> 'a list \<Rightarrow> bool" where
  "extends P xs ys \<longleftrightarrow> (\<exists>zs. ys = xs @ zs \<and> list_all P zs)"

lemma extends_simps [simp]:
  "extends P xs xs" "extends P xs (xs @ zs) \<longleftrightarrow> list_all P zs"
  by (simp_all add: extends_def)

lemma extends_trans: "extends P xs ys \<Longrightarrow> extends P ys zs \<Longrightarrow> extends P xs zs"
  by (force simp: extends_def)

lemma extends_mono: "extends P xs ys \<Longrightarrow> (\<And>x. P x \<Longrightarrow> Q x) \<Longrightarrow> extends Q xs ys"
  by (auto simp: extends_def list_all_iff)

lemma extends_drop: "extends P xs ys \<longleftrightarrow> list_all P (drop (length xs) ys) \<and> take (length xs) ys = xs"
  unfolding extends_def by (metis append_take_drop_id append_eq_conv_conj)

locale logging_machine = machine start step inv
  for start :: "'s \<Rightarrow> bool" and step :: "'s \<Rightarrow> 'e \<Rightarrow> 's \<Rightarrow> bool" and inv +
  fixes log :: "'s \<Rightarrow> 'a list" and entries_ok :: "'a list \<Rightarrow> bool"
  assumes ok_nil: "entries_ok []"
    and ok_append: "entries_ok xs \<Longrightarrow> entries_ok ys \<Longrightarrow> entries_ok (xs @ ys)"
    and log_step: "inv s \<Longrightarrow> step s e t \<Longrightarrow> \<exists>xs. log t = log s @ xs \<and> entries_ok xs"
begin

lemma log_runs:
  assumes "inv s" "runs step s t"
  shows "\<exists>xs. log t = log s @ xs \<and> entries_ok xs"
  using assms
proof (rule also_runs)
  show "\<exists>xs. log s = log s @ xs \<and> entries_ok xs" by (simp add: ok_nil)
  fix t e u
  assume "inv t" "\<exists>xs. log t = log s @ xs \<and> entries_ok xs" "step t e u"
  then obtain xs ys where "log t = log s @ xs" "entries_ok xs" "log u = log t @ ys" "entries_ok ys"
    using log_step by blast
  then show "\<exists>xs. log u = log s @ xs \<and> entries_ok xs" by (simp add: ok_append)
qed

lemma log_reachable: "start s \<Longrightarrow> log s = [] \<Longrightarrow> runs step s t \<Longrightarrow> entries_ok (log t)"
  using log_runs [OF inv_start, of s t] by auto

end

end
