(* ===== verification/Tcp_Conn.thy ===== *)
theory Tcp_Conn
  imports Gateway_Frames Machine "HOL-Library.Option_ord" "HOL-Library.Sublist"
begin

text \<open>
  The connection object of \<^verbatim>\<open>velxiogw/net/tcp_nat.py\<close>: sequence arithmetic modulo \<open>2 ^ 32\<close>,
  the connection states, the \<^verbatim>\<open>TcpConnection\<close> record and the frames sent for it. The
  sequence arithmetic is shown to be 32-bit word arithmetic, and every frame to decode to
  the segment it was built from.
\<close>

section \<open>Sequence numbers\<close>

definition seq_add :: "int \<Rightarrow> int \<Rightarrow> int" where
  "seq_add a b = (a + b) AND 4294967295"

definition seq_lt :: "int \<Rightarrow> int \<Rightarrow> bool" where
  "seq_lt a b \<longleftrightarrow> 2147483648 \<le> (a - b) AND 4294967295"

definition seq_leq :: "int \<Rightarrow> int \<Rightarrow> bool" where
  "seq_leq a b \<longleftrightarrow> a = b \<or> seq_lt a b"

definition seq_diff :: "int \<Rightarrow> int \<Rightarrow> int" where
  "seq_diff a b =
     (let d = (a - b) AND 4294967295
      in if d AND 2147483648 \<noteq> 0 then d - 4294967296 else d)"

definition seq_geq_or_eq :: "int \<Rightarrow> int \<Rightarrow> bool" where
  "seq_geq_or_eq a b \<longleftrightarrow> a = b \<or> \<not> seq_lt a b"

lemma seq_add_mod: "seq_add a b = (a + b) mod 4294967296"
  by (simp add: seq_add_def bit_arith)

lemma seq_add_range [simp]: "0 \<le> seq_add a b" "seq_add a b < 4294967296"
  by (simp_all add: seq_add_mod)

lemma seq_add_assoc: "seq_add (seq_add a b) c = seq_add a (b + c)"
  by (simp add: seq_add_mod mod_add_left_eq add.assoc)

lemma seq_add_0: "0 \<le> a \<Longrightarrow> a < 4294967296 \<Longrightarrow> seq_add a 0 = a"
  by (simp add: seq_add_mod)

lemma seq_add_idem: "seq_add a b mod 4294967296 = seq_add a b"
  by (simp add: seq_add_mod)

lemma bit_31: "0 \<le> d \<Longrightarrow> d < 4294967296 \<Longrightarrow> (d::int) AND 2147483648 \<noteq> 0 \<longleftrightarrow> 2147483648 \<le> d"
proof -
  assume d: "0 \<le> d" "d < 4294967296"
  have "(d AND 2147483648 \<noteq> 0) \<longleftrightarrow> bit d 31"
    using and_exp_eq_0_iff_not_bit [of d 31] by simp
  also have "bit d 31 \<longleftrightarrow> odd (d div 2147483648)" by (simp add: bit_iff_odd)
  also have "\<dots> \<longleftrightarrow> 2147483648 \<le> d"
  proof (cases "2147483648 \<le> d")
    case True
    then have "d div 2147483648 = 1" using d by linarith
    with True show ?thesis by simp
  next
    case False
    then have "d div 2147483648 = 0" using d by linarith
    with False show ?thesis by simp
  qed
  finally show ?thesis .
qed

lemma sint_word_mod:
  "sint (word_of_int x :: 32 word) =
     (if 2147483648 \<le> x mod 4294967296 then x mod 4294967296 - 4294967296 else x mod 4294967296)"
proof -
  define r where "r = x mod 4294967296"
  have r: "0 \<le> r" "r < 4294967296" by (simp_all add: r_def)
  have "sint (word_of_int x :: 32 word) = (x + 2147483648) mod 4294967296 - 2147483648"
    by (simp add: sint_sbintrunc' signed_take_bit_eq_take_bit_shift take_bit_eq_mod)
  also have "(x + 2147483648) mod 4294967296 = (r + 2147483648) mod 4294967296"
    by (simp add: r_def mod_add_left_eq)
  also have "\<dots> = (if 2147483648 \<le> r then r - 2147483648 else r + 2147483648)"
    using r int_mod_pos_eq [of "r + 2147483648" 4294967296 1 "r - 2147483648"]
    by (auto simp: mod_pos_pos_trivial)
  finally show ?thesis using r by (auto simp flip: r_def)
qed

lemma word_diff_mod: "sint (word_of_int a - word_of_int b :: 32 word) =
    (if 2147483648 \<le> (a - b) mod 4294967296 then (a - b) mod 4294967296 - 4294967296
     else (a - b) mod 4294967296)"
  using sint_word_mod [of "a - b"] by simp

text \<open>C23: The gateway's modular sequence arithmetic on Python integers is 32-bit machine
  arithmetic: \<open>_seq_add\<close> is word addition reduced to the unsigned range, \<open>_seq_diff\<close> is the
  signed value of the word difference, \<open>_seq_lt\<close> its sign test and \<open>_seq_geq_or_eq\<close> the
  complement of that test.\<close>

theorem seq_arith_is_word_arith:
  "seq_add a b = uint (word_of_int a + word_of_int b :: 32 word) \<and>
   seq_diff a b = sint (word_of_int a - word_of_int b :: 32 word) \<and>
   (seq_lt a b \<longleftrightarrow> sint (word_of_int a - word_of_int b :: 32 word) < 0) \<and>
   (seq_geq_or_eq a b \<longleftrightarrow> 0 \<le> sint (word_of_int a - word_of_int b :: 32 word))"
proof -
  have d: "0 \<le> (a - b) mod 4294967296" "(a - b) mod 4294967296 < 4294967296" by simp_all
  have lt: "seq_lt a b \<longleftrightarrow> sint (word_of_int a - word_of_int b :: 32 word) < 0"
    using d unfolding seq_lt_def word_diff_mod by (simp add: bit_arith not_less)
  have "seq_diff a b = sint (word_of_int a - word_of_int b :: 32 word)"
    using d unfolding seq_diff_def word_diff_mod
    by (simp add: and_masks Let_def bit_31)
  moreover have "seq_add a b = uint (word_of_int a + word_of_int b :: 32 word)"
    by (simp add: seq_add_mod uint_word_of_int flip: of_int_add)
  moreover have "seq_geq_or_eq a b \<longleftrightarrow> 0 \<le> sint (word_of_int a - word_of_int b :: 32 word)"
    using lt by (auto simp: seq_geq_or_eq_def)
  ultimately show ?thesis using lt by blast
qed

section \<open>Pieces of a stream\<close>

text \<open>
  The chip's side of a connection is a byte stream; an honest segment carries a piece of it
  at the sequence number of its first byte. Segments may be lost, repeated and reordered.
\<close>

definition piece_of :: "bytes \<Rightarrow> int \<Rightarrow> tcp \<Rightarrow> bool" where
  "piece_of stream isn t \<longleftrightarrow> (\<exists>k. k + length (tcp_payload t) \<le> length stream \<and>
     seq_no t = seq_add isn (1 + int k) \<and> tcp_payload t = slice k (k + length (tcp_payload t)) stream)"

lemma seq_add_inj:
  "seq_add isn (1 + int j) = seq_add isn (1 + int k) \<Longrightarrow> j < 4294967295 \<Longrightarrow> k < 4294967295 \<Longrightarrow> j = k"
proof -
  assume s: "seq_add isn (1 + int j) = seq_add isn (1 + int k)" and b: "j < 4294967295" "k < 4294967295"
  have "(4294967296::int) dvd int j - int k"
    using s unfolding seq_add_mod mod_eq_dvd_iff by (simp add: algebra_simps)
  then obtain q where "int j - int k = 4294967296 * q" by (elim dvdE)
  then have "q = 0" using b by linarith
  then show "j = k" using \<open>int j - int k = 4294967296 * q\<close> by simp
qed

lemma piece_extends:
  assumes pre: "prefix acc stream" and piece: "piece_of stream isn t"
    and sq: "seq_no t = seq_add isn (1 + int (length acc))" and len: "length stream < 4294967295"
  shows "prefix (acc @ tcp_payload t) stream"
proof -
  let ?p = "tcp_payload t"
  obtain j where j: "j + length ?p \<le> length stream" "seq_no t = seq_add isn (1 + int j)"
    "?p = slice j (j + length ?p) stream"
    using piece by (auto simp: piece_of_def)
  have "length acc \<le> length stream" using pre by (rule prefix_length_le)
  then have "j = length acc" using seq_add_inj [of isn j "length acc"] j(1,2) sq len by simp
  moreover have "acc = take (length acc) stream" using pre by (auto simp: prefix_def)
  ultimately have "acc @ ?p = take (length acc + length ?p) stream"
    using j(3) by (metis add_diff_cancel_left' slice_def take_add)
  then show ?thesis by (metis take_is_prefix)
qed

section \<open>Connection states\<close>

datatype tcp_state =
  SYN_RCVD | ESTABLISHED | FIN_WAIT_1 | FIN_WAIT_2 | CLOSE_WAIT | LAST_ACK | CLOSED

text \<open>The order in which a connection may pass through its states.\<close>

fun state_rank :: "tcp_state \<Rightarrow> nat" where
  "state_rank SYN_RCVD = 0"
| "state_rank ESTABLISHED = 1"
| "state_rank FIN_WAIT_1 = 2"
| "state_rank FIN_WAIT_2 = 3"
| "state_rank CLOSE_WAIT = 4"
| "state_rank LAST_ACK = 5"
| "state_rank CLOSED = 6"

lemma state_rank_inj: "state_rank x = state_rank y \<Longrightarrow> x = y"
  by (cases x; cases y) simp_all

instantiation tcp_state :: linorder
begin

definition less_eq_tcp_state :: "tcp_state \<Rightarrow> tcp_state \<Rightarrow> bool" where
  "less_eq_tcp_state x y \<longleftrightarrow> state_rank x \<le> state_rank y"

definition less_tcp_state :: "tcp_state \<Rightarrow> tcp_state \<Rightarrow> bool" where
  "less_tcp_state x y \<longleftrightarrow> state_rank x < state_rank y"

instance
  by standard (auto simp: less_eq_tcp_state_def less_tcp_state_def intro: state_rank_inj)

end

lemma state_order [simp]:
  "SYN_RCVD \<le> x" "x \<le> CLOSED" "ESTABLISHED \<le> FIN_WAIT_1" "ESTABLISHED \<le> CLOSE_WAIT"
  "FIN_WAIT_1 \<le> FIN_WAIT_2" "CLOSE_WAIT \<le> LAST_ACK" "ESTABLISHED \<le> LAST_ACK"
  by (cases x; simp add: less_eq_tcp_state_def)+

section \<open>The connection object\<close>

text \<open>
  The socket a dial opens is named by the number of its connection object. The two tasks a
  connection owns are represented by where they are suspended: the pump waits for the
  handshake, reads from the host, or is over; the deferred connect has been scheduled, has
  started and awaits the dial, or has been cancelled while it did.
\<close>

datatype pump = Pump_wait | Pump_read | Pump_done

datatype deferred = Def_scheduled | Def_dialing | Def_cancelling | Def_done

record conn =
  chip_ip :: bytes
  chip_port :: int
  dst_ip :: bytes
  conn_dst_port :: int
  chip_mac :: bytes
  state :: tcp_state
  chip_isn :: int
  our_isn :: int
  our_seq :: int
  chip_seq :: int
  chip_window :: int
  mss :: int
  host_reader :: "nat option"
  host_writer :: "nat option"
  host_pump_task :: "pump option"
  last_activity :: real
  pending_connect :: "deferred option"
  pending_payload :: bytes
  pending_eof :: bool

definition conn_key :: "conn \<Rightarrow> flow_key" where
  "conn_key c = (chip_ip c, chip_port c, dst_ip c, conn_dst_port c)"

section \<open>Frame emission\<close>

text \<open>The \<^verbatim>\<open>TCP(...)\<close> of \<^verbatim>\<open>_send\<close>: the fields that are not given take the dataclass defaults.\<close>

definition tcp_default :: tcp where
  "tcp_default = \<lparr>src_port = 0, dst_port = 0, seq_no = 0, ack_no = 0, data_offset = 5,
     tcp_flags = 0, window = 0, tcp_checksum = 0, urg_ptr = 0, tcp_options = [], tcp_payload = []\<rparr>"

definition conn_segment :: "conn \<Rightarrow> int \<Rightarrow> int \<Rightarrow> int \<Rightarrow> bytes \<Rightarrow> bytes \<Rightarrow> tcp" where
  "conn_segment c flags seq ack opts payload = tcp_default
     \<lparr>src_port := conn_dst_port c, dst_port := chip_port c, seq_no := seq AND 4294967295,
      ack_no := ack AND 4294967295, tcp_flags := flags, window := TCP_WINDOW,
      tcp_options := opts, tcp_payload := payload\<rparr>"

definition segment_frame :: "bytes \<Rightarrow> bytes \<Rightarrow> bytes \<Rightarrow> tcp \<Rightarrow> bytes res" where
  "segment_frame mac src dst t =
     bindr (tcp_to_bytes t src dst) (\<lambda>l4.
       make_frame_ipv4 mac GATEWAY_MAC src dst IPPROTO_TCP l4)"

definition conn_frame :: "conn \<Rightarrow> int \<Rightarrow> int \<Rightarrow> int \<Rightarrow> bytes \<Rightarrow> bytes \<Rightarrow> bytes res" where
  "conn_frame c flags seq ack opts payload =
     segment_frame (chip_mac c) (dst_ip c) (chip_ip c) (conn_segment c flags seq ack opts payload)"

text \<open>The segment of \<^verbatim>\<open>_send_rst\<close>, which answers a segment that has no connection.\<close>

definition stray_rst :: "tcp \<Rightarrow> tcp" where
  "stray_rst t = tcp_default
     \<lparr>src_port := dst_port t, dst_port := src_port t,
      seq_no := (if has_flag (tcp_flags t) TCP_ACK then ack_no t else 0),
      ack_no := seq_add (seq_no t)
        (if has_flag (tcp_flags t) TCP_SYN then 1 else int (length (tcp_payload t))),
      tcp_flags := TCP_RST OR TCP_ACK, window := 0\<rparr>"

definition stray_rst_frame :: "bytes \<Rightarrow> ipv4 \<Rightarrow> tcp \<Rightarrow> bytes res" where
  "stray_rst_frame mac ip t = segment_frame mac (ip_dst ip) (ip_src ip) (stray_rst t)"

text \<open>The segment of \<^verbatim>\<open>_close\<close>.\<close>

definition close_rst :: "conn \<Rightarrow> tcp" where
  "close_rst c = tcp_default
     \<lparr>src_port := conn_dst_port c, dst_port := chip_port c, seq_no := our_seq c,
      ack_no := chip_seq c, tcp_flags := TCP_RST\<rparr>"

definition close_rst_frame :: "conn \<Rightarrow> bytes res" where
  "close_rst_frame c = segment_frame (chip_mac c) (dst_ip c) (chip_ip c) (close_rst c)"

text \<open>What the chip reads from a frame: addresses and segment, after both checksums passed.\<close>

definition tcp_frame_view :: "bytes \<Rightarrow> (bytes \<times> bytes \<times> bytes \<times> bytes \<times> tcp) res" where
  "tcp_frame_view f =
     bindr (ipv4_frame_view f) (\<lambda>(dmac, smac, p).
       if ip_protocol p \<noteq> IPPROTO_TCP then Inl ValueError
       else bindr (tcp_udp_checksum (ip_src p) (ip_dst p) IPPROTO_TCP (ip_payload p)) (\<lambda>ck.
         if ck \<noteq> 0 then Inl ValueError
         else bindr (tcp_parse (ip_payload p)) (\<lambda>t. Inr (dmac, smac, ip_src p, ip_dst p, t))))"

lemma segment_frame_view:
  assumes "length mac = 6" "length s = 4" "length d = 4" "wf_tcp t"
    and "length (pad4 (tcp_options t)) + length (tcp_payload t) \<le> 65495"
  shows "\<exists>f. segment_frame mac s d t = Inr f \<and>
    tcp_frame_view f = Inr (mac, GATEWAY_MAC, s, d, tcp_norm s d t)"
proof -
  obtain l4 where l4: "tcp_to_bytes t s d = Inr l4"
    using tcp.enc_ok [OF assms(4), of "(s, d)"] by (auto simp: tcp_enc_def)
  have "length l4 = 20 + length (pad4 (tcp_options t)) + length (tcp_payload t)"
    using l4 assms(4) by (auto simp: tcp_encode)
  then obtain f where "make_frame_ipv4 mac GATEWAY_MAC s d IPPROTO_TCP l4 = Inr f"
    "ipv4_frame_view f = Inr (mac, GATEWAY_MAC, frame_packet s d IPPROTO_TCP l4)"
    using make_frame_ipv4_view [of mac GATEWAY_MAC s d IPPROTO_TCP l4] assms
    by (auto simp: IPPROTO_TCP_def)
  then show ?thesis
    using l4 assms by (simp add: segment_frame_def tcp_frame_view_def tcp_dec_enc tcp_verifies)
qed

lemma frame_ok_tcp: "tcp_frame_view f = Inr (mac, GATEWAY_MAC, s, d, t) \<Longrightarrow> frame_ok f"
  by (auto simp: tcp_frame_view_def bindr_eq_Inr IPPROTO_TCP_def IPPROTO_ICMP_def l4_ok_def
      split: if_splits prod.splits intro!: frame_ok_ipv4)

lemma segment_frame_ok:
  assumes "segment_frame mac s d t = Inr f" "length mac = 6" "length s = 4" "length d = 4"
  shows "frame_ok f"
proof -
  obtain l4 where l4: "tcp_to_bytes t s d = Inr l4" "make_frame_ipv4 mac GATEWAY_MAC s d IPPROTO_TCP l4 = Inr f"
    using assms(1) by (auto simp: segment_frame_def bindr_eq_Inr)
  have wf: "wf_tcp t" using tcp_to_bytes_wf [OF l4(1)] .
  then have "length l4 = 20 + length (pad4 (tcp_options t)) + length (tcp_payload t)"
    using l4(1) by (auto simp: tcp_encode)
  then have "length (pad4 (tcp_options t)) + length (tcp_payload t) \<le> 65495"
    using make_frame_ipv4_length [OF l4(2)] by simp
  then show ?thesis using segment_frame_view [OF assms(2-4) wf] assms(1) by (auto intro: frame_ok_tcp)
qed

text \<open>The ranges every connection object keeps; frames built from it then never raise.\<close>

definition wf_conn :: "conn \<Rightarrow> bool" where
  "wf_conn c \<longleftrightarrow> length (chip_ip c) = 4 \<and> length (dst_ip c) = 4 \<and> length (chip_mac c) = 6 \<and>
     0 \<le> chip_port c \<and> chip_port c < 65536 \<and> 0 \<le> conn_dst_port c \<and> conn_dst_port c < 65536 \<and>
     0 \<le> our_isn c \<and> our_isn c < 4294967296 \<and> 0 \<le> chip_isn c \<and> chip_isn c < 4294967296 \<and>
     0 \<le> our_seq c \<and> our_seq c < 4294967296 \<and> 0 \<le> chip_seq c \<and> chip_seq c < 4294967296 \<and>
     0 \<le> mss c \<and> mss c \<le> 1460"

text \<open>The segments as the chip parses them.\<close>

definition sent :: "conn \<Rightarrow> int \<Rightarrow> int \<Rightarrow> int \<Rightarrow> bytes \<Rightarrow> bytes \<Rightarrow> tcp" where
  "sent c flags seq ack opts payload =
     tcp_norm (dst_ip c) (chip_ip c) (conn_segment c flags seq ack opts payload)"

lemma sent_simps [simp]:
  "src_port (sent c fl sq ak opts payload) = conn_dst_port c"
  "dst_port (sent c fl sq ak opts payload) = chip_port c"
  "seq_no (sent c fl sq ak opts payload) = sq mod 4294967296"
  "ack_no (sent c fl sq ak opts payload) = ak mod 4294967296"
  "tcp_flags (sent c fl sq ak opts payload) = fl mod 512"
  "window (sent c fl sq ak opts payload) = 65535"
  "tcp_options (sent c fl sq ak opts payload) = pad4 opts"
  "tcp_payload (sent c fl sq ak opts payload) = payload"
  by (simp_all add: sent_def tcp_norm_def conn_segment_def and_masks TCP_WINDOW_def tcp_default_def)

text \<open>What the chip reads from a frame that belongs to a connection.\<close>

definition from_peer :: "conn \<Rightarrow> tcp \<Rightarrow> (bytes \<times> bytes \<times> bytes \<times> bytes \<times> tcp) res" where
  "from_peer c t = Inr (chip_mac c, GATEWAY_MAC, dst_ip c, chip_ip c, t)"

lemma conn_frame_view:
  assumes "wf_conn c" "length opts \<le> 40" "length payload \<le> 1460"
  shows "\<exists>f. conn_frame c fl sq ak opts payload = Inr f \<and>
    tcp_frame_view f = from_peer c (sent c fl sq ak opts payload)"
  unfolding conn_frame_def sent_def from_peer_def
  using assms pad4_length(3) [of opts]
  by (intro segment_frame_view)
    (auto simp: wf_conn_def wf_tcp_def conn_segment_def tcp_default_def TCP_WINDOW_def)

lemma close_rst_frame_view:
  assumes "wf_conn c"
  shows "\<exists>f. close_rst_frame c = Inr f \<and>
    tcp_frame_view f = from_peer c (tcp_norm (dst_ip c) (chip_ip c) (close_rst c))"
  unfolding close_rst_frame_def from_peer_def using assms
  by (intro segment_frame_view)
    (auto simp: wf_conn_def wf_tcp_def close_rst_def tcp_default_def pad4_def)

lemma stray_rst_frame_view:
  assumes "length mac = 6" "wf_ipv4 ip" "parsed_tcp t"
  shows "\<exists>f. stray_rst_frame mac ip t = Inr f \<and>
    tcp_frame_view f = Inr (mac, GATEWAY_MAC, ip_dst ip, ip_src ip,
      tcp_norm (ip_dst ip) (ip_src ip) (stray_rst t))"
  unfolding stray_rst_frame_def using assms
  by (intro segment_frame_view)
    (auto simp: wf_ipv4_def parsed_tcp_def wf_tcp_def stray_rst_def tcp_default_def pad4_def)

text \<open>Values for evaluation: a connection from the station to port 80 of a public host.\<close>

definition sample_conn :: "tcp_state \<Rightarrow> conn" where
  "sample_conn st = \<lparr>chip_ip = [10, 13, 37, 42], chip_port = 49152, dst_ip = [93, 184, 216, 34],
     conn_dst_port = 80, chip_mac = STA_MAC, state = st, chip_isn = 1000, our_isn = 5000,
     our_seq = 5001, chip_seq = 1001, chip_window = 8192, mss = 1460, host_reader = Some 0,
     host_writer = Some 0, host_pump_task = Some Pump_wait, last_activity = 0,
     pending_connect = None, pending_payload = [], pending_eof = False\<rparr>"

lemma wf_sample_conn: "wf_conn (sample_conn st)"
  by (simp add: wf_conn_def sample_conn_def STA_MAC_def)

end
