(* ===== verification/Egress_Log.thy ===== *)
theory Egress_Log
  imports Egress
begin

text \<open>
  The egress log: the slot of \<^verbatim>\<open>velxiogw/net/egress_log.py\<close> for a sink, the event that
  \<^verbatim>\<open>PicowNetBridge._emit_egress\<close> builds from a network fact and the bridge's identity, and what
  it means for the records of a NAT to agree with the egress guard. A sink is code from
  outside: a function of an event and a state of its own, which may raise.
\<close>

section \<open>The slot\<close>

record bridge_identity =
  ev_client_id :: pystr
  ev_user_id :: "pystr option"
  ev_project_id :: "pystr option"
  ev_session_id :: "pystr option"
  ev_board_kind :: pystr

record egress_event = bridge_identity +
  ev_protocol :: string
  ev_dst_ip :: "pystr option"
  ev_dst_port :: "int option"
  ev_dst_host :: "pystr option"
  ev_verdict :: string
  ev_reason :: string

type_synonym 's sink = "egress_event \<Rightarrow> 's \<Rightarrow> exn option \<times> 's"

definition set_sink :: "'s sink option \<Rightarrow> 's sink option \<Rightarrow> 's sink option" where
  "set_sink fn old = fn"

text \<open>\<^verbatim>\<open>record\<close>: an exception of the sink is logged and dropped.\<close>

definition egress_record :: "'s sink option \<Rightarrow> egress_event \<Rightarrow> 's \<Rightarrow> 's" where
  "egress_record slot event w = (case slot of None \<Rightarrow> w | Some sink \<Rightarrow> snd (sink event w))"

definition emit_egress ::
  "bridge_identity \<Rightarrow> string \<Rightarrow> string \<Rightarrow> pystr option \<Rightarrow> int option \<Rightarrow> pystr option \<Rightarrow> string \<Rightarrow> egress_event" where
  "emit_egress self protocol verdict dst_ip dst_port dst_host reason =
     bridge_identity.extend self
       \<lparr>ev_protocol = protocol, ev_dst_ip = dst_ip, ev_dst_port = dst_port, ev_dst_host = dst_host,
        ev_verdict = verdict, ev_reason = reason\<rparr>"

text \<open>A sink that appends to a buffer and then may fail sees every event once, in order.\<close>

lemma buffered_sink:
  "fold (egress_record (set_sink (Some (\<lambda>ev buf. (fails ev, buf @ [ev]))) old)) evs buf = buf @ evs"
  by (induction evs arbitrary: buf) (simp_all add: egress_record_def set_sink_def)

lemma emit_egress_simps [simp]:
  "ev_protocol (emit_egress i p v ip port h r) = p" "ev_verdict (emit_egress i p v ip port h r) = v"
  "ev_dst_ip (emit_egress i p v ip port h r) = ip" "ev_dst_port (emit_egress i p v ip port h r) = port"
  "ev_dst_host (emit_egress i p v ip port h r) = h" "ev_reason (emit_egress i p v ip port h r) = r"
  "bridge_identity.truncate (emit_egress i p v ip port h r) = i"
  by (simp_all add: emit_egress_def bridge_identity.defs)

section \<open>Records of a NAT\<close>

text \<open>Verdict, address, port and reason, as the NATs report them before they open a socket.\<close>

type_synonym nat_record = "string \<times> pystr \<times> int \<times> string"

definition admitted :: "nat_record list \<Rightarrow> (pystr \<times> int) list" where
  "admitted rs = map (\<lambda>(v, host, port, why). (host, port)) (filter (\<lambda>r. fst r = ''allowed'') rs)"

definition record_true :: "egress_env \<Rightarrow> nat_record \<Rightarrow> bool" where
  "record_true env = (\<lambda>(v, host, port, why).
     (v, why) = (case is_allowed_dst env host port of (ok, r) \<Rightarrow>
        if ok then (''allowed'', ''ok'') else (''blocked'', r)))"

lemma admitted_simps [simp]:
  "admitted [] = []" "admitted (r # rs) = (if fst r = ''allowed'' then (fst (snd r), fst (snd (snd r))) # admitted rs else admitted rs)"
  "admitted (rs @ ss) = admitted rs @ admitted ss"
  by (simp_all add: admitted_def split_beta)

end
