(* ===== verification/Tcp_Nat.thy ===== *)
theory Tcp_Nat
  imports Tcp_Conn Egress_Log
begin

text \<open>
  The NAT manager of \<^verbatim>\<open>velxiogw/net/tcp_nat.py\<close> (class \<^verbatim>\<open>TcpNat\<close>). A handler is a function
  from the manager's state to its next state and the exception that escaped, if any; the
  random initial sequence number, the clock and the outcome of host I/O are arguments.
  A coroutine is cut where it waits for the host or for a timer: \<^verbatim>\<open>_on_passive_syn\<close> at the
  bounded wait for the dial, \<^verbatim>\<open>_finish_deferred_connect\<close> at its start and at its await,
  the pump at its sleep and its read. Injecting a frame and draining a writer are taken as
  part of the step that does them.
\<close>

section \<open>State\<close>

text \<open>
  What the manager does to the outside, in order: frames to the chip, egress records, dials,
  and calls on the host socket of a connection.
\<close>

datatype action =
    Inject bytes
  | Egress string pystr int string
  | Dial nat pystr int
  | Host_write nat bytes
  | Host_eof nat
  | Host_close nat

text \<open>
  Connection objects live in a store and are referred to by number, because the table, the
  pump and the deferred connect alias them. \<open>waiting\<close> holds the arguments of the
  \<^verbatim>\<open>_on_passive_syn\<close> calls that are suspended in \<^verbatim>\<open>asyncio.wait\<close>.
\<close>

record tcp_nat =
  objs :: "nat \<Rightarrow> conn"
  next_cid :: nat
  conns :: "(flow_key, nat) dict"
  connecting :: "flow_key set"
  waiting :: "nat \<Rightarrow> (bytes \<times> ipv4 \<times> tcp) option"
  trace :: "action list"

definition emit :: "action \<Rightarrow> tcp_nat \<Rightarrow> tcp_nat" where
  "emit a s = s\<lparr>trace := trace s @ [a]\<rparr>"

definition upd :: "nat \<Rightarrow> (conn \<Rightarrow> conn) \<Rightarrow> tcp_nat \<Rightarrow> tcp_nat" where
  "upd cid f s = s\<lparr>objs := (objs s)(cid := f (objs s cid))\<rparr>"

section \<open>Frame emission\<close>

definition inject :: "bytes res \<Rightarrow> tcp_nat \<Rightarrow> tcp_nat run" where
  "inject f s = (case f of Inl e \<Rightarrow> (Some e, s) | Inr b \<Rightarrow> (None, emit (Inject b) s))"

definition send :: "nat \<Rightarrow> int \<Rightarrow> int \<Rightarrow> int \<Rightarrow> bytes \<Rightarrow> bytes \<Rightarrow> tcp_nat \<Rightarrow> tcp_nat run" where
  "send cid flags seq ack opts payload s =
     inject (conn_frame (objs s cid) flags seq ack opts payload) s"

definition ack_only :: "nat \<Rightarrow> tcp_nat \<Rightarrow> tcp_nat run" where
  "ack_only cid s = send cid TCP_ACK (our_seq (objs s cid)) (chip_seq (objs s cid)) [] [] s"

definition send_rst :: "bytes \<Rightarrow> ipv4 \<Rightarrow> tcp \<Rightarrow> tcp_nat \<Rightarrow> tcp_nat run" where
  "send_rst mac ip t s = inject (stray_rst_frame mac ip t) s"

section \<open>Teardown\<close>

text \<open>
  Cancelling a task: a pump that is suspended gets \<^verbatim>\<open>CancelledError\<close> and ends. A deferred
  connect that awaits its dial ends after its \<^verbatim>\<open>finally\<close> clause has run; one that was
  scheduled but has not started ends without running any of its body.
\<close>

definition cancel_pump :: "pump option \<Rightarrow> pump option" where
  "cancel_pump p = (case p of None \<Rightarrow> None | Some _ \<Rightarrow> Some Pump_done)"

definition cancel_deferred :: "deferred option \<Rightarrow> deferred option" where
  "cancel_deferred d =
     (case d of Some Def_scheduled \<Rightarrow> Some Def_done
      | Some Def_dialing \<Rightarrow> Some Def_cancelling
      | _ \<Rightarrow> d)"

definition close_conn :: "nat \<Rightarrow> bool \<Rightarrow> tcp_nat \<Rightarrow> tcp_nat" where
  "close_conn cid with_rst s =
     (if state (objs s cid) = CLOSED then s
      else let s1 = upd cid (state_update (\<lambda>_. CLOSED)) s;
               s2 = (if with_rst
                     then case close_rst_frame (objs s1 cid) of Inl _ \<Rightarrow> s1
                          | Inr f \<Rightarrow> emit (Inject f) s1
                     else s1);
               s3 = (case host_writer (objs s2 cid) of None \<Rightarrow> s2
                     | Some w \<Rightarrow> emit (Host_close w) s2);
               s4 = upd cid (\<lambda>c. c\<lparr>host_pump_task := cancel_pump (host_pump_task c)\<rparr>) s3;
               s5 = upd cid (\<lambda>c. c\<lparr>pending_connect := cancel_deferred (pending_connect c)\<rparr>) s4
           in s5\<lparr>conns := dict_pop (conn_key (objs s5 cid)) (conns s5)\<rparr>)"

definition shutdown :: "tcp_nat \<Rightarrow> tcp_nat" where
  "shutdown s = fold (\<lambda>cid. close_conn cid True) (map snd (conns s)) s"

section \<open>The passive open\<close>

definition flow_key_of :: "ipv4 \<Rightarrow> tcp \<Rightarrow> flow_key" where
  "flow_key_of ip t = (ip_src ip, src_port t, ip_dst ip, dst_port t)"

definition negotiated_mss :: "tcp \<Rightarrow> int" where
  "negotiated_mss t =
     (let m = opt_mss (parse_tcp_options (tcp_options t)) TCP_MSS
      in if m > TCP_MSS then TCP_MSS else m)"

definition new_conn :: "bytes \<Rightarrow> ipv4 \<Rightarrow> tcp \<Rightarrow> int \<Rightarrow> real \<Rightarrow> conn" where
  "new_conn mac ip t isn now =
     \<lparr>chip_ip = ip_src ip, chip_port = src_port t, dst_ip = ip_dst ip,
      conn_dst_port = dst_port t, chip_mac = mac, state = CLOSED, chip_isn = seq_no t,
      our_isn = isn, our_seq = seq_add isn 1, chip_seq = seq_add (seq_no t) 1,
      chip_window = window t, mss = negotiated_mss t, host_reader = None, host_writer = None,
      host_pump_task = None, last_activity = now, pending_connect = None,
      pending_payload = [], pending_eof = False\<rparr>"

text \<open>\<^verbatim>\<open>_on_passive_syn\<close> up to its wait for the dial.\<close>

definition on_passive_syn ::
  "egress_env \<Rightarrow> int \<Rightarrow> real \<Rightarrow> bytes \<Rightarrow> ipv4 \<Rightarrow> tcp \<Rightarrow> tcp_nat \<Rightarrow> tcp_nat run" where
  "on_passive_syn env isn now mac ip t s =
     (let c = new_conn mac ip t isn now;
          host = dial_host (dst_ip c);
          (allowed, reason) = is_allowed_dst env host (conn_dst_port c)
      in if \<not> allowed
         then send_rst mac ip t (emit (Egress ''blocked'' host (conn_dst_port c) reason) s)
         else let cid = next_cid s;
                  s1 = emit (Egress ''allowed'' host (conn_dst_port c) ''ok'') s
              in (None, emit (Dial cid host (conn_dst_port c))
                   (s1\<lparr>objs := (objs s1)(cid := c), next_cid := cid + 1,
                       connecting := insert (conn_key c) (connecting s1),
                       waiting := (waiting s1)(cid := Some (mac, ip, t))\<rparr>)))"

text \<open>The rest of \<^verbatim>\<open>_on_passive_syn\<close>, once the connection is to exist.\<close>

definition register_conn :: "nat \<Rightarrow> tcp_nat \<Rightarrow> tcp_nat run" where
  "register_conn cid s =
     (let s1 = upd cid (state_update (\<lambda>_. SYN_RCVD)) s;
          s2 = s1\<lparr>conns := dict_set (conn_key (objs s1 cid)) cid (conns s1)\<rparr>;
          c = objs s2 cid
      in andthen
           (inject (bindr (mss_option (mss c)) (\<lambda>opt.
              conn_frame c (TCP_SYN OR TCP_ACK) (our_isn c) (chip_seq c) opt [])) s2)
           (\<lambda>s3. (None, if host_reader (objs s3 cid) \<noteq> None
                        then upd cid (host_pump_task_update (\<lambda>_. Some Pump_wait)) s3 else s3)))"

definition discard_key :: "nat \<Rightarrow> tcp_nat \<Rightarrow> tcp_nat" where
  "discard_key cid s = s\<lparr>connecting := connecting s - {conn_key (objs s cid)}\<rparr>"

definition end_wait :: "nat \<Rightarrow> tcp_nat \<Rightarrow> tcp_nat" where
  "end_wait cid s = s\<lparr>waiting := (waiting s)(cid := None)\<rparr>"

definition attach :: "nat \<Rightarrow> tcp_nat \<Rightarrow> tcp_nat" where
  "attach cid s =
     upd cid (\<lambda>c. c\<lparr>host_reader := Some cid, host_writer := Some cid\<rparr>) s"

text \<open>The dial finished within the grace period: it opened a socket or it failed.\<close>

definition syn_answered :: "nat \<Rightarrow> bytes \<times> ipv4 \<times> tcp \<Rightarrow> bool \<Rightarrow> tcp_nat \<Rightarrow> tcp_nat run" where
  "syn_answered cid args opened s =
     (let (mac, ip, t) = args; s1 = discard_key cid (end_wait cid s)
      in if \<not> opened then send_rst mac ip t s1 else register_conn cid (attach cid s1))"

text \<open>The grace period ran out first: the chip is answered and the dial goes on underneath.\<close>

definition syn_grace :: "nat \<Rightarrow> tcp_nat \<Rightarrow> tcp_nat run" where
  "syn_grace cid s =
     register_conn cid (upd cid (pending_connect_update (\<lambda>_. Some Def_scheduled)) (end_wait cid s))"

section \<open>The deferred connect\<close>

definition deferred_start :: "nat \<Rightarrow> tcp_nat \<Rightarrow> tcp_nat" where
  "deferred_start cid s = upd cid (pending_connect_update (\<lambda>_. Some Def_dialing)) s"

text \<open>\<^verbatim>\<open>CancelledError\<close> at the await: only the \<^verbatim>\<open>finally\<close> clause runs.\<close>

definition deferred_cancelled :: "nat \<Rightarrow> tcp_nat \<Rightarrow> tcp_nat" where
  "deferred_cancelled cid s =
     upd cid (pending_connect_update (\<lambda>_. Some Def_done)) (discard_key cid s)"

definition start_pump :: "nat \<Rightarrow> tcp_nat \<Rightarrow> tcp_nat" where
  "start_pump cid s = upd cid (host_pump_task_update (\<lambda>_. Some Pump_wait)) s"

definition flush_eof :: "nat \<Rightarrow> tcp_nat \<Rightarrow> tcp_nat" where
  "flush_eof cid s =
     (if pending_eof (objs s cid)
      then emit (Host_eof cid) (upd cid (pending_eof_update (\<lambda>_. False)) s) else s)"

text \<open>The dial returned: \<open>opened\<close> says whether with a socket, \<open>wr\<close> whether the flush succeeds.\<close>

definition deferred_done :: "nat \<Rightarrow> bool \<Rightarrow> bool \<Rightarrow> tcp_nat \<Rightarrow> tcp_nat" where
  "deferred_done cid opened wr s =
     (let s1 = upd cid (pending_connect_update (\<lambda>_. None)) (discard_key cid s)
      in if state (objs s1 cid) = CLOSED
         then (if opened then emit (Host_close cid) s1 else s1)
         else if \<not> opened then close_conn cid True s1
         else let s2 = attach cid s1; held = pending_payload (objs s2 cid)
              in if held \<noteq> []
                 then let s3 = emit (Host_write cid held)
                            (upd cid (pending_payload_update (\<lambda>_. [])) s2)
                      in if wr then start_pump cid (flush_eof cid s3) else close_conn cid True s3
                 else start_pump cid (flush_eof cid s2))"

section \<open>Dialling\<close>

text \<open>
  \<^verbatim>\<open>_connect_with_retries\<close>: one fresh socket per timeout of the ladder, in milliseconds. What
  the far side does to the \<open>i\<close>-th socket is an argument: it opens or fails after a delay, or
  stays silent; \<^verbatim>\<open>asyncio.wait_for\<close> gives up on it at the timeout. A failure with \<^verbatim>\<open>ETIMEDOUT\<close> is a
  \<^verbatim>\<open>TimeoutError\<close>, hence an \<^verbatim>\<open>asyncio.TimeoutError\<close>, and goes the way of silence without the rest of
  the wait. The result says whether a socket was opened, how many were tried and how long it took.
\<close>

datatype reply = Opens nat | Fails nat | Timed_out nat | Silent

definition CONNECT_ATTEMPT_TIMEOUTS :: "nat list" where
  "CONNECT_ATTEMPT_TIMEOUTS = [600, 900, 1500, 2500, 4000]"

fun connect_attempts :: "nat list \<Rightarrow> (nat \<Rightarrow> reply) \<Rightarrow> nat \<Rightarrow> nat \<Rightarrow> bool \<times> nat \<times> nat" where
  "connect_attempts [] net i elapsed = (False, i, elapsed)"
| "connect_attempts (t # ts) net i elapsed =
     (case net i of
        Opens d \<Rightarrow> if d < t then (True, Suc i, elapsed + d)
                   else connect_attempts ts net (Suc i) (elapsed + t)
      | Fails d \<Rightarrow> if d < t then (False, Suc i, elapsed + d)
                   else connect_attempts ts net (Suc i) (elapsed + t)
      | Timed_out d \<Rightarrow> connect_attempts ts net (Suc i) (elapsed + min d t)
      | Silent \<Rightarrow> connect_attempts ts net (Suc i) (elapsed + t))"

definition connect_with_retries :: "(nat \<Rightarrow> reply) \<Rightarrow> bool \<times> nat \<times> nat" where
  "connect_with_retries net = connect_attempts CONNECT_ATTEMPT_TIMEOUTS net 0 0"

section \<open>Segments from the chip\<close>

definition on_fin :: "nat \<Rightarrow> tcp_nat \<Rightarrow> tcp_nat run" where
  "on_fin cid s =
     (let s1 = upd cid (\<lambda>c. c\<lparr>chip_seq := seq_add (chip_seq c) 1, state := CLOSE_WAIT\<rparr>) s;
          s2 = (case host_writer (objs s1 cid) of
                  Some w \<Rightarrow> emit (Host_eof w) s1
                | None \<Rightarrow> upd cid (pending_eof_update (\<lambda>_. True)) s1)
      in ack_only cid s2)"

definition maybe_fin :: "nat \<Rightarrow> tcp \<Rightarrow> tcp_nat \<Rightarrow> tcp_nat run" where
  "maybe_fin cid t s = (if has_flag (tcp_flags t) TCP_FIN then on_fin cid s else (None, s))"

definition accept_payload :: "nat \<Rightarrow> tcp \<Rightarrow> tcp_nat \<Rightarrow> tcp_nat run" where
  "accept_payload cid t s =
     andthen
       (ack_only cid
         (upd cid (\<lambda>c. c\<lparr>chip_seq := seq_add (chip_seq c) (int (length (tcp_payload t)))\<rparr>) s))
       (maybe_fin cid t)"

definition on_data :: "bool \<Rightarrow> nat \<Rightarrow> tcp \<Rightarrow> tcp_nat \<Rightarrow> tcp_nat run" where
  "on_data wr cid t s =
     (if tcp_payload t \<noteq> [] then
        if seq_no t \<noteq> chip_seq (objs s cid) then ack_only cid s
        else case host_writer (objs s cid) of
            None \<Rightarrow> accept_payload cid t
              (upd cid (\<lambda>c. c\<lparr>pending_payload := pending_payload c @ tcp_payload t\<rparr>) s)
          | Some w \<Rightarrow>
              let s1 = emit (Host_write w (tcp_payload t)) s
              in if wr then accept_payload cid t s1 else (None, close_conn cid True s1)
      else maybe_fin cid t s)"

definition on_handshake_complete :: "bool \<Rightarrow> nat \<Rightarrow> tcp \<Rightarrow> tcp_nat \<Rightarrow> tcp_nat run" where
  "on_handshake_complete wr cid t s =
     (if \<not> has_flag (tcp_flags t) TCP_ACK then (None, s)
      else if ack_no t \<noteq> our_seq (objs s cid) then (None, s)
      else let s1 = upd cid (state_update (\<lambda>_. ESTABLISHED)) s
           in if tcp_payload t \<noteq> [] then on_data wr cid t s1 else (None, s1))"

definition fin_and_close :: "nat \<Rightarrow> tcp \<Rightarrow> tcp_nat \<Rightarrow> tcp_nat run" where
  "fin_and_close cid t s =
     (if has_flag (tcp_flags t) TCP_FIN
      then andthen (ack_only cid (upd cid (\<lambda>c. c\<lparr>chip_seq := seq_add (chip_seq c) 1\<rparr>) s))
             (\<lambda>s'. (None, close_conn cid False s'))
      else (None, s))"

definition on_fin_wait_1 :: "nat \<Rightarrow> tcp \<Rightarrow> tcp_nat \<Rightarrow> tcp_nat run" where
  "on_fin_wait_1 cid t s =
     fin_and_close cid t
       (if has_flag (tcp_flags t) TCP_ACK \<and> ack_no t = our_seq (objs s cid)
        then upd cid (state_update (\<lambda>_. FIN_WAIT_2)) s else s)"

definition on_fin_wait_2 :: "nat \<Rightarrow> tcp \<Rightarrow> tcp_nat \<Rightarrow> tcp_nat run" where
  "on_fin_wait_2 cid t s = fin_and_close cid t s"

text \<open>The dispatch on the state of a connection the table holds.\<close>

definition on_segment :: "bool \<Rightarrow> nat \<Rightarrow> tcp \<Rightarrow> tcp_nat \<Rightarrow> tcp_nat run" where
  "on_segment wr cid t s =
     (let s1 = upd cid (chip_window_update (\<lambda>_. window t)) s
      in case state (objs s1 cid) of
           SYN_RCVD \<Rightarrow> on_handshake_complete wr cid t s1
         | ESTABLISHED \<Rightarrow> on_data wr cid t s1
         | FIN_WAIT_1 \<Rightarrow> on_fin_wait_1 cid t s1
         | FIN_WAIT_2 \<Rightarrow> on_fin_wait_2 cid t s1
         | CLOSE_WAIT \<Rightarrow> (None, s1)
         | LAST_ACK \<Rightarrow>
             if has_flag (tcp_flags t) TCP_ACK \<and>
                seq_geq_or_eq (ack_no t) (seq_add (our_seq (objs s1 cid)) 0)
             then (None, close_conn cid False s1) else (None, s1)
         | CLOSED \<Rightarrow> (None, s1))"

definition handle_chip_segment ::
  "egress_env \<Rightarrow> int \<Rightarrow> real \<Rightarrow> bool \<Rightarrow> bytes \<Rightarrow> ipv4 \<Rightarrow> tcp \<Rightarrow> tcp_nat \<Rightarrow> tcp_nat run" where
  "handle_chip_segment env isn now wr mac ip t s =
     (let key = flow_key_of ip t; found = dict_get (conns s) key
      in if has_flag (tcp_flags t) TCP_RST
         then (None, case found of None \<Rightarrow> s | Some cid \<Rightarrow> close_conn cid False s)
         else case found of
             None \<Rightarrow>
               if has_flag (tcp_flags t) TCP_SYN \<and> \<not> has_flag (tcp_flags t) TCP_ACK
               then if key \<in> connecting s then (None, s)
                    else on_passive_syn env isn now mac ip t s
               else send_rst mac ip t s
           | Some cid \<Rightarrow> on_segment wr cid t s)"

section \<open>The host-to-chip pump\<close>

text \<open>\<^verbatim>\<open>except Exception\<close> of the pump: the connection is reset and the pump is over.\<close>

definition pump_guard :: "nat \<Rightarrow> tcp_nat run \<Rightarrow> tcp_nat" where
  "pump_guard cid m =
     (case m of (None, s) \<Rightarrow> s
      | (Some _, s) \<Rightarrow> upd cid (host_pump_task_update (\<lambda>_. Some Pump_done)) (close_conn cid True s))"

definition send_fin :: "nat \<Rightarrow> tcp_state \<Rightarrow> tcp_nat \<Rightarrow> tcp_nat run" where
  "send_fin cid st s =
     (let s1 = upd cid (state_update (\<lambda>_. st)) s; c = objs s1 cid
      in andthen (send cid (TCP_ACK OR TCP_FIN) (our_seq c) (chip_seq c) [] [] s1)
           (\<lambda>s2. (None, upd cid (\<lambda>c. c\<lparr>our_seq := seq_add (our_seq c) 1\<rparr>) s2)))"

text \<open>After the read loop: the FIN, if the connection still has one to send.\<close>

definition pump_finish :: "nat \<Rightarrow> tcp_nat \<Rightarrow> tcp_nat run" where
  "pump_finish cid s =
     andthen
       (if state (objs s cid) = ESTABLISHED then send_fin cid FIN_WAIT_1 s
        else if state (objs s cid) = CLOSE_WAIT then send_fin cid LAST_ACK s
        else (None, s))
       (\<lambda>s'. (None, upd cid (host_pump_task_update (\<lambda>_. Some Pump_done)) s'))"

text \<open>The head of the read loop.\<close>

definition pump_loop :: "nat \<Rightarrow> tcp_nat \<Rightarrow> tcp_nat run" where
  "pump_loop cid s =
     (if state (objs s cid) \<in> {ESTABLISHED, CLOSE_WAIT}
      then (None, upd cid (host_pump_task_update (\<lambda>_. Some Pump_read)) s)
      else pump_finish cid s)"

text \<open>The end of a sleep of the handshake loop.\<close>

definition pump_wake :: "nat \<Rightarrow> tcp_nat \<Rightarrow> tcp_nat" where
  "pump_wake cid s =
     (if state (objs s cid) = SYN_RCVD then s else pump_guard cid (pump_loop cid s))"

text \<open>
  The inner loop \<^verbatim>\<open>while chunk\<close>. With an MSS of 0 it would not end on a non-empty chunk; the
  guard on it is never reached, since \<^verbatim>\<open>read(0)\<close> returns an empty chunk (\<open>read_chunk\<close>).
\<close>

function send_segments :: "nat \<Rightarrow> real \<Rightarrow> bytes \<Rightarrow> tcp_nat \<Rightarrow> tcp_nat run" where
  "send_segments cid now chunk s =
     (if chunk = [] \<or> mss (objs s cid) \<le> 0 then (None, s)
      else let c = objs s cid; m = nat (mss c); seg = take m chunk
           in case send cid (TCP_ACK OR TCP_PSH) (our_seq c) (chip_seq c) [] seg s of
                (Some e, s1) \<Rightarrow> (Some e, s1)
              | (None, s1) \<Rightarrow> send_segments cid now (drop m chunk)
                  (upd cid (\<lambda>c. c\<lparr>our_seq := seq_add (our_seq c) (int (length seg)),
                                  last_activity := now\<rparr>) s1))"
  by pat_completeness auto

termination by (relation "measure (\<lambda>(cid, now, chunk, s). length chunk)") auto

declare send_segments.simps [simp del]

text \<open>\<^verbatim>\<open>await reader.read(mss)\<close>, where \<open>avail\<close> is what the reader holds (empty at EOF).\<close>

definition read_chunk :: "int \<Rightarrow> bytes \<Rightarrow> bytes" where
  "read_chunk n avail = take (nat n) avail"

definition pump_chunk :: "nat \<Rightarrow> real \<Rightarrow> bytes \<Rightarrow> tcp_nat \<Rightarrow> tcp_nat" where
  "pump_chunk cid now avail s =
     pump_guard cid
       (let chunk = read_chunk (mss (objs s cid)) avail
        in if chunk = [] then pump_finish cid s
           else andthen (send_segments cid now chunk s) (pump_loop cid))"

text \<open>The read raised.\<close>

definition pump_error :: "nat \<Rightarrow> exn \<Rightarrow> tcp_nat \<Rightarrow> tcp_nat" where
  "pump_error cid e s = pump_guard cid (Some e, s)"

end
