(* ===== verification/Tcp_Machine.thy ===== *)
theory Tcp_Machine
  imports Tcp_Nat
begin

text \<open>
  The TCP NAT as a machine: its events, its step relation and the invariant of its reachable
  states. Every handler acts on one connection object and on that object's key
  (\<open>local_change\<close>); the invariant is stated per object, so that a handler preserves it when
  the object it touched is again in one of its phases.
\<close>

section \<open>Events and steps\<close>

datatype event =
    Segment int real bool bytes ipv4 tcp
  | Syn_answered nat "nat \<Rightarrow> reply"
  | Syn_grace nat
  | Deferred_start nat
  | Deferred_done nat "nat \<Rightarrow> reply" bool
  | Deferred_cancelled nat
  | Pump_wake nat
  | Pump_chunk nat real bytes
  | Pump_error nat exn
  | Shutdown

text \<open>
  A step is enabled where the event loop can run it: a suspended call or task exists for the
  object, and a segment has been parsed by the bridge.
\<close>

inductive nat_step :: "egress_env \<Rightarrow> tcp_nat \<Rightarrow> event \<Rightarrow> tcp_nat \<Rightarrow> bool" for env where
  step_segment:
    "length mac = 6 \<Longrightarrow> wf_ipv4 ip \<Longrightarrow> parsed_tcp t \<Longrightarrow> 0 \<le> isn \<Longrightarrow> isn < 4294967296 \<Longrightarrow>
     nat_step env s (Segment isn now wr mac ip t)
       (snd (handle_chip_segment env isn now wr mac ip t s))"
| step_answered:
    "waiting s cid = Some args \<Longrightarrow>
     nat_step env s (Syn_answered cid net)
       (snd (syn_answered cid args (fst (connect_with_retries net)) s))"
| step_grace:
    "waiting s cid = Some args \<Longrightarrow> nat_step env s (Syn_grace cid) (snd (syn_grace cid s))"
| step_deferred_start:
    "cid < next_cid s \<Longrightarrow> pending_connect (objs s cid) = Some Def_scheduled \<Longrightarrow>
     nat_step env s (Deferred_start cid) (deferred_start cid s)"
| step_deferred_done:
    "cid < next_cid s \<Longrightarrow> pending_connect (objs s cid) = Some Def_dialing \<Longrightarrow>
     nat_step env s (Deferred_done cid net wr)
       (deferred_done cid (fst (connect_with_retries net)) wr s)"
| step_deferred_cancelled:
    "cid < next_cid s \<Longrightarrow> pending_connect (objs s cid) = Some Def_cancelling \<Longrightarrow>
     nat_step env s (Deferred_cancelled cid) (deferred_cancelled cid s)"
| step_pump_wake:
    "cid < next_cid s \<Longrightarrow> host_pump_task (objs s cid) = Some Pump_wait \<Longrightarrow>
     nat_step env s (Pump_wake cid) (pump_wake cid s)"
| step_pump_chunk:
    "cid < next_cid s \<Longrightarrow> host_pump_task (objs s cid) = Some Pump_read \<Longrightarrow>
     nat_step env s (Pump_chunk cid now avail) (pump_chunk cid now avail s)"
| step_pump_error:
    "cid < next_cid s \<Longrightarrow> host_pump_task (objs s cid) = Some Pump_read \<Longrightarrow>
     nat_step env s (Pump_error cid e) (pump_error cid e s)"
| step_shutdown: "nat_step env s Shutdown (shutdown s)"

inductive_cases nat_stepE: "nat_step env s e t"

inductive_simps nat_step_segment: "nat_step env s (Segment isn now wr mac ip t) t'"

text \<open>A new \<^verbatim>\<open>TcpNat\<close>: no connection, no key, nothing done. The store's content is irrelevant.\<close>

definition nat_start :: "tcp_nat \<Rightarrow> bool" where
  "nat_start s \<longleftrightarrow> next_cid s = 0 \<and> conns s = [] \<and> connecting s = {} \<and>
     (\<forall>cid. waiting s cid = None) \<and> trace s = []"

definition nat_new :: tcp_nat where
  "nat_new = \<lparr>objs = (\<lambda>_. sample_conn CLOSED), next_cid = 0, conns = [], connecting = {},
     waiting = (\<lambda>_. None), trace = []\<rparr>"

lemma nat_start_new: "nat_start nat_new"
  by (simp add: nat_start_def nat_new_def)

section \<open>The phases of a connection object\<close>

text \<open>The bytes a host socket has been given.\<close>

fun written :: "nat \<Rightarrow> action list \<Rightarrow> bytes" where
  "written cid [] = []"
| "written cid (Host_write w b # as) = (if w = cid then b @ written cid as else written cid as)"
| "written cid (_ # as) = written cid as"

lemma written_append [simp]: "written cid (as @ bs) = written cid as @ written cid bs"
  by (induction as rule: written.induct) simp_all

text \<open>The dials made: connection, host and port.\<close>

fun dials :: "action list \<Rightarrow> (nat \<times> pystr \<times> int) list" where
  "dials [] = []"
| "dials (Dial cid host port # as) = (cid, host, port) # dials as"
| "dials (_ # as) = dials as"

lemma dials_append [simp]: "dials (as @ bs) = dials as @ dials bs"
  by (induction as rule: dials.induct) simp_all

text \<open>The records of the egress log in a trace.\<close>

fun nat_records :: "action list \<Rightarrow> nat_record list" where
  "nat_records [] = []"
| "nat_records (Egress v host port why # as) = (v, host, port, why) # nat_records as"
| "nat_records (_ # as) = nat_records as"

lemma nat_records_append [simp]: "nat_records (as @ bs) = nat_records as @ nat_records bs"
  by (induction as rule: nat_records.induct) simp_all

definition fin_count :: "tcp_state \<Rightarrow> int" where
  "fin_count st = (if st = CLOSE_WAIT \<or> st = LAST_ACK then 1 else 0)"

text \<open>The pump an attached connection must have in each state.\<close>

fun pump_fits :: "tcp_state \<Rightarrow> pump option \<Rightarrow> bool" where
  "pump_fits SYN_RCVD p \<longleftrightarrow> p = Some Pump_wait"
| "pump_fits ESTABLISHED p \<longleftrightarrow> p = Some Pump_wait \<or> p = Some Pump_read"
| "pump_fits CLOSE_WAIT p \<longleftrightarrow> p = Some Pump_wait \<or> p = Some Pump_read"
| "pump_fits CLOSED p \<longleftrightarrow> p = None \<or> p = Some Pump_done"
| "pump_fits _ p \<longleftrightarrow> p = Some Pump_done"

text \<open>Bytes accepted from the chip so far, and the sequence number they account for.\<close>

definition accounted :: "nat \<Rightarrow> conn \<Rightarrow> bytes \<Rightarrow> bool" where
  "accounted cid c w \<longleftrightarrow> chip_seq c =
     seq_add (chip_isn c) (1 + int (length (w @ pending_payload c)) + fin_count (state c))"

definition dead_phase :: "conn \<Rightarrow> bool" where
  "dead_phase c \<longleftrightarrow> state c = CLOSED \<and> pump_fits CLOSED (host_pump_task c) \<and>
     pending_connect c \<notin> {Some Def_scheduled, Some Def_dialing}"

definition new_phase :: "conn \<Rightarrow> bool" where
  "new_phase c \<longleftrightarrow> state c = CLOSED \<and> host_writer c = None \<and> host_pump_task c = None \<and>
     pending_connect c = None \<and> pending_payload c = [] \<and> \<not> pending_eof c"

definition attached_phase :: "nat \<Rightarrow> conn \<Rightarrow> bool" where
  "attached_phase cid c \<longleftrightarrow> state c \<noteq> CLOSED \<and> host_writer c = Some cid \<and>
     pump_fits (state c) (host_pump_task c) \<and> pending_connect c = None \<and>
     pending_payload c = [] \<and> \<not> pending_eof c"

definition deferred_phase :: "conn \<Rightarrow> bool" where
  "deferred_phase c \<longleftrightarrow> state c \<in> {SYN_RCVD, ESTABLISHED, CLOSE_WAIT} \<and>
     pending_connect c \<in> {Some Def_scheduled, Some Def_dialing} \<and> host_writer c = None \<and>
     host_pump_task c = None \<and> (pending_eof c \<longleftrightarrow> state c = CLOSE_WAIT) \<and>
     (state c = SYN_RCVD \<longrightarrow> pending_payload c = [])"

lemmas phase_defs = dead_phase_def new_phase_def attached_phase_def deferred_phase_def

definition in_progress :: "tcp_nat \<Rightarrow> nat \<Rightarrow> bool" where
  "in_progress s cid \<longleftrightarrow> waiting s cid \<noteq> None \<or>
     pending_connect (objs s cid) \<in> {Some Def_scheduled, Some Def_dialing, Some Def_cancelling}"

definition active :: "tcp_nat \<Rightarrow> nat \<Rightarrow> bool" where
  "active s cid \<longleftrightarrow> in_progress s cid \<or> state (objs s cid) \<noteq> CLOSED"

definition args_ok :: "conn \<Rightarrow> bytes \<times> ipv4 \<times> tcp \<Rightarrow> bool" where
  "args_ok c = (\<lambda>(mac, ip, t). length mac = 6 \<and> wf_ipv4 ip \<and> parsed_tcp t \<and>
     conn_key c = flow_key_of ip t \<and>
     c = new_conn mac ip t (our_isn c) (last_activity c))"

definition obj_ok :: "tcp_nat \<Rightarrow> nat \<Rightarrow> bool" where
  "obj_ok s cid \<longleftrightarrow>
     (let c = objs s cid in
      wf_conn c \<and> host_reader c = host_writer c \<and>
      (case waiting s cid of
         Some args \<Rightarrow> new_phase c \<and> args_ok c args
       | None \<Rightarrow> dead_phase c \<or> attached_phase cid c \<or> deferred_phase c) \<and>
      (waiting s cid \<noteq> None \<or> state c \<noteq> CLOSED \<longrightarrow> accounted cid c (written cid (trace s))) \<and>
      (dict_get (conns s) (conn_key c) = Some cid \<longleftrightarrow> state c \<noteq> CLOSED) \<and>
      (in_progress s cid \<longrightarrow> conn_key c \<in> connecting s))"

definition nat_inv :: "tcp_nat \<Rightarrow> bool" where
  "nat_inv s \<longleftrightarrow> dict_ok (conns s) \<and>
     (\<forall>k cid. dict_get (conns s) k = Some cid \<longrightarrow> cid < next_cid s \<and> conn_key (objs s cid) = k) \<and>
     (\<forall>cid < next_cid s. obj_ok s cid) \<and>
     (\<forall>cid \<ge> next_cid s. waiting s cid = None \<and> written cid (trace s) = []) \<and>
     (\<forall>cid < next_cid s. \<forall>cid' < next_cid s. active s cid \<longrightarrow> active s cid' \<longrightarrow>
        conn_key (objs s cid) = conn_key (objs s cid') \<longrightarrow> cid = cid')"

lemma nat_inv_start: "nat_start s \<Longrightarrow> nat_inv s"
  by (simp add: nat_start_def nat_inv_def dict_laws py_dict.ok_empty)

section \<open>Changes to one connection\<close>

text \<open>What a step on one connection may do to the outside: frames in order and host I/O, no dial.\<close>

fun local_action :: "action \<Rightarrow> bool" where
  "local_action (Inject f) \<longleftrightarrow> frame_ok f"
| "local_action (Egress v h p r) \<longleftrightarrow> False"
| "local_action (Dial cid h p) \<longleftrightarrow> False"
| "local_action _ \<longleftrightarrow> True"

definition local_change :: "nat \<Rightarrow> tcp_nat \<Rightarrow> tcp_nat \<Rightarrow> bool" where
  "local_change cid s s' \<longleftrightarrow>
     next_cid s' = next_cid s \<and> dials (trace s') = dials (trace s) \<and>
     extends local_action (trace s) (trace s') \<and>
     (\<forall>c. c \<noteq> cid \<longrightarrow> objs s' c = objs s c \<and> waiting s' c = waiting s c \<and>
        written c (trace s') = written c (trace s)) \<and>
     conn_key (objs s' cid) = conn_key (objs s cid) \<and>
     (\<forall>k. k \<noteq> conn_key (objs s cid) \<longrightarrow> dict_get (conns s') k = dict_get (conns s) k \<and>
        (k \<in> connecting s' \<longleftrightarrow> k \<in> connecting s)) \<and>
     (dict_ok (conns s) \<longrightarrow> dict_ok (conns s')) \<and>
     dict_get (conns s') (conn_key (objs s cid)) \<in>
       {dict_get (conns s) (conn_key (objs s cid)), None, Some cid}"

lemma local_refl: "local_change cid s s"
  by (simp add: local_change_def)

lemma local_trans:
  assumes "local_change cid s t" "local_change cid t u"
  shows "local_change cid s u"
proof -
  have "extends local_action (trace s) (trace u)"
    using assms by (auto simp: local_change_def intro: extends_trans)
  moreover have "dict_get (conns u) (conn_key (objs s cid)) \<in>
      {dict_get (conns s) (conn_key (objs s cid)), None, Some cid}"
    using assms unfolding local_change_def by (metis insert_iff)
  ultimately show ?thesis using assms by (simp add: local_change_def)
qed

lemma local_emit:
  "(\<And>c. c \<noteq> cid \<Longrightarrow> written c [a] = []) \<Longrightarrow> local_action a \<Longrightarrow> local_change cid s (emit a s)"
  by (cases a) (simp_all add: local_change_def emit_def)

lemma local_upd: "(\<And>c. conn_key (f c) = conn_key c) \<Longrightarrow> local_change cid s (upd cid f s)"
  by (simp add: local_change_def upd_def)

lemma nat_inv_local:
  assumes inv: "nat_inv s" and n: "cid < next_cid s" and act: "active s cid"
    and ch: "local_change cid s s'" and ok: "obj_ok s' cid"
  shows "nat_inv s'"
proof -
  let ?k = "conn_key (objs s cid)"
  have k': "conn_key (objs s' cid) = ?k" and nx: "next_cid s' = next_cid s"
    using ch by (simp_all add: local_change_def)
  have others: "objs s' c = objs s c" "waiting s' c = waiting s c"
    "written c (trace s') = written c (trace s)" if "c \<noteq> cid" for c
    using ch that by (simp_all add: local_change_def)
  have keys: "dict_get (conns s') k = dict_get (conns s) k" "k \<in> connecting s' \<longleftrightarrow> k \<in> connecting s"
    if "k \<noteq> ?k" for k
    using ch that unfolding local_change_def by blast+
  have uniq: "c = cid" if "c < next_cid s" "active s c" "conn_key (objs s c) = ?k" for c
    using inv n act that by (simp add: nat_inv_def)
  have objs_ok: "obj_ok s c" if "c < next_cid s" for c using inv that by (simp add: nat_inv_def)
  have sound: "c < next_cid s \<and> conn_key (objs s c) = k" if "dict_get (conns s) k = Some c" for k c
    using inv that unfolding nat_inv_def by blast
  have at_k: "dict_get (conns s') ?k \<in> {None, Some cid}"
  proof -
    have "c = cid" if "dict_get (conns s) ?k = Some c" for c
      using sound [OF that] objs_ok [of c] that uniq [of c] by (auto simp: obj_ok_def active_def Let_def)
    then have "dict_get (conns s) ?k \<in> {None, Some cid}" by (cases "dict_get (conns s) ?k") auto
    then show ?thesis using ch by (auto simp: local_change_def)
  qed
  have other_active: "active s' c \<longleftrightarrow> active s c" if "c \<noteq> cid" for c
    by (simp add: active_def in_progress_def others [OF that])
  have other_key: "conn_key (objs s c) \<noteq> ?k \<or> \<not> active s c" if "c \<noteq> cid" "c < next_cid s" for c
    using uniq that by blast
  have ok': "obj_ok s' c" if c: "c < next_cid s" "c \<noteq> cid" for c
  proof (cases "conn_key (objs s c) = ?k")
    case False
    then show ?thesis using objs_ok [OF c(1)]
      by (simp add: obj_ok_def others [OF c(2)] keys [OF False] in_progress_def Let_def)
  next
    case True
    then have "\<not> active s c" using uniq c by blast
    then show ?thesis using objs_ok [OF c(1)] at_k True c(2)
      by (auto simp: obj_ok_def others [OF c(2)] active_def in_progress_def Let_def)
  qed
  show ?thesis
    unfolding nat_inv_def nx
  proof (intro conjI allI impI)
    show "dict_ok (conns s')" using inv ch by (simp add: nat_inv_def local_change_def)
  next
    fix k c
    assume "dict_get (conns s') k = Some c"
    then show "c < next_cid s" "conn_key (objs s' c) = k"
      using at_k n k' keys [of k] sound [of k c] others(1) [of c] by (cases "k = ?k"; force)+
  next
    fix c
    assume "c < next_cid s"
    then show "obj_ok s' c" using ok ok' by (cases "c = cid") auto
  next
    fix c
    assume c: "next_cid s \<le> c"
    then have "c \<noteq> cid" using n by auto
    then show "waiting s' c = None" "written c (trace s') = []"
      using inv c by (simp_all add: nat_inv_def others)
  next
    fix c c'
    assume "c < next_cid s" "c' < next_cid s" "active s' c" "active s' c'"
      "conn_key (objs s' c) = conn_key (objs s' c')"
    moreover have "c = c'" if "c \<noteq> cid" "c' \<noteq> cid"
      using calculation that inv by (simp add: nat_inv_def others other_active)
    ultimately show "c = c'"
      using uniq [of c] uniq [of c'] other_active k' others(1) by (cases "c = cid"; cases "c' = cid") auto
  qed
qed

section \<open>Evaluating the handlers\<close>

lemma emit_simps [simp]:
  "objs (emit a s) = objs s" "next_cid (emit a s) = next_cid s" "conns (emit a s) = conns s"
  "connecting (emit a s) = connecting s" "waiting (emit a s) = waiting s"
  "trace (emit a s) = trace s @ [a]"
  by (simp_all add: emit_def)

lemma upd_simps [simp]:
  "objs (upd cid f s) = (objs s)(cid := f (objs s cid))" "next_cid (upd cid f s) = next_cid s"
  "conns (upd cid f s) = conns s" "connecting (upd cid f s) = connecting s"
  "waiting (upd cid f s) = waiting s" "trace (upd cid f s) = trace s"
  by (simp_all add: upd_def)

lemma conn_key_updates [simp]:
  "conn_key (c\<lparr>state := a\<rparr>) = conn_key c" "conn_key (c\<lparr>our_seq := i\<rparr>) = conn_key c"
  "conn_key (c\<lparr>chip_seq := i\<rparr>) = conn_key c" "conn_key (c\<lparr>chip_window := i\<rparr>) = conn_key c"
  "conn_key (c\<lparr>host_reader := r\<rparr>) = conn_key c" "conn_key (c\<lparr>host_writer := r\<rparr>) = conn_key c"
  "conn_key (c\<lparr>host_pump_task := p\<rparr>) = conn_key c" "conn_key (c\<lparr>last_activity := x\<rparr>) = conn_key c"
  "conn_key (c\<lparr>pending_connect := d\<rparr>) = conn_key c" "conn_key (c\<lparr>pending_payload := b\<rparr>) = conn_key c"
  "conn_key (c\<lparr>pending_eof := e\<rparr>) = conn_key c"
  by (simp_all add: conn_key_def)

lemma conn_key_update_funs [simp]:
  "conn_key (state_update g1 c) = conn_key c" "conn_key (host_pump_task_update g2 c) = conn_key c"
  "conn_key (pending_connect_update g3 c) = conn_key c"
  "conn_key (pending_payload_update g4 c) = conn_key c"
  "conn_key (pending_eof_update g5 c) = conn_key c" "conn_key (chip_window_update g6 c) = conn_key c"
  by (simp_all add: conn_key_def)

text \<open>Frames of a well-formed connection never raise.\<close>

definition frame_for :: "conn \<Rightarrow> int \<Rightarrow> int \<Rightarrow> int \<Rightarrow> bytes \<Rightarrow> bytes \<Rightarrow> bytes" where
  "frame_for c fl sq ak opts payload = projr (conn_frame c fl sq ak opts payload)"

lemma frame_for_view:
  assumes "wf_conn c" "length opts \<le> 40" "length payload \<le> 1460"
  shows "conn_frame c fl sq ak opts payload = Inr (frame_for c fl sq ak opts payload)"
    "tcp_frame_view (frame_for c fl sq ak opts payload) = from_peer c (sent c fl sq ak opts payload)"
  using conn_frame_view [OF assms, of fl sq ak] by (auto simp: frame_for_def)

lemma frame_for_ok [simp]:
  "wf_conn c \<Longrightarrow> length opts \<le> 40 \<Longrightarrow> length payload \<le> 1460 \<Longrightarrow> frame_ok (frame_for c fl sq ak opts payload)"
  using frame_for_view(2) by (auto simp: from_peer_def intro: frame_ok_tcp)

lemma rst_frames_ok [simp]:
  "length mac = 6 \<Longrightarrow> wf_ipv4 ip \<Longrightarrow> parsed_tcp t \<Longrightarrow> frame_ok (projr (stray_rst_frame mac ip t))"
  "wf_conn c \<Longrightarrow> frame_ok (projr (close_rst_frame c))"
  using stray_rst_frame_view [of mac ip t] close_rst_frame_view [of c]
  by (auto simp: from_peer_def intro: frame_ok_tcp)

lemma send_eq:
  assumes "wf_conn (objs s cid)" "length opts \<le> 40" "length payload \<le> 1460"
  shows "send cid fl sq ak opts payload s =
    (None, emit (Inject (frame_for (objs s cid) fl sq ak opts payload)) s)"
  by (simp add: send_def inject_def frame_for_view [OF assms])

lemma ack_only_eq:
  "wf_conn (objs s cid) \<Longrightarrow> ack_only cid s = (None, emit (Inject
     (frame_for (objs s cid) TCP_ACK (our_seq (objs s cid)) (chip_seq (objs s cid)) [] [])) s)"
  by (simp add: ack_only_def send_eq)

lemma send_ok:
  assumes "wf_conn (objs s cid)" "length opts \<le> 40" "length payload \<le> 1460"
  shows "\<exists>f. send cid fl sq ak opts payload s = (None, emit (Inject f) s) \<and> frame_ok f"
  using send_eq [OF assms] frame_for_ok [OF assms] by blast

lemma ack_only_ok:
  "wf_conn (objs s cid) \<Longrightarrow> \<exists>f. ack_only cid s = (None, emit (Inject f) s) \<and> frame_ok f"
  by (simp add: ack_only_def send_ok)

lemma send_rst_eq:
  assumes "length mac = 6" "wf_ipv4 ip" "parsed_tcp t"
  shows "send_rst mac ip t s = (None, emit (Inject (projr (stray_rst_frame mac ip t))) s)"
  using stray_rst_frame_view [OF assms] by (auto simp: send_rst_def inject_def)

section \<open>Phases after a change\<close>

text \<open>An object that may be closed: the requirements \<^verbatim>\<open>_close\<close> leaves intact.\<close>

definition closable :: "nat \<Rightarrow> tcp_nat \<Rightarrow> bool" where
  "closable cid s \<longleftrightarrow> (let c = objs s cid in
     wf_conn c \<and> host_reader c = host_writer c \<and> waiting s cid = None \<and> state c \<noteq> CLOSED \<and>
     (pending_connect c \<noteq> None \<longrightarrow> conn_key c \<in> connecting s))"

definition closed_conn :: "conn \<Rightarrow> conn" where
  "closed_conn c = c\<lparr>state := CLOSED, host_pump_task := cancel_pump (host_pump_task c),
     pending_connect := cancel_deferred (pending_connect c)\<rparr>"

lemma conn_key_closed [simp]: "conn_key (closed_conn c) = conn_key c"
  by (simp add: closed_conn_def)

lemma wf_conn_updates [simp]:
  "wf_conn (c\<lparr>state := a\<rparr>) \<longleftrightarrow> wf_conn c" "wf_conn (c\<lparr>host_pump_task := p\<rparr>) \<longleftrightarrow> wf_conn c"
  "wf_conn (c\<lparr>host_reader := r\<rparr>) \<longleftrightarrow> wf_conn c" "wf_conn (c\<lparr>host_writer := r\<rparr>) \<longleftrightarrow> wf_conn c"
  "wf_conn (c\<lparr>last_activity := x\<rparr>) \<longleftrightarrow> wf_conn c" "wf_conn (c\<lparr>pending_connect := d\<rparr>) \<longleftrightarrow> wf_conn c"
  "wf_conn (c\<lparr>pending_payload := b\<rparr>) \<longleftrightarrow> wf_conn c" "wf_conn (c\<lparr>pending_eof := e\<rparr>) \<longleftrightarrow> wf_conn c"
  "wf_conn (c\<lparr>chip_window := i\<rparr>) \<longleftrightarrow> wf_conn c"
  by (simp_all add: wf_conn_def)

lemma wf_conn_seq [simp]:
  "wf_conn c \<Longrightarrow> wf_conn (c\<lparr>our_seq := seq_add a b\<rparr>)"
  "wf_conn c \<Longrightarrow> wf_conn (c\<lparr>chip_seq := seq_add a b\<rparr>)"
  by (simp_all add: wf_conn_def)

text \<open>What \<^verbatim>\<open>_close\<close> does to the outside.\<close>

definition close_actions :: "conn \<Rightarrow> bool \<Rightarrow> action list" where
  "close_actions c with_rst =
     (if with_rst then [Inject (projr (close_rst_frame c))] else []) @
     (case host_writer c of None \<Rightarrow> [] | Some w \<Rightarrow> [Host_close w])"

lemma close_rst_frame_state [simp]: "close_rst_frame (c\<lparr>state := a\<rparr>) = close_rst_frame c"
  by (simp add: close_rst_frame_def close_rst_def)

lemma close_conn_eq:
  assumes "state (objs s cid) \<noteq> CLOSED" "wf_conn (objs s cid)"
  shows "close_conn cid r s = s\<lparr>objs := (objs s)(cid := closed_conn (objs s cid)),
    conns := dict_pop (conn_key (objs s cid)) (conns s),
    trace := trace s @ close_actions (objs s cid) r\<rparr>"
  using assms close_rst_frame_view [OF assms(2)]
  by (cases s; cases "host_writer (objs s cid)")
    (auto simp: close_conn_def Let_def emit_def upd_def closed_conn_def close_actions_def)

lemma written_close_actions [simp]:
  "written c (close_actions x r) = []" "dials (close_actions x r) = []"
  by (simp_all add: close_actions_def split: option.splits)

lemma close_actions_local [simp]: "wf_conn c \<Longrightarrow> list_all local_action (close_actions c r)"
  by (simp add: close_actions_def split: option.splits)

lemma close_conn_local: "closable cid s \<Longrightarrow> local_change cid s (close_conn cid r s)"
  by (auto simp: closable_def close_conn_eq Let_def local_change_def dict_laws py_dict.ok_pop)

lemma close_conn_obj_ok: "closable cid s \<Longrightarrow> obj_ok (close_conn cid r s) cid"
  by (cases "pending_connect (objs s cid)"; cases "host_pump_task (objs s cid)")
    (auto simp: closable_def close_conn_eq Let_def obj_ok_def dict_laws closed_conn_def
      dead_phase_def cancel_pump_def cancel_deferred_def in_progress_def split: deferred.splits)

lemma obj_ok_closable:
  "obj_ok s cid \<Longrightarrow> state (objs s cid) \<noteq> CLOSED \<Longrightarrow> closable cid s"
  by (auto simp: obj_ok_def closable_def Let_def in_progress_def phase_defs split: option.splits)

text \<open>The two live phases, as introduction and elimination rules of \<open>obj_ok\<close>.\<close>

lemma obj_ok_live:
  assumes "obj_ok s cid" "state (objs s cid) \<noteq> CLOSED"
  shows "wf_conn (objs s cid)" "waiting s cid = None"
    "attached_phase cid (objs s cid) \<or> deferred_phase (objs s cid)"
    "host_reader (objs s cid) = host_writer (objs s cid)"
    "accounted cid (objs s cid) (written cid (trace s))"
    "dict_get (conns s) (conn_key (objs s cid)) = Some cid"
    "deferred_phase (objs s cid) \<Longrightarrow> conn_key (objs s cid) \<in> connecting s"
  using assms by (auto simp: obj_ok_def Let_def in_progress_def phase_defs split: option.splits)

lemma obj_ok_attachedI:
  assumes "wf_conn (objs s cid)" "waiting s cid = None" "attached_phase cid (objs s cid)"
    "host_reader (objs s cid) = Some cid" "accounted cid (objs s cid) (written cid (trace s))"
    "dict_get (conns s) (conn_key (objs s cid)) = Some cid"
  shows "obj_ok s cid"
  using assms by (simp add: obj_ok_def in_progress_def attached_phase_def)

lemma obj_ok_deferredI:
  assumes "wf_conn (objs s cid)" "waiting s cid = None" "deferred_phase (objs s cid)"
    "host_reader (objs s cid) = None" "accounted cid (objs s cid) (written cid (trace s))"
    "dict_get (conns s) (conn_key (objs s cid)) = Some cid"
    "conn_key (objs s cid) \<in> connecting s"
  shows "obj_ok s cid"
  using assms by (auto simp: obj_ok_def in_progress_def deferred_phase_def)

lemma obj_ok_wf: "obj_ok s cid \<Longrightarrow> wf_conn (objs s cid)"
  by (simp add: obj_ok_def Let_def)

lemma obj_ok_emit: "written cid [a] = [] \<Longrightarrow> obj_ok (emit a s) cid \<longleftrightarrow> obj_ok s cid"
  by (simp add: obj_ok_def in_progress_def)

text \<open>A step that did its work: nothing raised, one object changed, that object in a phase.\<close>

definition fine :: "nat \<Rightarrow> tcp_nat \<Rightarrow> tcp_nat run \<Rightarrow> bool" where
  "fine cid s m \<longleftrightarrow> (\<exists>s'. m = (None, s') \<and> local_change cid s s' \<and> obj_ok s' cid)"

lemma fineI: "m = (None, s') \<Longrightarrow> local_change cid s s' \<Longrightarrow> obj_ok s' cid \<Longrightarrow> fine cid s m"
  by (auto simp: fine_def)

lemma fine_trans: "local_change cid s t \<Longrightarrow> fine cid t m \<Longrightarrow> fine cid s m"
  by (auto simp: fine_def intro: local_trans)

lemma fine_andthen:
  "fine cid s m \<Longrightarrow> (\<And>s'. m = (None, s') \<Longrightarrow> obj_ok s' cid \<Longrightarrow> fine cid s' (f s')) \<Longrightarrow>
   fine cid s (andthen m f)"
  by (auto simp: fine_def) (blast intro: local_trans)

lemma fine_close:
  "closable cid s \<Longrightarrow> fine cid s (None, close_conn cid r s)"
  by (intro fineI [OF refl]) (simp_all add: close_conn_local close_conn_obj_ok)

lemma fine_refl: "obj_ok s cid \<Longrightarrow> fine cid s (None, s)"
  by (intro fineI [OF refl]) (simp_all add: local_refl)

lemma fine_ack: "obj_ok s cid \<Longrightarrow> fine cid s (ack_only cid s)"
  by (rule fineI [OF ack_only_eq]) (simp_all add: obj_ok_wf obj_ok_emit local_emit)

end
