(* ===== verification/Tcp_Steps.thy ===== *)
theory Tcp_Steps
  imports Tcp_Machine
begin

text \<open>
  Every handler of the TCP NAT keeps the invariant and raises nothing: one lemma per handler,
  in the order of the code, and the interpretation of the machine contract at the end.
\<close>

section \<open>Data and FIN from the chip\<close>

text \<open>An update of a live object within its phase.\<close>

lemma obj_ok_liveI:
  assumes "obj_ok s cid" "state (objs s cid) \<noteq> CLOSED"
    and "waiting s' cid = waiting s cid" "conns s' = conns s" "connecting s' = connecting s"
    and "conn_key (objs s' cid) = conn_key (objs s cid)" "wf_conn (objs s' cid)"
    and "host_reader (objs s' cid) = host_writer (objs s' cid)"
    and "attached_phase cid (objs s' cid) \<or>
      deferred_phase (objs s' cid) \<and> deferred_phase (objs s cid)"
    and "accounted cid (objs s' cid) (written cid (trace s'))"
  shows "obj_ok s' cid"
  using assms(9)
proof (elim disjE conjE)
  note l = obj_ok_live [OF assms(1,2)]
  show "obj_ok s' cid" if "attached_phase cid (objs s' cid)"
    by (rule obj_ok_attachedI) (use that assms l in \<open>simp_all add: attached_phase_def\<close>)
  show "obj_ok s' cid" if "deferred_phase (objs s' cid)" "deferred_phase (objs s cid)"
    by (rule obj_ok_deferredI) (use that(1) assms l(2,6) l(7) [OF that(2)] in
      \<open>simp_all add: deferred_phase_def\<close>)
qed

lemma accounted_fin:
  assumes "accounted cid c w" "fin_count (state c) = 0"
  shows "accounted cid (c\<lparr>chip_seq := seq_add (chip_seq c) 1, state := CLOSE_WAIT\<rparr>) w"
  using assms by (simp add: accounted_def seq_add_assoc fin_count_def)

lemma accounted_eq:
  "pending_payload c' = pending_payload c \<Longrightarrow> chip_seq c' = chip_seq c \<Longrightarrow>
   chip_isn c' = chip_isn c \<Longrightarrow> fin_count (state c') = fin_count (state c) \<Longrightarrow>
   accounted cid c' w \<longleftrightarrow> accounted cid c w"
  by (simp add: accounted_def)

lemma on_fin_fine:
  assumes ok: "obj_ok s cid" and st: "state (objs s cid) = ESTABLISHED"
  shows "fine cid s (on_fin cid s)"
proof -
  define c where "c = (objs s cid)\<lparr>chip_seq := seq_add (chip_seq (objs s cid)) 1, state := CLOSE_WAIT\<rparr>"
  define s1 where "s1 = upd cid (\<lambda>c. c\<lparr>chip_seq := seq_add (chip_seq c) 1, state := CLOSE_WAIT\<rparr>) s"
  have live: "state (objs s cid) \<noteq> CLOSED" using st by simp
  note l = obj_ok_live [OF ok live]
  have s1: "objs s1 = (objs s)(cid := c)" "conns s1 = conns s" "connecting s1 = connecting s"
    "waiting s1 = waiting s" "trace s1 = trace s" by (simp_all add: s1_def c_def)
  have acc: "accounted cid c (written cid (trace s))"
    unfolding c_def using l(5) by (rule accounted_fin) (simp add: st fin_count_def)
  have c: "wf_conn c" "conn_key c = conn_key (objs s cid)" "host_reader c = host_writer c"
    using l by (simp_all add: c_def)
  have loc: "local_change cid s s1" unfolding s1_def by (rule local_upd) simp
  show ?thesis
  proof (cases "host_writer (objs s cid)")
    case (Some w)
    have "attached_phase cid c"
      using l(3) st Some by (auto simp: c_def attached_phase_def deferred_phase_def)
    then have "obj_ok (emit (Host_eof w) s1) cid"
      using acc c by (intro obj_ok_liveI [OF ok live]) (simp_all add: s1)
    moreover have "local_change cid s (emit (Host_eof w) s1)"
      by (rule local_trans [OF loc local_emit]) simp_all
    moreover have "on_fin cid s = ack_only cid (emit (Host_eof w) s1)"
      using Some by (simp add: on_fin_def s1 c_def flip: s1_def)
    ultimately show ?thesis by (metis fine_trans fine_ack)
  next
    case None
    let ?t = "upd cid (pending_eof_update (\<lambda>_. True)) s1"
    have de: "deferred_phase (objs s cid)" using l(3) None by (auto simp: attached_phase_def)
    then have "obj_ok ?t cid"
      using acc c None by (intro obj_ok_liveI [OF ok live])
        (auto simp: s1 c_def deferred_phase_def accounted_def)
    moreover have "local_change cid s ?t" by (rule local_trans [OF loc local_upd]) simp
    moreover have "on_fin cid s = ack_only cid ?t"
      using None by (simp add: on_fin_def s1 c_def flip: s1_def)
    ultimately show ?thesis by (metis fine_trans fine_ack)
  qed
qed

lemma maybe_fin_fine:
  "obj_ok s cid \<Longrightarrow> state (objs s cid) = ESTABLISHED \<Longrightarrow> fine cid s (maybe_fin cid t s)"
  by (simp add: maybe_fin_def on_fin_fine fine_refl)

text \<open>The state after a payload has been counted.\<close>

definition counted :: "nat \<Rightarrow> tcp \<Rightarrow> tcp_nat \<Rightarrow> tcp_nat" where
  "counted cid t s =
     upd cid (\<lambda>c. c\<lparr>chip_seq := seq_add (chip_seq c) (int (length (tcp_payload t)))\<rparr>) s"

lemma counted_local: "local_change cid s (counted cid t s)"
  unfolding counted_def by (rule local_upd) simp

lemma accept_fine:
  assumes "obj_ok (counted cid t s) cid" "state (objs s cid) = ESTABLISHED"
  shows "fine cid s (accept_payload cid t s)"
proof -
  let ?s = "counted cid t s"
  have wf: "wf_conn (objs ?s cid)" using assms(1) by (simp add: obj_ok_def Let_def)
  obtain f where a: "ack_only cid ?s = (None, emit (Inject f) ?s)" "frame_ok f"
    using ack_only_ok [OF wf] by blast
  have "fine cid (emit (Inject f) ?s) (maybe_fin cid t (emit (Inject f) ?s))"
    using assms by (intro maybe_fin_fine) (simp_all add: obj_ok_emit, simp add: counted_def)
  moreover have "local_change cid s (emit (Inject f) ?s)"
    by (rule local_trans [OF counted_local local_emit]) (simp_all add: a)
  moreover have "accept_payload cid t s = maybe_fin cid t (emit (Inject f) ?s)"
    using a by (simp add: accept_payload_def counted_def)
  ultimately show ?thesis by (simp add: fine_trans)
qed

lemma on_data_fine:
  assumes ok: "obj_ok s cid" and st: "state (objs s cid) = ESTABLISHED"
  shows "fine cid s (on_data wr cid t s)"
proof (cases "tcp_payload t \<noteq> [] \<and> seq_no t = chip_seq (objs s cid)")
  case False
  then show ?thesis using fine_ack [OF ok] maybe_fin_fine [OF ok st] by (auto simp: on_data_def)
next
  case True
  have live: "state (objs s cid) \<noteq> CLOSED" using st by simp
  note l = obj_ok_live [OF ok live]
  show ?thesis
  proof (cases "host_writer (objs s cid)")
    case None
    let ?s = "upd cid (\<lambda>c. c\<lparr>pending_payload := pending_payload c @ tcp_payload t\<rparr>) s"
    have de: "deferred_phase (objs s cid)" using l(3) None by (auto simp: attached_phase_def)
    have "obj_ok (counted cid t ?s) cid"
      using l de st by (intro obj_ok_liveI [OF ok live])
        (auto simp: counted_def deferred_phase_def accounted_def seq_add_assoc algebra_simps fin_count_def)
    then have "fine cid ?s (accept_payload cid t ?s)" using st by (intro accept_fine) simp_all
    moreover have "local_change cid s ?s" by (rule local_upd) simp
    ultimately show ?thesis using True None by (simp add: on_data_def fine_trans)
  next
    case (Some w)
    let ?s = "emit (Host_write w (tcp_payload t)) s"
    have at: "attached_phase cid (objs s cid)" using l(3) Some by (auto simp: deferred_phase_def)
    then have w: "w = cid" using Some by (simp add: attached_phase_def)
    have loc: "local_change cid s ?s" by (rule local_emit) (simp_all add: w)
    have "obj_ok (counted cid t ?s) cid"
      using l at st w by (intro obj_ok_liveI [OF ok live])
        (auto simp: counted_def attached_phase_def accounted_def seq_add_assoc algebra_simps fin_count_def)
    then have "fine cid ?s (accept_payload cid t ?s)" using st by (intro accept_fine) simp_all
    moreover have "fine cid ?s (None, close_conn cid True ?s)"
      using obj_ok_closable [OF ok live] by (intro fine_close) (simp add: closable_def)
    ultimately show ?thesis using True Some loc by (simp add: on_data_def fine_trans Let_def)
  qed
qed

section \<open>Handshake, half-close and the dispatch\<close>

lemma on_handshake_fine:
  assumes ok: "obj_ok s cid" and st: "state (objs s cid) = SYN_RCVD"
  shows "fine cid s (on_handshake_complete wr cid t s)"
proof -
  let ?s = "upd cid (state_update (\<lambda>_. ESTABLISHED)) s"
  have live: "state (objs s cid) \<noteq> CLOSED" using st by simp
  have "obj_ok ?s cid"
    using obj_ok_live [OF ok live] st by (intro obj_ok_liveI [OF ok live])
      (auto simp: attached_phase_def deferred_phase_def accounted_def fin_count_def)
  then have "fine cid ?s (on_data wr cid t ?s)" "fine cid ?s (None, ?s)"
    by (simp_all add: on_data_fine fine_refl)
  moreover have "local_change cid s ?s" by (rule local_upd) simp
  ultimately show ?thesis
    using fine_refl [OF ok] fine_trans by (simp add: on_handshake_complete_def Let_def)
qed

lemma fin_and_close_fine:
  assumes ok: "obj_ok s cid" and st: "state (objs s cid) \<noteq> CLOSED"
  shows "fine cid s (fin_and_close cid t s)"
proof (cases "has_flag (tcp_flags t) TCP_FIN")
  case True
  let ?s = "upd cid (\<lambda>c. c\<lparr>chip_seq := seq_add (chip_seq c) 1\<rparr>) s"
  have cl: "closable cid s" using ok st by (rule obj_ok_closable)
  then have wf: "wf_conn (objs ?s cid)" by (simp add: closable_def Let_def)
  obtain f where a: "ack_only cid ?s = (None, emit (Inject f) ?s)" "frame_ok f"
    using ack_only_ok [OF wf] by blast
  have "fine cid (emit (Inject f) ?s) (None, close_conn cid False (emit (Inject f) ?s))"
    using cl by (intro fine_close) (auto simp: closable_def Let_def)
  moreover have "local_change cid s (emit (Inject f) ?s)"
    by (rule local_trans [OF local_upd local_emit]) (simp_all add: a)
  ultimately show ?thesis using a True by (simp add: fin_and_close_def fine_trans)
qed (simp add: fin_and_close_def fine_refl [OF ok])

lemma on_fin_wait_1_fine:
  assumes ok: "obj_ok s cid" and st: "state (objs s cid) = FIN_WAIT_1"
  shows "fine cid s (on_fin_wait_1 cid t s)"
proof -
  let ?s = "upd cid (state_update (\<lambda>_. FIN_WAIT_2)) s"
  have live: "state (objs s cid) \<noteq> CLOSED" using st by simp
  have "obj_ok ?s cid"
    using obj_ok_live [OF ok live] st by (intro obj_ok_liveI [OF ok live])
      (auto simp: attached_phase_def deferred_phase_def accounted_def fin_count_def)
  then have "fine cid ?s (fin_and_close cid t ?s)" by (rule fin_and_close_fine) simp
  moreover have "local_change cid s ?s" by (rule local_upd) simp
  ultimately show ?thesis
    using fin_and_close_fine [OF ok live] fine_trans by (simp add: on_fin_wait_1_def)
qed

lemma on_segment_fine:
  assumes ok: "obj_ok s cid" and st: "state (objs s cid) \<noteq> CLOSED"
  shows "fine cid s (on_segment wr cid t s)"
proof -
  let ?s = "upd cid (chip_window_update (\<lambda>_. window t)) s"
  have ok': "obj_ok ?s cid"
    using obj_ok_live [OF ok st] by (intro obj_ok_liveI [OF ok st])
      (auto simp: attached_phase_def deferred_phase_def accounted_def)
  have loc: "local_change cid s ?s" by (rule local_upd) simp
  have st': "state (objs ?s cid) = state (objs s cid)" by simp
  have "fine cid ?s (on_segment wr cid t s)"
  proof (cases "state (objs s cid)")
    case LAST_ACK
    have "fine cid ?s (None, close_conn cid False ?s)"
      using ok' LAST_ACK by (intro fine_close obj_ok_closable) simp_all
    then show ?thesis using LAST_ACK fine_refl [OF ok'] by (simp add: on_segment_def Let_def)
  qed (use ok' st' st in \<open>simp_all add: on_segment_def on_handshake_fine on_data_fine
      on_fin_wait_1_fine on_fin_wait_2_def fin_and_close_fine fine_refl\<close>)
  then show ?thesis by (rule fine_trans [OF loc])
qed

section \<open>The pump\<close>

text \<open>A pump step whose run raised nothing is that run's state.\<close>

definition kept :: "nat \<Rightarrow> tcp_nat \<Rightarrow> tcp_nat \<Rightarrow> bool" where
  "kept cid s s' \<longleftrightarrow> local_change cid s s' \<and> obj_ok s' cid"

lemma pump_guard_kept: "fine cid s m \<Longrightarrow> kept cid s (pump_guard cid m)"
  by (auto simp: fine_def pump_guard_def kept_def)

text \<open>The pump owns an attached connection.\<close>

lemma pump_attached:
  assumes "obj_ok s cid" "host_pump_task (objs s cid) = Some p" "p \<noteq> Pump_done"
  shows "attached_phase cid (objs s cid)" "state (objs s cid) \<noteq> CLOSED"
  using assms by (auto simp: obj_ok_def Let_def phase_defs split: option.splits)

lemma pump_done_ok:
  assumes ok: "obj_ok s cid" and live: "state (objs s cid) \<noteq> CLOSED"
    and pump: "host_pump_task (objs s cid) \<noteq> None"
    and fits: "attached_phase cid ((objs s cid)\<lparr>host_pump_task := p\<rparr>)"
  shows "kept cid s (upd cid (host_pump_task_update (\<lambda>_. p)) s)"
  unfolding kept_def
  using obj_ok_live [OF ok live] fits
  by (intro conjI local_upd obj_ok_liveI [OF ok live])
    (auto simp: attached_phase_def accounted_def deferred_phase_def)

lemma attached_state_pump:
  assumes "attached_phase cid c" "pump_fits st p" "st \<noteq> CLOSED"
  shows "attached_phase cid (c\<lparr>state := st, host_pump_task := p\<rparr>)"
  using assms by (simp add: attached_phase_def)

lemma send_fin_finish:
  assumes ok: "obj_ok s cid" and at: "attached_phase cid (objs s cid)"
    and st: "state (objs s cid) = ESTABLISHED \<and> st = FIN_WAIT_1 \<or>
      state (objs s cid) = CLOSE_WAIT \<and> st = LAST_ACK"
  shows "fine cid s (andthen (send_fin cid st s)
    (\<lambda>s'. (None, upd cid (host_pump_task_update (\<lambda>_. Some Pump_done)) s')))"
proof -
  have live: "state (objs s cid) \<noteq> CLOSED" using st by auto
  note l = obj_ok_live [OF ok live]
  let ?s1 = "upd cid (state_update (\<lambda>_. st)) s"
  have "wf_conn (objs ?s1 cid)" using l(1) by simp
  then obtain f where f: "send cid (TCP_ACK OR TCP_FIN) (our_seq (objs s cid)) (chip_seq (objs s cid))
      [] [] ?s1 = (None, emit (Inject f) ?s1)" "frame_ok f"
    using send_ok [of ?s1 cid "[]" "[]"] by (metis list.size(3) le0)
  let ?t = "upd cid (host_pump_task_update (\<lambda>_. Some Pump_done))
    (upd cid (\<lambda>c. c\<lparr>our_seq := seq_add (our_seq c) 1\<rparr>) (emit (Inject f) ?s1))"
  have "obj_ok ?t cid"
    using l at st by (intro obj_ok_liveI [OF ok live])
      (auto simp: attached_phase_def accounted_def fin_count_def)
  moreover have "local_change cid s ?t"
    by (intro local_trans [OF local_trans [OF local_trans [OF local_upd local_emit] local_upd] local_upd])
      (simp_all add: f)
  ultimately show ?thesis
    using f by (intro fineI) (simp_all add: send_fin_def)
qed

lemma pump_finish_fine:
  assumes ok: "obj_ok s cid" and at: "attached_phase cid (objs s cid)"
    and st: "state (objs s cid) = ESTABLISHED \<or> state (objs s cid) = CLOSE_WAIT"
  shows "fine cid s (pump_finish cid s)"
  using send_fin_finish [OF ok at] st by (auto simp: pump_finish_def)

lemma pump_loop_fine:
  assumes ok: "obj_ok s cid" and at: "attached_phase cid (objs s cid)"
    and st: "state (objs s cid) = ESTABLISHED \<or> state (objs s cid) = CLOSE_WAIT"
  shows "fine cid s (pump_loop cid s)"
proof -
  have "kept cid s (upd cid (host_pump_task_update (\<lambda>_. Some Pump_read)) s)"
    using at st by (intro pump_done_ok [OF ok]) (auto simp: attached_phase_def)
  then show ?thesis using st by (auto simp: pump_loop_def fine_def kept_def)
qed

lemma pump_wake_kept:
  assumes ok: "obj_ok s cid" and p: "host_pump_task (objs s cid) = Some Pump_wait"
  shows "kept cid s (pump_wake cid s)"
proof -
  note at = pump_attached [OF ok p]
  have "state (objs s cid) \<in> {SYN_RCVD, ESTABLISHED, CLOSE_WAIT}"
    using at p by (cases "state (objs s cid)") (auto simp: attached_phase_def)
  then show ?thesis
    using pump_guard_kept [OF pump_loop_fine [OF ok at(1)]] ok at
    by (auto simp: pump_wake_def kept_def local_refl)
qed

text \<open>A read never returns more than the MSS, so the inner loop sends exactly one segment.\<close>

definition data_sent :: "nat \<Rightarrow> real \<Rightarrow> bytes \<Rightarrow> tcp_nat \<Rightarrow> tcp_nat" where
  "data_sent cid now chunk s =
     (let c = objs s cid
      in upd cid (\<lambda>c. c\<lparr>our_seq := seq_add (our_seq c) (int (length chunk)), last_activity := now\<rparr>)
           (emit (Inject (frame_for c (TCP_ACK OR TCP_PSH) (our_seq c) (chip_seq c) [] chunk)) s))"

lemma send_segments_one:
  assumes wf: "wf_conn (objs s cid)" and chunk: "chunk \<noteq> []" "int (length chunk) \<le> mss (objs s cid)"
  shows "send_segments cid now chunk s = (None, data_sent cid now chunk s)"
proof -
  have m: "take (nat (mss (objs s cid))) chunk = chunk" "drop (nat (mss (objs s cid))) chunk = []"
    "length chunk \<le> 1460" "\<not> mss (objs s cid) \<le> 0"
    using chunk wf by (auto simp: wf_conn_def simp flip: length_greater_0_conv)
  show ?thesis
    by (subst send_segments.simps, simp add: m chunk(1) send_eq [OF wf] Let_def)
      (subst send_segments.simps, simp add: data_sent_def Let_def)
qed

lemma read_chunk_length: "0 \<le> m \<Longrightarrow> int (length (read_chunk m avail)) \<le> m"
  by (simp add: read_chunk_def)

lemma data_sent_kept:
  assumes ok: "obj_ok s cid" and live: "state (objs s cid) \<noteq> CLOSED" and len: "length chunk \<le> 1460"
  shows "kept cid s (data_sent cid now chunk s)"
  unfolding kept_def data_sent_def Let_def
  using obj_ok_live [OF ok live] len
  by (intro conjI local_trans [OF local_emit local_upd] obj_ok_liveI [OF ok live])
    (auto simp: attached_phase_def accounted_def deferred_phase_def conn_key_def)

lemma pump_chunk_kept:
  assumes ok: "obj_ok s cid" and p: "host_pump_task (objs s cid) = Some Pump_read"
  shows "kept cid s (pump_chunk cid now avail s)"
proof -
  note at = pump_attached [OF ok p]
  let ?chunk = "read_chunk (mss (objs s cid)) avail"
  have st: "state (objs s cid) = ESTABLISHED \<or> state (objs s cid) = CLOSE_WAIT"
    using at p by (cases "state (objs s cid)") (auto simp: attached_phase_def)
  have wf: "wf_conn (objs s cid)" using obj_ok_live [OF ok] at by simp
  show ?thesis
  proof (cases "?chunk = []")
    case True
    then show ?thesis
      using pump_guard_kept [OF pump_finish_fine [OF ok _ st]] at by (simp add: pump_chunk_def)
  next
    case False
    let ?t = "data_sent cid now ?chunk s"
    have "0 \<le> mss (objs s cid)" "mss (objs s cid) \<le> 1460" using wf by (simp_all add: wf_conn_def)
    then have "length ?chunk \<le> 1460" using read_chunk_length [of "mss (objs s cid)" avail] by linarith
    then have k: "kept cid s ?t" using data_sent_kept [OF ok] at by simp
    have "send_segments cid now ?chunk s = (None, ?t)"
      using wf False by (intro send_segments_one) (auto intro!: read_chunk_length simp: wf_conn_def)
    moreover have "fine cid ?t (pump_loop cid ?t)"
      using k at st by (intro pump_loop_fine)
        (auto simp: kept_def data_sent_def Let_def attached_phase_def)
    ultimately have "fine cid s (andthen (send_segments cid now ?chunk s) (pump_loop cid))"
      using k fine_trans [of cid s ?t] by (simp add: kept_def)
    then show ?thesis using False pump_guard_kept by (simp add: pump_chunk_def)
  qed
qed

lemma pump_error_kept:
  assumes ok: "obj_ok s cid" and p: "host_pump_task (objs s cid) = Some Pump_read"
  shows "kept cid s (pump_error cid e s)"
proof -
  note at = pump_attached [OF ok p]
  let ?t = "close_conn cid True s"
  have cl: "closable cid s" using obj_ok_closable [OF ok] at by simp
  then have t: "local_change cid s ?t" "obj_ok ?t cid"
    by (simp_all add: close_conn_local close_conn_obj_ok)
  have pt: "upd cid (host_pump_task_update (\<lambda>_. Some Pump_done)) ?t = ?t"
    using cl p by (cases s; cases "objs s cid") (simp add: close_conn_eq closable_def Let_def upd_def closed_conn_def cancel_pump_def)
  show ?thesis using t by (simp add: pump_error_def pump_guard_def kept_def pt)
qed

section \<open>Opening a connection\<close>

text \<open>The SYN+ACK and the state after it.\<close>

definition syn_ack_frame :: "conn \<Rightarrow> bytes" where
  "syn_ack_frame c = frame_for c (TCP_SYN OR TCP_ACK) (our_isn c) (chip_seq c)
     ([2, 4] @ be_bytes 2 (mss c)) []"

lemma register_conn_eq:
  assumes wf: "wf_conn (objs s cid)"
  shows "register_conn cid s = (None, s\<lparr>objs := (objs s)(cid := (objs s cid)\<lparr>state := SYN_RCVD,
      host_pump_task := (if host_reader (objs s cid) \<noteq> None then Some Pump_wait
                         else host_pump_task (objs s cid))\<rparr>),
    conns := dict_set (conn_key (objs s cid)) cid (conns s),
    trace := trace s @ [Inject (syn_ack_frame ((objs s cid)\<lparr>state := SYN_RCVD\<rparr>))]\<rparr>)"
proof -
  let ?c = "(objs s cid)\<lparr>state := SYN_RCVD\<rparr>"
  have "0 \<le> mss ?c" "mss ?c < 65536" using wf by (simp_all add: wf_conn_def)
  then have m: "mss_option (mss ?c) = Inr ([2, 4] @ be_bytes 2 (mss ?c))"
    by (simp add: mss_option_def pack_fits)
  have "wf_conn ?c" using wf by simp
  then have f: "conn_frame ?c (TCP_SYN OR TCP_ACK) (our_isn ?c) (chip_seq ?c)
      ([2, 4] @ be_bytes 2 (mss ?c)) [] = Inr (syn_ack_frame ?c)"
    unfolding syn_ack_frame_def by (intro frame_for_view(1)) simp_all
  show ?thesis
    using m f
    by (cases s) (simp add: register_conn_def inject_def Let_def emit_def upd_def)
qed

lemma register_conn_fine:
  assumes wf: "wf_conn (objs s cid)" and w: "waiting s cid = None"
    and acc: "accounted cid (objs s cid) (written cid (trace s))"
    and new: "pending_payload (objs s cid) = []" "\<not> pending_eof (objs s cid)"
      "state (objs s cid) = CLOSED" "host_pump_task (objs s cid) = None"
    and "host_reader (objs s cid) = Some cid \<and> host_writer (objs s cid) = Some cid \<and>
        pending_connect (objs s cid) = None \<or>
      host_reader (objs s cid) = None \<and> host_writer (objs s cid) = None \<and>
        pending_connect (objs s cid) = Some Def_scheduled \<and> conn_key (objs s cid) \<in> connecting s"
  shows "fine cid s (register_conn cid s)"
proof (rule fineI [OF register_conn_eq [OF wf]])
  show "local_change cid s (s\<lparr>objs := (objs s)(cid := (objs s cid)\<lparr>state := SYN_RCVD,
      host_pump_task := (if host_reader (objs s cid) \<noteq> None then Some Pump_wait
                         else host_pump_task (objs s cid))\<rparr>),
    conns := dict_set (conn_key (objs s cid)) cid (conns s),
    trace := trace s @ [Inject (syn_ack_frame ((objs s cid)\<lparr>state := SYN_RCVD\<rparr>))]\<rparr>)"
    using wf by (simp add: local_change_def dict_laws py_dict.ok_put syn_ack_frame_def)
qed (use assms(8) in \<open>elim disjE conjE; simp add: obj_ok_def in_progress_def phase_defs
      accounted_def fin_count_def wf w acc [unfolded accounted_def] new dict_laws\<close>)

lemma waiting_ok:
  assumes "obj_ok s cid" "waiting s cid = Some args"
  shows "wf_conn (objs s cid)" "new_phase (objs s cid)" "args_ok (objs s cid) args"
    "host_reader (objs s cid) = None" "accounted cid (objs s cid) (written cid (trace s))"
    "conn_key (objs s cid) \<in> connecting s"
    "dict_get (conns s) (conn_key (objs s cid)) \<noteq> Some cid"
  using assms by (simp_all add: obj_ok_def Let_def new_phase_def in_progress_def)

lemma end_wait_local: "local_change cid s (end_wait cid s)"
  by (simp add: local_change_def end_wait_def)

lemma discard_local: "local_change cid s (discard_key cid s)"
  by (simp add: local_change_def discard_key_def)

lemma attach_local: "local_change cid s (attach cid s)"
  unfolding attach_def by (rule local_upd) simp

lemma syn_answered_fine:
  assumes ok: "obj_ok s cid" and w: "waiting s cid = Some args"
  shows "fine cid s (syn_answered cid args opened s)"
proof -
  obtain mac ip t where args: "args = (mac, ip, t)" by (cases args)
  note wt = waiting_ok [OF ok w]
  let ?s = "discard_key cid (end_wait cid s)"
  have loc: "local_change cid s ?s" by (rule local_trans [OF end_wait_local discard_local])
  have "fine cid ?s (send_rst mac ip t ?s)"
  proof (rule fineI [OF send_rst_eq])
    show "obj_ok (emit (Inject (projr (stray_rst_frame mac ip t))) ?s) cid"
      using wt by (simp add: obj_ok_def in_progress_def new_phase_def dead_phase_def
          discard_key_def end_wait_def)
  qed (use wt in \<open>simp_all add: args args_ok_def local_emit\<close>)
  moreover have "fine cid (attach cid ?s) (register_conn cid (attach cid ?s))"
    using wt by (intro register_conn_fine)
      (simp_all add: attach_def discard_key_def end_wait_def new_phase_def accounted_def)
  ultimately show ?thesis
    using fine_trans [OF loc] fine_trans [OF attach_local, of cid ?s]
    by (simp add: syn_answered_def args Let_def)
qed

lemma syn_grace_fine:
  assumes ok: "obj_ok s cid" and w: "waiting s cid = Some args"
  shows "fine cid s (syn_grace cid s)"
proof -
  note wt = waiting_ok [OF ok w]
  let ?s = "upd cid (pending_connect_update (\<lambda>_. Some Def_scheduled)) (end_wait cid s)"
  have "fine cid ?s (register_conn cid ?s)"
    using wt by (intro register_conn_fine)
      (simp_all add: end_wait_def new_phase_def accounted_def)
  moreover have "local_change cid s ?s"
    by (rule local_trans [OF end_wait_local local_upd]) simp
  ultimately show ?thesis by (simp add: syn_grace_def fine_trans)
qed

section \<open>The deferred connect\<close>

lemma deferred_ok:
  assumes "obj_ok s cid" "pending_connect (objs s cid) \<in> {Some Def_scheduled, Some Def_dialing}"
  shows "deferred_phase (objs s cid)" "state (objs s cid) \<noteq> CLOSED"
  using assms by (auto simp: obj_ok_def Let_def phase_defs split: option.splits)

lemma deferred_start_kept:
  assumes ok: "obj_ok s cid" and p: "pending_connect (objs s cid) = Some Def_scheduled"
  shows "kept cid s (deferred_start cid s)"
proof -
  have de: "deferred_phase (objs s cid)" "state (objs s cid) \<noteq> CLOSED"
    using deferred_ok [OF ok] p by simp_all
  then show ?thesis
    unfolding kept_def deferred_start_def using obj_ok_live [OF ok]
    by (intro conjI local_upd obj_ok_liveI [OF ok]) (auto simp: deferred_phase_def accounted_def)
qed

lemma deferred_cancelled_kept:
  assumes ok: "obj_ok s cid" and p: "pending_connect (objs s cid) = Some Def_cancelling"
  shows "kept cid s (deferred_cancelled cid s)"
proof -
  have w: "waiting s cid = None" and d: "dead_phase (objs s cid)"
    using ok p by (auto simp: obj_ok_def Let_def phase_defs split: option.splits)
  have "local_change cid s (deferred_cancelled cid s)"
    unfolding deferred_cancelled_def by (rule local_trans [OF discard_local local_upd]) simp
  moreover have "obj_ok (deferred_cancelled cid s) cid"
    using ok w d by (auto simp: obj_ok_def Let_def deferred_cancelled_def discard_key_def
        dead_phase_def in_progress_def)
  ultimately show ?thesis by (simp add: kept_def)
qed

text \<open>The object once its socket has arrived and the bytes held for it have been written.\<close>

lemma deferred_done_kept:
  assumes ok: "obj_ok s cid" and p: "pending_connect (objs s cid) = Some Def_dialing"
  shows "kept cid s (deferred_done cid opened wr s)"
proof -
  note de = deferred_ok [OF ok, unfolded p, simplified]
  note l = obj_ok_live [OF ok de(2)]
  let ?s1 = "upd cid (pending_connect_update (\<lambda>_. None)) (discard_key cid s)"
  let ?s2 = "attach cid ?s1"
  let ?held = "pending_payload (objs s cid)"
  let ?s3 = "emit (Host_write cid ?held) (upd cid (pending_payload_update (\<lambda>_. [])) ?s2)"
  have l1: "local_change cid s ?s1" by (rule local_trans [OF discard_local local_upd]) simp
  have l2: "local_change cid s ?s2" by (rule local_trans [OF l1 attach_local])
  have l3: "local_change cid s ?s3"
    by (rule local_trans [OF l2 local_trans [OF local_upd local_emit]]) simp_all
  have closes: "kept cid s (close_conn cid True u)" if "closable cid u" "local_change cid s u" for u
    using that close_conn_local close_conn_obj_ok local_trans by (auto simp: kept_def)
  have cl: "closable cid ?s1" "closable cid ?s3"
    using l de by (simp_all add: closable_def attach_def discard_key_def)
  have live1: "state (objs (discard_key cid s) cid) \<noteq> CLOSED"
    "pending_payload (objs (discard_key cid s) cid) = ?held"
    using de(2) by (simp_all add: discard_key_def)
  have flush: "local_change cid u (start_pump cid (flush_eof cid u))" for u
    using local_refl [of cid u] local_trans [OF local_trans [OF local_upd local_emit]
      local_upd, of _ cid "Host_eof cid" _ u]
    by (auto simp: flush_eof_def start_pump_def intro: local_upd)
  have flushed: "obj_ok (start_pump cid (flush_eof cid u)) cid"
    if "u = ?s3 \<or> ?held = [] \<and> u = ?s2" for u
    using that de l
    by (intro obj_ok_attachedI; elim disjE conjE)
      (auto simp: start_pump_def flush_eof_def attach_def discard_key_def attached_phase_def
        deferred_phase_def accounted_def)
  have fin: "kept cid s (start_pump cid (flush_eof cid u))"
    if "u = ?s3 \<or> ?held = [] \<and> u = ?s2" "local_change cid s u" for u
    using flushed [OF that(1)] local_trans [OF that(2) flush] by (simp add: kept_def)
  show ?thesis
    using closes [OF cl(1) l1] closes [OF cl(2) l3] fin [OF _ l3] fin [OF _ l2] live1
    by (simp add: deferred_done_def attach_def Let_def)
qed

section \<open>The whole manager\<close>

lemma nat_inv_obj: "nat_inv s \<Longrightarrow> cid < next_cid s \<Longrightarrow> obj_ok s cid"
  by (simp add: nat_inv_def)

lemma nat_inv_found:
  assumes "nat_inv s" "dict_get (conns s) k = Some cid"
  shows "cid < next_cid s" "conn_key (objs s cid) = k" "obj_ok s cid" "state (objs s cid) \<noteq> CLOSED"
proof -
  show c: "cid < next_cid s" "conn_key (objs s cid) = k"
    using assms unfolding nat_inv_def by blast+
  then show o: "obj_ok s cid" using assms by (simp add: nat_inv_obj)
  then show "state (objs s cid) \<noteq> CLOSED" using assms c by (simp add: obj_ok_def Let_def)
qed

lemma nat_inv_waiting: "nat_inv s \<Longrightarrow> waiting s cid = Some args \<Longrightarrow> cid < next_cid s"
  by (rule ccontr) (auto simp: nat_inv_def)

lemma waiting_active: "waiting s cid = Some args \<Longrightarrow> active s cid"
  by (simp add: active_def in_progress_def)

lemma nat_inv_fine:
  "nat_inv s \<Longrightarrow> cid < next_cid s \<Longrightarrow> active s cid \<Longrightarrow> fine cid s m \<Longrightarrow>
   \<exists>s'. m = (None, s') \<and> nat_inv s'"
  by (auto simp: fine_def intro: nat_inv_local)

lemma nat_inv_kept:
  "nat_inv s \<Longrightarrow> cid < next_cid s \<Longrightarrow> active s cid \<Longrightarrow> kept cid s s' \<Longrightarrow> nat_inv s'"
  by (auto simp: kept_def intro: nat_inv_local)

lemma nat_inv_emit: "(\<And>c. written c [a] = []) \<Longrightarrow> nat_inv (emit a s) \<longleftrightarrow> nat_inv s"
  by (simp add: nat_inv_def obj_ok_emit active_def in_progress_def)

lemma nat_inv_close:
  assumes "nat_inv s" "cid < next_cid s"
  shows "nat_inv (close_conn cid r s) \<and> next_cid (close_conn cid r s) = next_cid s"
proof (cases "state (objs s cid) = CLOSED")
  case True
  then show ?thesis using assms by (simp add: close_conn_def)
next
  case False
  then have cl: "closable cid s" using nat_inv_obj [OF assms] by (rule obj_ok_closable [rotated])
  then have "local_change cid s (close_conn cid r s)" by (rule close_conn_local)
  moreover have "nat_inv (close_conn cid r s)"
    using False by (intro nat_inv_local [OF assms _ close_conn_local close_conn_obj_ok] cl)
      (simp add: active_def)
  ultimately show ?thesis by (simp add: local_change_def)
qed

lemma nat_inv_conns:
  assumes inv: "nat_inv s"
  shows "\<forall>cid \<in> set (map snd (conns s)). cid < next_cid s"
proof
  fix cid
  assume "cid \<in> set (map snd (conns s))"
  then obtain k where "(k, cid) \<in> set (conns s)" by auto
  then have "dict_get (conns s) k = Some cid"
    using inv by (simp add: nat_inv_def dict_get_def dict_ok_def dict_keys_def)
  then show "cid < next_cid s" by (rule nat_inv_found(1) [OF inv])
qed

lemma nat_inv_shutdown: "nat_inv s \<Longrightarrow> nat_inv (shutdown s)"
proof -
  assume inv: "nat_inv s"
  have "nat_inv (fold (\<lambda>cid. close_conn cid True) cs u)"
    if "nat_inv u" "\<forall>cid \<in> set cs. cid < next_cid u" for cs u
    using that by (induction cs arbitrary: u) (auto simp: nat_inv_close)
  then show ?thesis using inv nat_inv_conns [OF inv] by (simp add: shutdown_def)
qed

lemma wf_new_conn:
  assumes "length mac = 6" "wf_ipv4 ip" "parsed_tcp t" "0 \<le> isn" "isn < 4294967296"
  shows "wf_conn (new_conn mac ip t isn now)"
  using assms opt_mss_range [of TCP_MSS "tcp_options t"]
  by (auto simp: wf_conn_def new_conn_def wf_ipv4_def parsed_tcp_def negotiated_mss_def
      Let_def tunable_defs)

lemma new_conn_key [simp]:
  "conn_key (new_conn mac ip t isn now) = flow_key_of ip t"
  "dst_ip (new_conn mac ip t isn now) = ip_dst ip"
  "conn_dst_port (new_conn mac ip t isn now) = dst_port t"
  by (simp_all add: conn_key_def new_conn_def flow_key_of_def)

text \<open>The object a SYN allocates.\<close>

definition allocated :: "bytes \<Rightarrow> ipv4 \<Rightarrow> tcp \<Rightarrow> int \<Rightarrow> real \<Rightarrow> tcp_nat \<Rightarrow> tcp_nat" where
  "allocated mac ip t isn now s =
     s\<lparr>objs := (objs s)(next_cid s := new_conn mac ip t isn now), next_cid := next_cid s + 1,
       connecting := insert (flow_key_of ip t) (connecting s),
       waiting := (waiting s)(next_cid s := Some (mac, ip, t))\<rparr>"

lemma nat_inv_allocated:
  assumes inv: "nat_inv s" and a: "length mac = 6" "wf_ipv4 ip" "parsed_tcp t" "0 \<le> isn" "isn < 4294967296"
    and k: "flow_key_of ip t \<notin> connecting s" "dict_get (conns s) (flow_key_of ip t) = None"
  shows "nat_inv (allocated mac ip t isn now s)"
proof -
  let ?n = "next_cid s" and ?c = "new_conn mac ip t isn now" and ?k = "flow_key_of ip t"
  let ?s = "allocated mac ip t isn now s"
  have c: "wf_conn ?c" "conn_key ?c = ?k" "new_phase ?c" "host_reader ?c = host_writer ?c"
    "state ?c = CLOSED" "accounted ?n ?c []"
    using a by (simp_all add: wf_new_conn)
      (simp_all add: new_conn_def new_phase_def accounted_def fin_count_def)
  have w: "written ?n (trace s) = []" using inv by (simp add: nat_inv_def)
  have other: "cid \<noteq> ?n" if "cid < ?n" for cid using that by simp
  have no_n: "dict_get (conns s) k' \<noteq> Some ?n" for k'
    using nat_inv_found(1) [OF inv, of k' ?n] by auto
  have key: "conn_key (objs s cid) \<noteq> ?k" if "cid < ?n" "active s cid" for cid
  proof
    assume e: "conn_key (objs s cid) = ?k"
    have o: "obj_ok s cid" using inv that(1) by (rule nat_inv_obj)
    show False using o that(2) e k by (auto simp: obj_ok_def active_def Let_def)
  qed
  have act: "active ?s cid \<longleftrightarrow> active s cid" if "cid < ?n" for cid
    using that by (simp add: active_def in_progress_def allocated_def)
  have "obj_ok ?s cid" if "cid < ?n + 1" for cid
  proof (cases "cid = ?n")
    case True
    then show ?thesis
      using c a w no_n
      by (simp add: obj_ok_def allocated_def args_ok_def in_progress_def) (simp add: new_conn_def)
  next
    case False
    then have "obj_ok s cid" using that inv by (intro nat_inv_obj) simp_all
    with False show ?thesis by (auto simp: obj_ok_def allocated_def in_progress_def Let_def)
  qed
  moreover have "cid = cid'"
    if "cid < ?n + 1" "cid' < ?n + 1" "active ?s cid" "active ?s cid'"
      "conn_key (objs ?s cid) = conn_key (objs ?s cid')" for cid cid'
  proof (cases "cid = ?n \<or> cid' = ?n")
    case True
    then show ?thesis
      using that key [of cid] key [of cid'] act [of cid] act [of cid'] c(2)
      by (auto simp: allocated_def less_Suc_eq split: if_splits)
  next
    case False
    then have "cid < ?n" "cid' < ?n" using that by simp_all
    moreover have "\<forall>c1 < ?n. \<forall>c2 < ?n. active s c1 \<longrightarrow> active s c2 \<longrightarrow>
        conn_key (objs s c1) = conn_key (objs s c2) \<longrightarrow> c1 = c2"
      using inv by (simp add: nat_inv_def)
    ultimately show ?thesis using that act by (simp add: allocated_def other)
  qed
  moreover have "cid < ?n + 1 \<and> conn_key (objs ?s cid) = k'" if "dict_get (conns ?s) k' = Some cid" for k' cid
    using nat_inv_found(1,2) [OF inv, of k' cid] that by (auto simp: allocated_def)
  moreover have "dict_ok (conns ?s)" "\<forall>cid \<ge> ?n + 1. waiting ?s cid = None \<and> written cid (trace ?s) = []"
    using inv by (simp_all add: nat_inv_def allocated_def)
  moreover have "next_cid ?s = ?n + 1" by (simp add: allocated_def)
  ultimately show ?thesis unfolding nat_inv_def by (simp only:) blast
qed

lemma on_passive_syn_cases:
  "on_passive_syn env isn now mac ip t s =
     (let host = dial_host (ip_dst ip); (allowed, reason) = is_allowed_dst env host (dst_port t)
      in if \<not> allowed
         then send_rst mac ip t (emit (Egress ''blocked'' host (dst_port t) reason) s)
         else (None, emit (Dial (next_cid s) host (dst_port t))
                (allocated mac ip t isn now (emit (Egress ''allowed'' host (dst_port t) ''ok'') s))))"
  by (simp add: on_passive_syn_def allocated_def Let_def emit_def split: prod.split)

lemma on_passive_syn_inv:
  assumes inv: "nat_inv s" and a: "length mac = 6" "wf_ipv4 ip" "parsed_tcp t" "0 \<le> isn" "isn < 4294967296"
    and k: "flow_key_of ip t \<notin> connecting s" "dict_get (conns s) (flow_key_of ip t) = None"
  shows "\<exists>s'. on_passive_syn env isn now mac ip t s = (None, s') \<and> nat_inv s'"
  using nat_inv_allocated [OF _ a, of "emit _ s"] inv k a(1-3)
  by (auto simp: on_passive_syn_cases Let_def send_rst_eq nat_inv_emit split: prod.splits)

text \<open>No segment makes the handler raise, and the invariant survives it.\<close>

lemma handle_chip_segment_inv:
  assumes inv: "nat_inv s" and a: "length mac = 6" "wf_ipv4 ip" "parsed_tcp t" "0 \<le> isn" "isn < 4294967296"
  shows "\<exists>s'. handle_chip_segment env isn now wr mac ip t s = (None, s') \<and> nat_inv s'"
proof (cases "dict_get (conns s) (flow_key_of ip t)")
  case None
  then show ?thesis
    using inv on_passive_syn_inv [OF inv a _ None] a(1-3)
    by (auto simp: handle_chip_segment_def Let_def send_rst_eq nat_inv_emit)
next
  case (Some cid)
  note f = nat_inv_found [OF inv Some]
  have "\<exists>s'. on_segment wr cid t s = (None, s') \<and> nat_inv s'"
    using f by (intro nat_inv_fine [OF inv _ _ on_segment_fine]) (simp_all add: active_def)
  then show ?thesis
    using Some nat_inv_close [OF inv f(1), of False] by (auto simp: handle_chip_segment_def Let_def)
qed

lemma nat_inv_step:
  assumes inv: "nat_inv s" and step: "nat_step env s e s'"
  shows "nat_inv s'"
proof -
  have obj: "obj_ok s cid" if "cid < next_cid s" for cid using inv that by (rule nat_inv_obj)
  have run: "nat_inv (snd m)" if "cid < next_cid s" "active s cid" "fine cid s m" for cid m
    using nat_inv_fine [OF inv that] by auto
  have pump_active: "active s cid"
    if "cid < next_cid s" "host_pump_task (objs s cid) \<in> {Some Pump_wait, Some Pump_read}" for cid
    using pump_attached(2) [OF obj [OF that(1)]] that(2) by (auto simp: active_def)
  show ?thesis
    using step
  proof (cases rule: nat_step.cases)
    case (step_segment mac ip t isn now wr)
    then show ?thesis using handle_chip_segment_inv [OF inv] by (metis snd_conv)
  next
    case (step_answered cid args net)
    note n = nat_inv_waiting [OF inv step_answered(3)]
    show ?thesis
      unfolding step_answered(2)
      by (rule run [OF n waiting_active [OF step_answered(3)]
          syn_answered_fine [OF obj [OF n] step_answered(3)]])
  next
    case (step_grace cid args)
    note n = nat_inv_waiting [OF inv step_grace(3)]
    show ?thesis
      unfolding step_grace(2)
      by (rule run [OF n waiting_active [OF step_grace(3)] syn_grace_fine [OF obj [OF n] step_grace(3)]])
  next
    case (step_deferred_start cid)
    then show ?thesis using nat_inv_kept [OF inv] obj deferred_start_kept
      by (simp add: active_def in_progress_def)
  next
    case (step_deferred_done cid net wr)
    then show ?thesis using nat_inv_kept [OF inv] obj deferred_done_kept
      by (simp add: active_def in_progress_def)
  next
    case (step_deferred_cancelled cid)
    then show ?thesis using nat_inv_kept [OF inv] obj deferred_cancelled_kept
      by (simp add: active_def in_progress_def)
  next
    case (step_pump_wake cid)
    then show ?thesis using nat_inv_kept [OF inv] obj pump_active pump_wake_kept by simp
  next
    case (step_pump_chunk cid now avail)
    then show ?thesis using nat_inv_kept [OF inv] obj pump_active pump_chunk_kept by simp
  next
    case (step_pump_error cid e)
    then show ?thesis using nat_inv_kept [OF inv] obj pump_active pump_error_kept by simp
  next
    case step_shutdown
    then show ?thesis using nat_inv_shutdown [OF inv] by simp
  qed
qed

end
