(* ===== verification/Tcp_Progress.thy ===== *)
theory Tcp_Progress
  imports Tcp_Steps "HOL-Library.Sublist"
begin

text \<open>
  What a step may do to a connection: its state only moves forward, and the bytes accepted
  from the chip only grow, by the payload of an in-order segment. The NAT is interpreted as
  a machine with progress, and the properties of its runs follow from the contract.
\<close>

section \<open>Effects of the primitives\<close>

lemma snd_andthen: "snd (andthen m f) = (case fst m of None \<Rightarrow> snd (f (snd m)) | Some _ \<Rightarrow> snd m)"
  by (simp add: andthen_def split: prod.splits option.splits)

lemma inject_simps [simp]:
  "objs (snd (inject f s)) = objs s" "written c (trace (snd (inject f s))) = written c (trace s)"
  "waiting (snd (inject f s)) = waiting s"
  by (simp_all add: inject_def split: sum.splits)

lemma send_simps [simp]:
  "objs (snd (send cid fl sq ak opts payload s)) = objs s"
  "written c (trace (snd (send cid fl sq ak opts payload s))) = written c (trace s)"
  "objs (snd (ack_only cid s)) = objs s" "written c (trace (snd (ack_only cid s))) = written c (trace s)"
  "objs (snd (send_rst mac ip t s)) = objs s" "waiting (snd (send_rst mac ip t s)) = waiting s"
  "waiting (snd (send cid fl sq ak opts payload s)) = waiting s"
  "waiting (snd (ack_only cid s)) = waiting s"
  "written c (trace (snd (send_rst mac ip t s))) = written c (trace s)"
  by (simp_all add: send_def ack_only_def send_rst_def)

text \<open>Everything accepted from the chip: written to the host, or held for it.\<close>

definition accepted :: "nat \<Rightarrow> tcp_nat \<Rightarrow> bytes" where
  "accepted cid s = written cid (trace s) @ pending_payload (objs s cid)"

definition moves :: "nat \<Rightarrow> tcp_nat \<Rightarrow> tcp_nat \<Rightarrow> bool" where
  "moves cid s s' \<longleftrightarrow> state (objs s cid) \<le> state (objs s' cid) \<and>
     chip_isn (objs s' cid) = chip_isn (objs s cid) \<and> accepted cid s' = accepted cid s \<and>
     waiting s' cid = waiting s cid"

lemma moves_refl: "moves cid s s"
  by (simp add: moves_def)

lemma moves_trans: "moves cid s t \<Longrightarrow> moves cid t u \<Longrightarrow> moves cid s u"
  by (auto simp: moves_def intro: order_trans)

lemma moves_emit: "written cid [a] = [] \<Longrightarrow> moves cid s (emit a s)"
  by (simp add: moves_def accepted_def)

lemma moves_send: "moves cid s (snd (inject f s))" "moves cid s (snd (send cid' fl sq ak opts p s))"
  "moves cid s (snd (ack_only cid' s))" "moves cid s (snd (send_rst mac ip t s))"
  by (simp_all add: moves_def accepted_def)

lemma moves_upd:
  "state (objs s cid) \<le> state (f (objs s cid)) \<Longrightarrow> chip_isn (f (objs s cid)) = chip_isn (objs s cid) \<Longrightarrow>
   pending_payload (f (objs s cid)) = pending_payload (objs s cid) \<Longrightarrow> moves cid s (upd cid f s)"
  by (simp add: moves_def accepted_def)

lemma moves_andthen:
  "moves cid s (snd m) \<Longrightarrow> (\<And>s'. m = (None, s') \<Longrightarrow> moves cid s' (snd (f s'))) \<Longrightarrow>
   moves cid s (snd (andthen m f))"
  by (cases m) (auto simp: snd_andthen intro: moves_trans split: option.splits)

lemma close_conn_moves: "moves cid s (close_conn cid r s)"
  by (simp add: close_conn_def moves_def accepted_def Let_def split: option.splits sum.splits)

lemma on_fin_moves:
  "state (objs s cid) \<le> CLOSE_WAIT \<Longrightarrow> moves cid s (snd (on_fin cid s))"
  unfolding on_fin_def Let_def
  by (rule moves_trans [OF _ moves_send(3)]) (simp add: moves_def accepted_def split: option.split)

lemma maybe_fin_moves:
  "state (objs s cid) \<le> CLOSE_WAIT \<Longrightarrow> moves cid s (snd (maybe_fin cid t s))"
  by (simp add: maybe_fin_def on_fin_moves moves_refl)

lemma fin_and_close_moves: "moves cid s (snd (fin_and_close cid t s))"
proof -
  let ?s = "upd cid (\<lambda>c. c\<lparr>chip_seq := seq_add (chip_seq c) 1\<rparr>) s"
  have "moves cid s (snd (ack_only cid ?s))"
    by (rule moves_trans [OF moves_upd moves_send(3)]) simp_all
  then show ?thesis
    unfolding fin_and_close_def
    by (auto intro!: moves_andthen close_conn_moves simp: moves_refl)
qed

section \<open>Segments\<close>

text \<open>A segment either leaves the accepted bytes alone or adds its payload, when it is next.\<close>

definition takes :: "nat \<Rightarrow> tcp \<Rightarrow> tcp_nat \<Rightarrow> tcp_nat \<Rightarrow> bool" where
  "takes cid t s s' \<longleftrightarrow> state (objs s cid) \<le> state (objs s' cid) \<and>
     chip_isn (objs s' cid) = chip_isn (objs s cid) \<and> waiting s' cid = waiting s cid \<and>
     (accepted cid s' = accepted cid s \<or>
      tcp_payload t \<noteq> [] \<and> seq_no t = chip_seq (objs s cid) \<and> state (objs s cid) \<le> ESTABLISHED \<and>
      accepted cid s' = accepted cid s @ tcp_payload t)"

lemma takes_moves: "moves cid s s' \<Longrightarrow> takes cid t s s'"
  by (simp add: takes_def moves_def)

lemma takes_then_moves: "takes cid t s s' \<Longrightarrow> moves cid s' s'' \<Longrightarrow> takes cid t s s''"
  by (auto simp: takes_def moves_def intro: order_trans)

lemma accept_takes:
  assumes "state (objs s cid) = ESTABLISHED"
  shows "moves cid s (snd (accept_payload cid t s))"
proof -
  let ?s = "upd cid (\<lambda>c. c\<lparr>chip_seq := seq_add (chip_seq c) (int (length (tcp_payload t)))\<rparr>) s"
  have "moves cid s (snd (ack_only cid ?s))"
    by (rule moves_trans [OF moves_upd moves_send(3)]) simp_all
  moreover have "moves cid s' (snd (maybe_fin cid t s'))" if "ack_only cid ?s = (None, s')" for s'
  proof -
    have "objs s' = objs ?s" using that send_simps(3) [of cid ?s] by simp
    then show ?thesis using assms by (intro maybe_fin_moves) simp
  qed
  ultimately show ?thesis
    unfolding accept_payload_def by (rule moves_andthen)
qed

lemma on_data_takes:
  assumes st: "state (objs s cid) = ESTABLISHED"
    and w: "host_writer (objs s cid) = None \<or>
      host_writer (objs s cid) = Some cid \<and> pending_payload (objs s cid) = []"
  shows "takes cid t s (snd (on_data wr cid t s))"
proof (cases "tcp_payload t \<noteq> [] \<and> seq_no t = chip_seq (objs s cid)")
  case False
  then show ?thesis
    using takes_moves [OF moves_send(3)] takes_moves [OF maybe_fin_moves] st
    by (auto simp: on_data_def)
next
  case True
  let ?held = "upd cid (\<lambda>c. c\<lparr>pending_payload := pending_payload c @ tcp_payload t\<rparr>) s"
  let ?wrote = "emit (Host_write cid (tcp_payload t)) s"
  have "takes cid t s ?held" using True st by (simp add: takes_def accepted_def)
  then have "takes cid t s (snd (accept_payload cid t ?held))"
    by (rule takes_then_moves) (rule accept_takes, simp add: st)
  moreover have "takes cid t s ?wrote" if "pending_payload (objs s cid) = []"
    using True st that by (simp add: takes_def accepted_def)
  then have "takes cid t s (snd (accept_payload cid t ?wrote))"
      "takes cid t s (close_conn cid True ?wrote)" if "pending_payload (objs s cid) = []"
    using that accept_takes close_conn_moves st by (auto intro: takes_then_moves)
  ultimately show ?thesis using True w by (auto simp: on_data_def Let_def)
qed

lemma on_segment_takes:
  assumes ok: "obj_ok s cid" and st: "state (objs s cid) \<noteq> CLOSED"
  shows "takes cid t s (snd (on_segment wr cid t s))"
proof -
  let ?s = "upd cid (chip_window_update (\<lambda>_. window t)) s"
  let ?e = "upd cid (state_update (\<lambda>_. ESTABLISHED)) ?s"
  let ?f = "upd cid (state_update (\<lambda>_. FIN_WAIT_2)) ?s"
  have w: "host_writer (objs s cid) = None \<or>
      host_writer (objs s cid) = Some cid \<and> pending_payload (objs s cid) = []"
    using obj_ok_live(3) [OF ok st] by (auto simp: phase_defs)
  have s: "moves cid s ?s" by (rule moves_upd) simp_all
  have start: "takes cid t s u" if "takes cid t ?s u" for u
    using that by (simp add: takes_def accepted_def)
  show ?thesis
  proof (cases "state (objs s cid)")
    case SYN_RCVD
    have "takes cid t ?e (snd (on_data wr cid t ?e))" using w by (intro on_data_takes) simp_all
    then have "takes cid t ?s (snd (on_data wr cid t ?e))"
      using SYN_RCVD by (auto simp: takes_def accepted_def)
    then have "takes cid t s (snd (on_data wr cid t ?e))" by (rule start)
    moreover have e: "moves cid ?s ?e" using SYN_RCVD by (intro moves_upd) simp_all
    have "takes cid t s ?s" "takes cid t s ?e"
      using takes_moves [OF s] takes_moves [OF moves_trans [OF s e]] by simp_all
    moreover have "snd (on_segment wr cid t s) \<in> {?s, ?e, snd (on_data wr cid t ?e)}"
      using SYN_RCVD by (simp add: on_segment_def on_handshake_complete_def Let_def)
    ultimately show ?thesis by (elim insertE) (simp_all only: empty_iff)
  next
    case ESTABLISHED
    have "takes cid t ?s (snd (on_data wr cid t ?s))"
      using w ESTABLISHED by (intro on_data_takes) simp_all
    then show ?thesis using ESTABLISHED start by (simp add: on_segment_def Let_def)
  next
    case FIN_WAIT_1
    have "moves cid ?s ?f" using FIN_WAIT_1 by (intro moves_upd) simp_all
    then have "moves cid ?s (snd (fin_and_close cid t ?f))" by (rule moves_trans [OF _ fin_and_close_moves])
    then show ?thesis
      using FIN_WAIT_1 start takes_moves fin_and_close_moves
      by (auto simp: on_segment_def on_fin_wait_1_def Let_def)
  next
    case FIN_WAIT_2
    then show ?thesis
      using start takes_moves fin_and_close_moves by (simp add: on_segment_def on_fin_wait_2_def Let_def)
  next
    case LAST_ACK
    then show ?thesis
      using start takes_moves close_conn_moves takes_moves [OF s] by (simp add: on_segment_def Let_def)
  qed (use st takes_moves [OF s] in \<open>simp_all add: on_segment_def Let_def\<close>)
qed

section \<open>The pump and the deferred connect\<close>

lemma pump_guard_moves: "moves cid s (snd m) \<Longrightarrow> moves cid s (pump_guard cid m)"
proof -
  assume m: "moves cid s (snd m)"
  have "moves cid u (upd cid (host_pump_task_update (\<lambda>_. Some Pump_done)) (close_conn cid True u))" for u
    by (rule moves_trans [OF close_conn_moves moves_upd]) simp_all
  then show ?thesis
    using m by (cases m) (auto simp: pump_guard_def intro: moves_trans split: option.split)
qed

lemma moves_pump: "moves cid s (upd cid (host_pump_task_update f) s)"
  by (rule moves_upd) simp_all

lemma send_fin_moves:
  "state (objs s cid) \<le> st \<Longrightarrow> moves cid s (snd (send_fin cid st s))"
proof -
  assume st: "state (objs s cid) \<le> st"
  let ?s = "upd cid (state_update (\<lambda>_. st)) s"
  have s: "moves cid s ?s" using st by (intro moves_upd) simp_all
  have "moves cid ?s (snd (send cid (TCP_ACK OR TCP_FIN) (our_seq (objs ?s cid))
      (chip_seq (objs ?s cid)) [] [] ?s))"
    by (rule moves_send)
  then have "moves cid s (snd (send cid (TCP_ACK OR TCP_FIN) (our_seq (objs ?s cid))
      (chip_seq (objs ?s cid)) [] [] ?s))"
    by (rule moves_trans [OF s])
  then show ?thesis
    unfolding send_fin_def Let_def by (rule moves_andthen) (auto intro: moves_upd)
qed

lemma pump_finish_moves: "moves cid s (snd (pump_finish cid s))"
  unfolding pump_finish_def
  by (rule moves_andthen) (auto intro: send_fin_moves moves_pump simp: moves_refl)

lemma pump_loop_moves: "moves cid s (snd (pump_loop cid s))"
  by (simp add: pump_loop_def pump_finish_moves moves_pump)

lemma pump_wake_moves: "moves cid s (pump_wake cid s)"
  by (simp add: pump_wake_def moves_refl pump_guard_moves pump_loop_moves)

lemma pump_chunk_moves:
  assumes wf: "wf_conn (objs s cid)"
  shows "moves cid s (pump_chunk cid now avail s)"
proof -
  let ?chunk = "read_chunk (mss (objs s cid)) avail"
  have "moves cid s (data_sent cid now ?chunk s)"
    unfolding data_sent_def Let_def
    by (rule moves_trans [OF moves_emit moves_upd]) simp_all
  moreover have "send_segments cid now ?chunk s = (None, data_sent cid now ?chunk s)" if "?chunk \<noteq> []"
    using wf that by (intro send_segments_one) (auto intro!: read_chunk_length simp: wf_conn_def)
  ultimately show ?thesis
    unfolding pump_chunk_def Let_def
    using moves_trans [OF _ pump_loop_moves] by (intro pump_guard_moves) (auto simp: pump_finish_moves)
qed

lemma pump_error_moves: "moves cid s (pump_error cid e s)"
  by (simp add: pump_error_def pump_guard_moves moves_refl)

lemma deferred_done_moves: "moves cid s (deferred_done cid opened wr s)"
proof -
  let ?s1 = "upd cid (pending_connect_update (\<lambda>_. None)) (discard_key cid s)"
  let ?s2 = "attach cid ?s1"
  let ?s3 = "emit (Host_write cid (pending_payload (objs ?s2 cid)))
      (upd cid (pending_payload_update (\<lambda>_. [])) ?s2)"
  have 1: "moves cid s ?s1" by (simp add: moves_def accepted_def discard_key_def)
  have 2: "moves cid s ?s2" by (simp add: moves_def accepted_def discard_key_def attach_def)
  have 3: "moves cid s ?s3" by (simp add: moves_def accepted_def discard_key_def attach_def)
  have f: "moves cid u (start_pump cid (flush_eof cid u))" for u
    by (simp add: moves_def accepted_def start_pump_def flush_eof_def)
  show ?thesis
    using moves_trans [OF 1 close_conn_moves] moves_trans [OF 2 f] moves_trans [OF 3 f]
      moves_trans [OF 3 close_conn_moves] 1 moves_trans [OF 1 moves_emit]
    by (simp add: deferred_done_def Let_def)
qed

lemma deferred_start_moves: "moves cid s (deferred_start cid s)"
  unfolding deferred_start_def by (rule moves_upd) simp_all

lemma deferred_cancelled_moves: "moves cid s (deferred_cancelled cid s)"
  by (simp add: moves_def accepted_def deferred_cancelled_def discard_key_def)

lemma register_accepted:
  "accepted cid (snd (register_conn cid s)) = accepted cid s"
  "chip_isn (objs (snd (register_conn cid s)) cid) = chip_isn (objs s cid)"
  by (simp_all add: register_conn_def snd_andthen accepted_def Let_def split: option.split)

lemma syn_accepted:
  "accepted cid (snd (syn_answered cid args opened s)) = accepted cid s"
  "chip_isn (objs (snd (syn_answered cid args opened s)) cid) = chip_isn (objs s cid)"
  "accepted cid (snd (syn_grace cid s)) = accepted cid s"
  "chip_isn (objs (snd (syn_grace cid s)) cid) = chip_isn (objs s cid)"
  by (simp_all add: syn_answered_def syn_grace_def register_accepted Let_def split: prod.split)
    (simp_all add: accepted_def attach_def discard_key_def end_wait_def)

section \<open>The effect of a step on every connection\<close>

text \<open>The in-order payload an event may add to the accepted bytes of a connection.\<close>

definition offers :: "event \<Rightarrow> tcp_nat \<Rightarrow> nat \<Rightarrow> bytes \<Rightarrow> bool" where
  "offers e s cid p \<longleftrightarrow> (\<exists>isn now wr mac ip t. e = Segment isn now wr mac ip t \<and>
     dict_get (conns s) (flow_key_of ip t) = Some cid \<and> p = tcp_payload t \<and> p \<noteq> [] \<and>
     seq_no t = chip_seq (objs s cid) \<and> state (objs s cid) \<le> ESTABLISHED)"

text \<open>How far a connection has come: nothing before it is registered, then its state.\<close>

definition progress :: "tcp_nat \<Rightarrow> nat \<Rightarrow> tcp_state option" where
  "progress s cid =
     (if cid < next_cid s \<and> waiting s cid = None then Some (state (objs s cid)) else None)"

definition effect :: "event \<Rightarrow> tcp_nat \<Rightarrow> tcp_nat \<Rightarrow> nat \<Rightarrow> bool" where
  "effect e s s' cid \<longleftrightarrow>
     progress s cid \<le> progress s' cid \<and>
     (cid < next_cid s \<longrightarrow> cid < next_cid s' \<and> conn_key (objs s' cid) = conn_key (objs s cid) \<and>
        chip_isn (objs s' cid) = chip_isn (objs s cid) \<and>
        (accepted cid s' = accepted cid s \<or>
         (\<exists>p. offers e s cid p \<and> accepted cid s' = accepted cid s @ p))) \<and>
     (next_cid s \<le> cid \<longrightarrow> cid < next_cid s' \<longrightarrow> accepted cid s' = [])"

lemma effect_local:
  assumes ch: "local_change cid s s'" and n: "cid < next_cid s"
    and w: "waiting s cid = None \<Longrightarrow> waiting s' cid = None \<and> state (objs s cid) \<le> state (objs s' cid)"
    and isn: "chip_isn (objs s' cid) = chip_isn (objs s cid)"
    and acc: "accepted cid s' = accepted cid s \<or>
      (\<exists>p. offers e s cid p \<and> accepted cid s' = accepted cid s @ p)"
  shows "effect e s s' c"
proof (cases "c = cid")
  case True
  have "conn_key (objs s' cid) = conn_key (objs s cid)" "next_cid s' = next_cid s"
    using ch by (simp_all add: local_change_def)
  then show ?thesis using True assms by (auto simp: effect_def progress_def)
next
  case False
  have o: "objs s' c = objs s c" "waiting s' c = waiting s c"
    "written c (trace s') = written c (trace s)" "next_cid s' = next_cid s"
    using ch False by (simp_all add: local_change_def)
  then show ?thesis by (simp add: effect_def progress_def accepted_def)
qed

lemma effect_moves:
  assumes "local_change cid s s'" "cid < next_cid s" "moves cid s s'"
  shows "effect e s s' c"
  using assms by (intro effect_local [OF assms(1,2)]) (simp_all add: moves_def)

lemma effect_silent:
  "moves c s s' \<Longrightarrow> next_cid s' = next_cid s \<Longrightarrow> conn_key (objs s' c) = conn_key (objs s c) \<Longrightarrow>
   effect e s s' c"
  by (auto simp: effect_def moves_def progress_def)

lemma close_conn_any:
  "moves c s (close_conn cid r s)" "next_cid (close_conn cid r s) = next_cid s"
  "conn_key (objs (close_conn cid r s) c) = conn_key (objs s c)"
  by (simp_all add: close_conn_def moves_def accepted_def Let_def split: option.splits sum.splits)

lemma shutdown_effect: "effect e s (shutdown s) c"
proof -
  have "moves c u (fold (\<lambda>cid. close_conn cid True) cs u) \<and>
      next_cid (fold (\<lambda>cid. close_conn cid True) cs u) = next_cid u \<and>
      conn_key (objs (fold (\<lambda>cid. close_conn cid True) cs u) c) = conn_key (objs u c)" for cs u
  proof (induction cs arbitrary: u)
    case (Cons cid cs)
    show ?case
      using Cons [of "close_conn cid True u"] moves_trans [OF close_conn_any(1) [of c u cid True]] close_conn_any(2,3)
      by simp
  qed (simp add: moves_refl)
  then show ?thesis by (intro effect_silent) (simp_all add: shutdown_def)
qed

lemma emit_effect:
  assumes "\<And>c. written c [a] = []"
  shows "effect e s (emit a s) c"
  using assms by (intro effect_silent moves_emit) simp_all

lemma fine_takes_effect:
  assumes f: "fine cid s m" and t: "takes cid t s (snd m)" and n: "cid < next_cid s"
    and ev: "e = Segment isn now wr mac ip t" and k: "dict_get (conns s) (flow_key_of ip t) = Some cid"
  shows "effect e s (snd m) c"
proof -
  have "local_change cid s (snd m)" using f by (auto simp: fine_def)
  then show ?thesis
    using t k ev by (intro effect_local [OF _ n]) (auto simp: takes_def offers_def)
qed

lemma segment_effect:
  assumes inv: "nat_inv s" and a: "length mac = 6" "wf_ipv4 ip" "parsed_tcp t"
    and ev: "e = Segment isn now wr mac ip t"
  shows "effect e s (snd (handle_chip_segment env isn now wr mac ip t s)) c"
proof (cases "dict_get (conns s) (flow_key_of ip t)")
  case (Some cid)
  note f = nat_inv_found [OF inv Some]
  have "effect e s (snd (on_segment wr cid t s)) c"
    using on_segment_fine on_segment_takes f
    by (intro fine_takes_effect [OF _ _ f(1) ev Some]) simp_all
  moreover have "effect e s (close_conn cid False s) c"
    by (intro effect_silent close_conn_any)
  ultimately show ?thesis using Some by (simp add: handle_chip_segment_def Let_def)
next
  case None
  let ?host = "dial_host (ip_dst ip)"
  have "effect e s (snd (on_passive_syn env isn now mac ip t s)) c"
  proof (cases "fst (is_allowed_dst env ?host (dst_port t))")
    case False
    then show ?thesis
      using a by (auto simp: on_passive_syn_cases Let_def send_rst_eq split: prod.split
        intro!: effect_silent moves_trans [OF moves_emit moves_emit])
  next
    case True
    let ?s = "emit (Egress ''allowed'' ?host (dst_port t) ''ok'') s"
    have "snd (on_passive_syn env isn now mac ip t s) =
        emit (Dial (next_cid s) ?host (dst_port t)) (allocated mac ip t isn now ?s)"
      using True by (auto simp: on_passive_syn_cases Let_def split: prod.split)
    moreover have "written c (trace s) = []" if "next_cid s \<le> c"
      using inv that by (simp add: nat_inv_def)
    ultimately show ?thesis
      by (auto simp: effect_def progress_def accepted_def allocated_def new_conn_def less_Suc_eq)
  qed
  moreover have "effect e s s c" by (intro effect_silent moves_refl) simp_all
  ultimately show ?thesis
    using None a by (simp add: handle_chip_segment_def Let_def send_rst_eq emit_effect)
qed

lemma step_effect:
  assumes inv: "nat_inv s" and step: "nat_step env s e s'"
  shows "effect e s s' c"
proof -
  have obj: "obj_ok s cid" if "cid < next_cid s" for cid using inv that by (rule nat_inv_obj)
  have kept: "effect e s u c" if "cid < next_cid s" "kept cid s u" "moves cid s u" for cid u
    using that by (intro effect_moves) (simp_all add: kept_def)
  have opens: "effect e s (snd m) c"
    if "waiting s cid = Some args" "fine cid s m" "accepted cid (snd m) = accepted cid s"
      "chip_isn (objs (snd m) cid) = chip_isn (objs s cid)" for cid args m
    using that nat_inv_waiting [OF inv that(1)]
    by (intro effect_local [where cid = cid]) (auto simp: fine_def)
  show ?thesis
    using step
  proof (cases rule: nat_step.cases)
    case (step_segment mac ip t isn now wr)
    then show ?thesis using segment_effect [OF inv] by simp
  next
    case (step_answered cid args net)
    show ?thesis
      unfolding step_answered(2)
      by (rule opens [OF step_answered(3)])
        (use step_answered nat_inv_waiting [OF inv] obj in \<open>simp_all add: syn_answered_fine syn_accepted\<close>)
  next
    case (step_grace cid args)
    show ?thesis
      unfolding step_grace(2)
      by (rule opens [OF step_grace(3)])
        (use syn_grace_fine [OF obj step_grace(3)] nat_inv_waiting [OF inv step_grace(3)]
          in \<open>simp_all add: syn_accepted\<close>)
  next
    case (step_deferred_start cid)
    then show ?thesis using kept obj by (simp add: deferred_start_kept deferred_start_moves)
  next
    case (step_deferred_done cid net wr)
    then show ?thesis using kept obj by (simp add: deferred_done_kept deferred_done_moves)
  next
    case (step_deferred_cancelled cid)
    then show ?thesis using kept obj by (simp add: deferred_cancelled_kept deferred_cancelled_moves)
  next
    case (step_pump_wake cid)
    then show ?thesis using kept obj by (simp add: pump_wake_kept pump_wake_moves)
  next
    case (step_pump_chunk cid now avail)
    moreover have "wf_conn (objs s cid)"
      using obj [OF step_pump_chunk(3)] by (simp add: obj_ok_def Let_def)
    ultimately show ?thesis using kept obj by (simp add: pump_chunk_kept pump_chunk_moves)
  next
    case (step_pump_error cid e')
    then show ?thesis using kept obj by (simp add: pump_error_kept pump_error_moves)
  next
    case step_shutdown
    then show ?thesis by (simp add: shutdown_effect)
  qed
qed

section \<open>The machine\<close>

interpretation nat: progress_machine nat_start "nat_step env" nat_inv progress for env
  by unfold_locales (auto intro: nat_inv_start nat_inv_step simp: step_effect [unfolded effect_def])

section \<open>What a step adds to the trace\<close>

text \<open>A dial the guard has let through, to the destination of some packet.\<close>

definition guarded :: "egress_env \<Rightarrow> nat \<times> pystr \<times> int \<Rightarrow> bool" where
  "guarded env = (\<lambda>(cid, host, port). guarded_target env host port)"

text \<open>
  Entries in order: every frame is well formed, every dial is guarded, every record tells the
  guard's verdict, and the destinations recorded as allowed are the destinations dialled.
\<close>

fun frame_entry :: "action \<Rightarrow> bool" where
  "frame_entry (Inject f) \<longleftrightarrow> frame_ok f"
| "frame_entry _ \<longleftrightarrow> True"

definition entries_ok :: "egress_env \<Rightarrow> action list \<Rightarrow> bool" where
  "entries_ok env as \<longleftrightarrow> list_all frame_entry as \<and> list_all (guarded env) (dials as) \<and>
     list_all (record_true env) (nat_records as) \<and> admitted (nat_records as) = map snd (dials as)"

definition adds :: "egress_env \<Rightarrow> tcp_nat \<Rightarrow> tcp_nat \<Rightarrow> bool" where
  "adds env s s' \<longleftrightarrow> (\<exists>as. trace s' = trace s @ as \<and> entries_ok env as)"

lemma entries_append: "entries_ok env as \<Longrightarrow> entries_ok env bs \<Longrightarrow> entries_ok env (as @ bs)"
  by (simp add: entries_ok_def)

lemma adds_refl: "adds env s s"
  by (simp add: adds_def entries_ok_def)

lemma adds_trans: "adds env s t \<Longrightarrow> adds env t u \<Longrightarrow> adds env s u"
  unfolding adds_def using entries_append by fastforce

lemma local_entries: "list_all local_action as \<Longrightarrow> dials as = [] \<and> nat_records as = [] \<and> list_all frame_entry as"
proof (induction as)
  case (Cons a as)
  then show ?case by (cases a) simp_all
qed simp

lemma local_adds: "extends local_action (trace s) (trace s') \<Longrightarrow> adds env s s'"
  by (auto simp: extends_def adds_def entries_ok_def dest: local_entries)

lemma local_dials: "extends local_action (trace s) (trace s') \<Longrightarrow> dials (trace s') = dials (trace s)"
  by (auto simp: extends_def dest: local_entries)

lemma close_conn_extends:
  assumes "nat_inv s" "cid < next_cid s"
  shows "extends local_action (trace s) (trace (close_conn cid r s))"
proof (cases "state (objs s cid) = CLOSED")
  case False
  then have "closable cid s" using nat_inv_obj [OF assms] by (rule obj_ok_closable [rotated])
  then show ?thesis using close_conn_local [of cid s r] by (simp add: local_change_def)
qed (simp add: close_conn_def)

lemma shutdown_extends:
  assumes inv: "nat_inv s"
  shows "extends local_action (trace s) (trace (shutdown s))"
proof -
  have "extends local_action (trace u) (trace (fold (\<lambda>cid. close_conn cid True) cs u))"
    if "nat_inv u" "\<forall>cid \<in> set cs. cid < next_cid u" for cs u
    using that
  proof (induction cs arbitrary: u)
    case (Cons cid cs)
    then have "extends local_action (trace u) (trace (close_conn cid True u))"
      "nat_inv (close_conn cid True u)" "next_cid (close_conn cid True u) = next_cid u"
      using close_conn_extends nat_inv_close by simp_all
    with Cons show ?case by (auto intro: extends_trans)
  qed simp
  then show ?thesis using inv nat_inv_conns [OF inv] by (simp add: shutdown_def)
qed

text \<open>Only a segment of the chip can make the manager dial.\<close>

lemma step_local:
  assumes inv: "nat_inv s" and step: "nat_step env s e s'" and e: "\<And>isn now wr mac ip t. e \<noteq> Segment isn now wr mac ip t"
  shows "extends local_action (trace s) (trace s')"
proof -
  have obj: "obj_ok s cid" if "cid < next_cid s" for cid using inv that by (rule nat_inv_obj)
  have kept: ?thesis if "kept cid s s'" for cid
    using that by (simp add: kept_def local_change_def)
  have opens: ?thesis if "fine cid s m" "s' = snd m" for cid m
    using that by (auto simp: fine_def local_change_def)
  show ?thesis
    using step
  proof (cases rule: nat_step.cases)
    case (step_answered cid args net)
    show ?thesis
      using opens [OF syn_answered_fine [OF obj step_answered(3)] step_answered(2)]
        nat_inv_waiting [OF inv step_answered(3)] by blast
  next
    case (step_grace cid args)
    show ?thesis
      using opens [OF syn_grace_fine [OF obj step_grace(3)] step_grace(2)]
        nat_inv_waiting [OF inv step_grace(3)] by blast
  next
    case step_shutdown
    then show ?thesis using shutdown_extends [OF inv] by simp
  next
    case (step_deferred_start cid)
    then show ?thesis using kept [of cid] deferred_start_kept [OF obj] by simp
  next
    case (step_deferred_done cid net wr)
    then show ?thesis using kept [of cid] deferred_done_kept [OF obj] by simp
  next
    case (step_deferred_cancelled cid)
    then show ?thesis using kept [of cid] deferred_cancelled_kept [OF obj] by simp
  next
    case (step_pump_wake cid)
    then show ?thesis using kept [of cid] pump_wake_kept [OF obj] by simp
  next
    case (step_pump_chunk cid now avail)
    then show ?thesis using kept [of cid] pump_chunk_kept [OF obj] by simp
  next
    case (step_pump_error cid e')
    then show ?thesis using kept [of cid] pump_error_kept [OF obj] by simp
  next
    case (step_segment mac ip t isn now wr)
    then show ?thesis using e by blast
  qed
qed

lemma step_dials_same:
  "nat_inv s \<Longrightarrow> nat_step env s e s' \<Longrightarrow> (\<And>isn now wr mac ip t. e \<noteq> Segment isn now wr mac ip t) \<Longrightarrow>
   dials (trace s') = dials (trace s)"
  by (rule local_dials) (rule step_local)

lemma dials_shutdown: "dials (trace (shutdown s)) = dials (trace s)"
proof -
  have "dials (trace (close_conn cid r u)) = dials (trace u)" for cid r u
    by (simp add: close_conn_def Let_def split: sum.splits option.splits)
  then have "dials (trace (fold (\<lambda>cid. close_conn cid True) cs u)) = dials (trace u)" for cs u
    by (induction cs arbitrary: u) simp_all
  then show ?thesis by (simp add: shutdown_def)
qed

lemma segment_adds:
  assumes inv: "nat_inv s" and a: "length mac = 6" "wf_ipv4 ip" "parsed_tcp t"
  shows "adds env s (snd (handle_chip_segment env isn now wr mac ip t s))"
proof (cases "dict_get (conns s) (flow_key_of ip t)")
  case (Some cid)
  note f = nat_inv_found [OF inv Some]
  have "extends local_action (trace s) (trace (snd (on_segment wr cid t s)))"
    using on_segment_fine [OF f(3,4), of wr t] by (auto simp: fine_def local_change_def)
  then show ?thesis
    using Some close_conn_extends [OF inv f(1)] local_adds
    by (simp add: handle_chip_segment_def Let_def)
next
  case None
  let ?host = "dial_host (ip_dst ip)"
  have rst: "adds env u (snd (send_rst mac ip t u))" for u
    using a by (intro local_adds) (simp add: send_rst_eq)
  have "length (ip_dst ip) = 4" using a by (simp add: wf_ipv4_def)
  moreover have "adds env s (emit (Egress ''blocked'' ?host (dst_port t) why) s)"
    if "is_allowed_dst env ?host (dst_port t) = (False, why)" for why
    using that by (simp add: adds_def entries_ok_def record_true_def)
  ultimately have "adds env s (snd (on_passive_syn env isn now mac ip t s))"
    using adds_trans [OF _ rst]
    by (cases "is_allowed_dst env ?host (dst_port t)")
      (auto simp: on_passive_syn_cases Let_def adds_def entries_ok_def guarded_def
        guarded_target_def record_true_def allocated_def)
  then show ?thesis using None rst adds_refl by (simp add: handle_chip_segment_def Let_def)
qed

lemma step_adds:
  assumes inv: "nat_inv s" and step: "nat_step env s e s'"
  shows "adds env s s'"
proof (cases "\<exists>isn now wr mac ip t. e = Segment isn now wr mac ip t")
  case True
  then show ?thesis using step segment_adds [OF inv] by (auto simp: nat_step_segment)
next
  case False
  then show ?thesis using step_local [OF inv step] by (intro local_adds) blast
qed

interpretation nat_log: logging_machine nat_start "nat_step env" nat_inv trace "entries_ok env" for env
  by unfold_locales (simp_all add: entries_ok_def, use step_adds in \<open>simp add: adds_def entries_ok_def\<close>)

lemma nat_runs_adds: "nat_inv s \<Longrightarrow> runs (nat_step env) s t \<Longrightarrow> adds env s t"
  unfolding adds_def by (rule nat_log.log_runs)

lemma guarded_runs:
  assumes "nat_inv s" "runs (nat_step env) s t" "list_all (guarded env) (dials (trace s))"
  shows "list_all (guarded env) (dials (trace t))"
  using nat_runs_adds [OF assms(1,2)] assms(3) by (auto simp: adds_def entries_ok_def)

section \<open>An honest chip\<close>

text \<open>Every data segment carries a piece of its connection's stream (\<open>piece_of\<close>).\<close>

definition honest :: "(nat \<Rightarrow> bytes) \<Rightarrow> tcp_nat \<Rightarrow> event \<Rightarrow> bool" where
  "honest streams s e \<longleftrightarrow> (\<forall>isn now wr mac ip t cid. e = Segment isn now wr mac ip t \<longrightarrow>
     dict_get (conns s) (flow_key_of ip t) = Some cid \<longrightarrow> tcp_payload t \<noteq> [] \<longrightarrow>
     piece_of (streams cid) (chip_isn (objs s cid)) t)"

definition honest_step ::
  "egress_env \<Rightarrow> (nat \<Rightarrow> bytes) \<Rightarrow> tcp_nat \<Rightarrow> event \<Rightarrow> tcp_nat \<Rightarrow> bool" where
  "honest_step env streams s e s' \<longleftrightarrow> nat_step env s e s' \<and> honest streams s e"

definition in_order :: "(nat \<Rightarrow> bytes) \<Rightarrow> tcp_nat \<Rightarrow> bool" where
  "in_order streams s \<longleftrightarrow> nat_inv s \<and> (\<forall>cid. length (streams cid) < 4294967295) \<and>
     (\<forall>cid < next_cid s. prefix (accepted cid s) (streams cid))"

lemma offered_next:
  assumes ord: "in_order streams s" and off: "offers e s cid p" and hon: "honest streams s e"
  shows "prefix (accepted cid s @ p) (streams cid)"
proof -
  obtain isn now wr mac ip t where e: "e = Segment isn now wr mac ip t"
    and k: "dict_get (conns s) (flow_key_of ip t) = Some cid"
    and p: "p = tcp_payload t" "p \<noteq> []" and sq: "seq_no t = chip_seq (objs s cid)"
    and st: "state (objs s cid) \<le> ESTABLISHED"
    using off by (auto simp: offers_def)
  have inv: "nat_inv s" and len: "length (streams cid) < 4294967295"
    using ord by (simp_all add: in_order_def)
  note f = nat_inv_found [OF inv k]
  have pre: "prefix (accepted cid s) (streams cid)" using ord f(1) by (simp add: in_order_def)
  have nofin: "fin_count (state (objs s cid)) = 0"
    using st by (auto simp: fin_count_def less_eq_tcp_state_def)
  have acc: "chip_seq (objs s cid) =
      seq_add (chip_isn (objs s cid)) (1 + int (length (accepted cid s)))"
    using obj_ok_live(5) [OF f(3,4)] by (simp add: accounted_def accepted_def nofin)
  have "piece_of (streams cid) (chip_isn (objs s cid)) t"
    using hon e k p by (auto simp: honest_def)
  then show ?thesis using piece_extends [OF pre _ _ len] acc sq p(1) by simp
qed

interpretation delivery: machine
  "\<lambda>s. nat_start s \<and> (\<forall>cid. length (streams cid) < 4294967295)"
  "honest_step env streams" "in_order streams" for env streams
proof unfold_locales
  fix s :: tcp_nat and e t
  show "nat_start s \<and> (\<forall>cid. length (streams cid) < 4294967295) \<Longrightarrow> in_order streams s"
    by (simp add: in_order_def nat_inv_start, simp add: nat_start_def)
  assume ord: "in_order streams s" and step: "honest_step env streams s e t"
  have inv: "nat_inv s" and st: "nat_step env s e t" and hon: "honest streams s e"
    using ord step by (simp_all add: in_order_def honest_step_def)
  have "prefix (accepted cid t) (streams cid)" if "cid < next_cid t" for cid
  proof (cases "cid < next_cid s")
    case True
    then have "prefix (accepted cid s) (streams cid)" using ord by (simp add: in_order_def)
    then show ?thesis
      using step_effect [OF inv st, of cid] True offered_next [OF ord _ hon] by (auto simp: effect_def)
  next
    case False
    then show ?thesis using step_effect [OF inv st, of cid] that by (simp add: effect_def)
  qed
  then show "in_order streams t"
    using ord nat_inv_step [OF inv st] by (simp add: in_order_def)
qed

end
