(* ===== verification/Tcp_Properties.thy ===== *)
theory Tcp_Properties
  imports Tcp_Progress
begin

text \<open>
  What the TCP NAT promises: properties of every run of the manager, obtained from the
  machine contract, and of the single handlers. The sample values at the start are the
  inputs at which the witnesses apply them.
\<close>

section \<open>Sample values\<close>

definition sample_ip :: "byte \<Rightarrow> ipv4" where
  "sample_ip x = ipv4_default\<lparr>ip_protocol := 6, ip_src := [10, 13, 37, 42], ip_dst := [x, 184, 216, 34]\<rparr>"

definition sample_seg :: "int \<Rightarrow> int \<Rightarrow> int \<Rightarrow> bytes \<Rightarrow> tcp" where
  "sample_seg fl sq ak p = tcp_default\<lparr>src_port := 49152, dst_port := 80, seq_no := sq,
     ack_no := ak, tcp_flags := fl, window := 8192, tcp_payload := p\<rparr>"

lemma sample_ok [simp]:
  "wf_ipv4 (sample_ip x)"
  "0 \<le> sq \<Longrightarrow> sq < 4294967296 \<Longrightarrow> 0 \<le> ak \<Longrightarrow> ak < 4294967296 \<Longrightarrow> 0 \<le> fl \<Longrightarrow> fl < 512 \<Longrightarrow>
   parsed_tcp (sample_seg fl sq ak p)"
  by (simp_all add: sample_ip_def wf_ipv4_def ipv4_default_def parsed_tcp_def sample_seg_def tcp_default_def)

lemma sample_flow [simp]:
  "flow_key_of (sample_ip x) (sample_seg fl sq ak p) =
     ([10, 13, 37, 42], 49152, [x, 184, 216, 34], 80)"
  by (simp add: flow_key_of_def sample_ip_def sample_seg_def)

section \<open>Runs of the manager\<close>

text \<open>No handler raises in a reachable state.\<close>

lemma nat_never_raises:
  assumes "nat_start s" "runs (nat_step env) s t" "length mac = 6" "wf_ipv4 ip" "parsed_tcp u"
    "0 \<le> isn" "isn < 4294967296"
  shows "fst (handle_chip_segment env isn now wr mac ip u t) = None \<and>
    (\<forall>cid args opened. waiting t cid = Some args \<longrightarrow>
       fst (syn_answered cid args opened t) = None \<and> fst (syn_grace cid t) = None)"
proof -
  have inv: "nat_inv t" using assms(1,2) by (rule nat.inv_reachable)
  have "fst (syn_answered cid args opened t) = None \<and> fst (syn_grace cid t) = None"
    if w: "waiting t cid = Some args" for cid args opened
  proof -
    have ok: "obj_ok t cid" using inv nat_inv_waiting [OF inv w] by (rule nat_inv_obj)
    show ?thesis using syn_answered_fine [OF ok w, of opened] syn_grace_fine [OF ok w] by (auto simp: fine_def)
  qed
  then show ?thesis using handle_chip_segment_inv [OF inv assms(3-7), of env now wr] by auto
qed

text \<open>C13: In every reachable state the connection table is exact: a connection object is in the
  table, under its own 4-tuple, just when it is not CLOSED, and at most one object per
  4-tuple is live or being opened, so a retransmitted SYN never opens a second socket.\<close>

theorem one_connection_per_flow:
  assumes "nat_start s" "runs (nat_step env) s t"
  shows "(\<forall>cid < next_cid t. dict_get (conns t) (conn_key (objs t cid)) = Some cid \<longleftrightarrow>
      state (objs t cid) \<noteq> CLOSED) \<and>
    (\<forall>k cid. dict_get (conns t) k = Some cid \<longrightarrow> cid < next_cid t \<and> conn_key (objs t cid) = k) \<and>
    (\<forall>cid < next_cid t. \<forall>cid' < next_cid t. active t cid \<longrightarrow> active t cid' \<longrightarrow>
       conn_key (objs t cid) = conn_key (objs t cid') \<longrightarrow> cid = cid')"
proof -
  have inv: "nat_inv t" using assms by (rule nat.inv_reachable)
  have "dict_get (conns t) (conn_key (objs t cid)) = Some cid \<longleftrightarrow> state (objs t cid) \<noteq> CLOSED"
    if "cid < next_cid t" for cid
    using nat_inv_obj [OF inv that] by (simp add: obj_ok_def Let_def)
  with inv show ?thesis unfolding nat_inv_def by blast
qed

text \<open>A run in which the chip opens a connection and the dial succeeds.\<close>

definition syn_state :: tcp_nat where
  "syn_state = snd (handle_chip_segment public_env 5000 0 True STA_MAC (sample_ip 93)
     (sample_seg 2 1000 0 []) nat_new)"

definition opened_state :: tcp_nat where
  "opened_state = snd (syn_answered 0 (STA_MAC, sample_ip 93, sample_seg 2 1000 0 []) True syn_state)"

lemma nat_new_simps [simp]:
  "next_cid nat_new = 0" "conns nat_new = []" "connecting nat_new = {}" "waiting nat_new = (\<lambda>_. None)"
  "trace nat_new = []"
  by (simp_all add: nat_new_def)

lemma opened_syn:
  "syn_state = emit (Dial 0 (bytes_to_ip [93, 184, 216, 34]) 80)
     (allocated STA_MAC (sample_ip 93) (sample_seg 2 1000 0 []) 5000 0
       (emit (Egress ''allowed'' (bytes_to_ip [93, 184, 216, 34]) 80 ''ok'') nat_new))"
proof -
  have "ip_dst (sample_ip 93) = [93, 184, 216, 34]" "dst_port (sample_seg 2 1000 0 []) = 80"
    "tcp_flags (sample_seg 2 1000 0 []) = 2"
    by (simp_all add: sample_ip_def sample_seg_def)
  moreover have "\<not> has_flag 2 TCP_RST" "has_flag 2 TCP_SYN" "\<not> has_flag 2 TCP_ACK"
    by (simp_all add: has_flag_def tcp_flag_defs)
  ultimately show ?thesis
    by (simp add: syn_state_def handle_chip_segment_def Let_def dict_laws on_passive_syn_cases
        dial_host_sample sample_allowed)
qed

lemma syn_step: "nat_step public_env nat_new
    (Segment 5000 0 True STA_MAC (sample_ip 93) (sample_seg 2 1000 0 [])) syn_state"
  unfolding syn_state_def by (rule nat_step.step_segment) simp_all

lemma open_step: "nat_step public_env syn_state (Syn_answered 0 (\<lambda>_. Opens 20)) opened_state"
proof -
  have "fst (connect_with_retries (\<lambda>_. Opens 20)) = True"
    by (simp add: connect_with_retries_def CONNECT_ATTEMPT_TIMEOUTS_def)
  moreover have "waiting syn_state 0 = Some (STA_MAC, sample_ip 93, sample_seg 2 1000 0 [])"
    by (simp add: opened_syn allocated_def)
  ultimately show ?thesis
    unfolding opened_state_def by (metis nat_step.step_answered)
qed

lemma opened_run: "runs (nat_step public_env) nat_new opened_state"
  using syn_step open_step by (metis runs_refl runs_step)

lemma opened_conn:
  "next_cid opened_state = 1" "state (objs opened_state 0) = SYN_RCVD"
  "conn_key (objs opened_state 0) = ([10, 13, 37, 42], 49152, [93, 184, 216, 34], 80)"
  "waiting opened_state 0 = None" "our_seq (objs opened_state 0) = 5001"
  "chip_seq (objs opened_state 0) = 1001" "host_writer (objs opened_state 0) = Some 0"
proof -
  have wf: "wf_conn (new_conn STA_MAC (sample_ip 93) (sample_seg 2 1000 0 []) 5000 0)"
    by (rule wf_new_conn) simp_all
  show "next_cid opened_state = 1" "state (objs opened_state 0) = SYN_RCVD"
    "conn_key (objs opened_state 0) = ([10, 13, 37, 42], 49152, [93, 184, 216, 34], 80)"
    "waiting opened_state 0 = None" "our_seq (objs opened_state 0) = 5001"
    "chip_seq (objs opened_state 0) = 1001" "host_writer (objs opened_state 0) = Some 0"
    using wf by (simp_all add: opened_state_def opened_syn syn_answered_def Let_def attach_def
        discard_key_def end_wait_def allocated_def register_conn_eq)
      (simp_all add: new_conn_def seq_add_mod sample_seg_def)
qed

theorem one_connection_per_flow_witness:
  "dict_get (conns opened_state) ([10, 13, 37, 42], 49152, [93, 184, 216, 34], 80) = Some 0"
  using one_connection_per_flow [OF nat_start_new opened_run] opened_conn by force

text \<open>C14: A connection only moves forward: from unregistered to SYN_RCVD to ESTABLISHED, then
  through FIN_WAIT_1 and FIN_WAIT_2 or CLOSE_WAIT and LAST_ACK, to CLOSED. In particular a
  closed connection object never comes back to life.\<close>

theorem connection_states_advance:
  assumes "nat_start s" "runs (nat_step env) s t" "runs (nat_step env) t u"
  shows "progress t cid \<le> progress u cid \<and>
    (progress t cid = Some CLOSED \<longrightarrow> progress u cid = Some CLOSED)"
proof -
  have "nat_inv t" using assms(1,2) by (rule nat.inv_reachable)
  then have le: "progress t cid \<le> progress u cid" using assms(3) by (rule nat.rank_runs)
  moreover have "progress u cid = Some CLOSED" if "progress t cid = Some CLOSED"
  proof (cases "progress u cid")
    case None
    then show ?thesis using le that by simp
  next
    case (Some st)
    then show ?thesis using le that antisym [OF state_order(2), of st] by simp
  qed
  ultimately show ?thesis by blast
qed

theorem connection_states_advance_witness:
  "progress nat_new 0 = None \<and> progress opened_state 0 = Some SYN_RCVD \<and>
   progress nat_new 0 \<le> progress opened_state 0"
  using connection_states_advance [OF nat_start_new runs_refl opened_run, of 0]
  by (simp add: progress_def opened_conn nat_new_def)

text \<open>Every dial of any run was let through by the guard.\<close>

lemma dials_respect_guard:
  assumes "nat_start s" "runs (nat_step env) s t" "(cid, host, port) \<in> set (dials (trace t))"
  shows "fst (is_allowed_dst env host port) \<and>
    (\<not> allow_private env \<longrightarrow> (\<exists>a b c d. host = bytes_to_ip [a, b, c, d] \<and>
       \<not> blocked_octets (uint a) (uint b) (uint c) (uint d)))"
proof -
  have "dials (trace s) = []" using assms(1) by (simp add: nat_start_def)
  then have "list_all (guarded env) (dials (trace t))"
    using guarded_runs [OF nat_inv_start [OF assms(1)] assms(2)] by simp
  then have "guarded env (cid, host, port)" using assms(3) by (auto simp: list_all_iff)
  then have "guarded_target env host port" by (simp add: guarded_def)
  then show ?thesis using guarded_public [of env host port] by (auto simp: guarded_target_def)
qed

lemma opened_trace:
  "\<exists>f. trace opened_state = [Egress ''allowed'' (bytes_to_ip [93, 184, 216, 34]) 80 ''ok'',
     Dial 0 (bytes_to_ip [93, 184, 216, 34]) 80, Inject f]"
proof -
  have wf: "wf_conn (new_conn STA_MAC (sample_ip 93) (sample_seg 2 1000 0 []) 5000 0)"
    by (rule wf_new_conn) simp_all
  then show ?thesis
    by (simp add: opened_state_def opened_syn syn_answered_def Let_def attach_def
        discard_key_def end_wait_def allocated_def register_conn_eq)
qed

text \<open>C1: In-order, exactly-once delivery to the host. If every data segment of the chip carries a
  piece of the connection's byte stream (shorter than \<open>2 ^ 32\<close>), in any order, with any losses
  and repetitions and interleaved with any other event, then what the host socket is given is
  a prefix of that stream, what is accepted (written or still held) is a prefix too, and the
  sequence number expected next accounts for exactly the accepted bytes, the SYN and the FIN.\<close>

theorem in_order_delivery:
  assumes "nat_start s" "\<forall>cid. length (streams cid) < 4294967295"
    "runs (honest_step env streams) s t" "cid < next_cid t"
  shows "prefix (written cid (trace t)) (streams cid) \<and> prefix (accepted cid t) (streams cid) \<and>
    (state (objs t cid) \<noteq> CLOSED \<longrightarrow> chip_seq (objs t cid) =
       seq_add (chip_isn (objs t cid)) (1 + int (length (accepted cid t)) + fin_count (state (objs t cid))))"
proof -
  have ord: "in_order streams t"
    using delivery.inv_reachable [of s streams env t] assms by simp
  then have pre: "prefix (accepted cid t) (streams cid)" and inv: "nat_inv t"
    using assms(4) by (simp_all add: in_order_def)
  moreover have "prefix (written cid (trace t)) (accepted cid t)" by (simp add: accepted_def)
  moreover have "chip_seq (objs t cid) =
       seq_add (chip_isn (objs t cid)) (1 + int (length (accepted cid t)) + fin_count (state (objs t cid)))"
    if "state (objs t cid) \<noteq> CLOSED"
    using obj_ok_live(5) [OF nat_inv_obj [OF inv assms(4)] that] by (simp add: accounted_def accepted_def)
  ultimately show ?thesis using prefix_order.trans by blast
qed

text \<open>The chip's ACK of the SYN+ACK, with the first two bytes of its stream.\<close>

definition greeted_state :: tcp_nat where
  "greeted_state = snd (handle_chip_segment public_env 0 1 True STA_MAC (sample_ip 93)
     (sample_seg 16 1001 5001 [104, 105]) opened_state)"

lemma opened_inv: "nat_inv opened_state"
  by (rule nat.inv_reachable [OF nat_start_new opened_run])

lemma opened_found: "dict_get (conns opened_state) ([10, 13, 37, 42], 49152, [93, 184, 216, 34], 80) = Some 0"
  using nat_inv_obj [OF opened_inv, of 0] opened_conn by (simp add: obj_ok_def Let_def)

lemma sample_seg_fields [simp]:
  "tcp_flags (sample_seg fl sq ak p) = fl" "seq_no (sample_seg fl sq ak p) = sq"
  "ack_no (sample_seg fl sq ak p) = ak" "tcp_payload (sample_seg fl sq ak p) = p"
  "window (sample_seg fl sq ak p) = 8192"
  by (simp_all add: sample_seg_def)

lemma greeted_written:
  "written 0 (trace greeted_state) = [104, 105]" "next_cid greeted_state = 1"
proof -
  have w0: "written 0 (trace opened_state) = []" using opened_trace by auto
  have fl: "\<not> has_flag 16 TCP_RST" "has_flag 16 TCP_ACK" "\<not> has_flag 16 TCP_FIN"
    by (simp_all add: has_flag_def tcp_flag_defs)
  show "written 0 (trace greeted_state) = [104, 105]"
    using opened_found opened_conn w0 fl
    by (simp add: greeted_state_def handle_chip_segment_def Let_def on_segment_def
        on_handshake_complete_def on_data_def accept_payload_def snd_andthen maybe_fin_def
        split: option.split)
  have "\<exists>s'. on_segment True 0 (sample_seg 16 1001 5001 [104, 105]) opened_state = (None, s') \<and>
      local_change 0 opened_state s'"
    using on_segment_fine [OF nat_inv_obj [OF opened_inv], of 0] opened_conn by (auto simp: fine_def)
  then show "next_cid greeted_state = 1"
    using opened_found opened_conn(1) fl
    by (auto simp: greeted_state_def handle_chip_segment_def Let_def local_change_def)
qed

theorem in_order_delivery_witness:
  "written 0 (trace greeted_state) = [104, 105] \<and> prefix (written 0 (trace greeted_state)) [104, 105, 33]"
proof -
  let ?st = "\<lambda>cid::nat. [104, 105, 33] :: bytes"
  have honest_syn: "honest_step public_env ?st nat_new
      (Segment 5000 0 True STA_MAC (sample_ip 93) (sample_seg 2 1000 0 [])) syn_state"
    using syn_step by (simp add: honest_step_def honest_def)
  have honest_open: "honest_step public_env ?st syn_state (Syn_answered 0 (\<lambda>_. Opens 20)) opened_state"
    using open_step by (simp add: honest_step_def honest_def)
  have isn: "chip_isn (objs opened_state 0) = 1000"
    by (simp add: opened_state_def opened_syn syn_accepted)
      (simp add: allocated_def new_conn_def sample_seg_def)
  have "piece_of [104, 105, 33] 1000 (sample_seg 16 1001 5001 [104, 105])"
    unfolding piece_of_def by (intro exI [of _ 0]) (simp add: seq_add_mod slice_def)
  then have "honest ?st opened_state
      (Segment 0 1 True STA_MAC (sample_ip 93) (sample_seg 16 1001 5001 [104, 105]))"
    by (simp add: honest_def opened_found isn)
  moreover have "nat_step public_env opened_state
      (Segment 0 1 True STA_MAC (sample_ip 93) (sample_seg 16 1001 5001 [104, 105])) greeted_state"
    unfolding greeted_state_def by (rule nat_step.step_segment) simp_all
  ultimately have "honest_step public_env ?st opened_state
      (Segment 0 1 True STA_MAC (sample_ip 93) (sample_seg 16 1001 5001 [104, 105])) greeted_state"
    unfolding honest_step_def by (intro conjI)
  then have "runs (honest_step public_env ?st) nat_new greeted_state"
    by (rule runs_step [of "honest_step public_env ?st", OF runs_step [of "honest_step public_env ?st",
        OF runs_step [of "honest_step public_env ?st", OF runs_refl honest_syn] honest_open]])
  then show ?thesis
    using in_order_delivery [OF nat_start_new, of ?st public_env greeted_state 0] greeted_written by simp
qed

end
