(* ===== verification/Tcp_Behaviour.thy ===== *)
theory Tcp_Behaviour
  imports Tcp_Properties
begin

text \<open>
  What each handler of the TCP NAT does, branch by branch: the frames it injects as the chip
  reads them, the calls on the host socket and the new state of the connection.
\<close>

section \<open>Segments without a connection\<close>

text \<open>The reset that answers a segment: addresses and ports swapped, flags RST and ACK.\<close>

definition is_reset_for :: "bytes \<Rightarrow> ipv4 \<Rightarrow> tcp \<Rightarrow> bytes \<Rightarrow> bool" where
  "is_reset_for mac ip t f \<longleftrightarrow> (\<exists>r.
     tcp_frame_view f = Inr (mac, GATEWAY_MAC, ip_dst ip, ip_src ip, r) \<and>
     src_port r = dst_port t \<and> dst_port r = src_port t \<and> tcp_flags r = 20 \<and> tcp_payload r = [] \<and>
     seq_no r = (if has_flag (tcp_flags t) TCP_ACK then ack_no t else 0) \<and>
     ack_no r = seq_add (seq_no t)
       (if has_flag (tcp_flags t) TCP_SYN then 1 else int (length (tcp_payload t))))"

lemma send_rst_resets:
  assumes "length mac = 6" "wf_ipv4 ip" "parsed_tcp t"
  shows "\<exists>f. send_rst mac ip t s = (None, emit (Inject f) s) \<and> is_reset_for mac ip t f"
proof -
  obtain f where f: "stray_rst_frame mac ip t = Inr f"
    "tcp_frame_view f = Inr (mac, GATEWAY_MAC, ip_dst ip, ip_src ip,
       tcp_norm (ip_dst ip) (ip_src ip) (stray_rst t))"
    using stray_rst_frame_view [OF assms] by blast
  have fl: "(TCP_RST OR TCP_ACK) mod 512 = 20" by (simp add: tcp_flag_defs)
  have "is_reset_for mac ip t f"
    using f(2) assms(3) fl
    by (simp add: is_reset_for_def tcp_norm_def stray_rst_def tcp_default_def parsed_tcp_def seq_add_idem)
  then show ?thesis using f(1) by (auto simp: send_rst_def inject_def)
qed

text \<open>C16: A segment of an unknown flow never creates state by itself. A RST and a SYN whose dial is
  already under way are dropped in silence; any other segment that is not a plain SYN gets
  exactly one reset; a plain SYN the guard refuses gets a record and one reset; only a plain
  SYN the guard allows starts a dial, to the rewritten destination.\<close>

theorem unknown_flow_handled:
  assumes "length mac = 6" "wf_ipv4 ip" "parsed_tcp t"
    and "dict_get (conns s) (flow_key_of ip t) = None"
  shows "let run = handle_chip_segment env isn now wr mac ip t s; host = dial_host (ip_dst ip);
             flag = has_flag (tcp_flags t);
             (allowed, reason) = is_allowed_dst env host (dst_port t)
    in if flag TCP_RST then run = (None, s)
       else if flag TCP_ACK \<or> \<not> flag TCP_SYN
       then \<exists>f. run = (None, emit (Inject f) s) \<and> is_reset_for mac ip t f
       else if flow_key_of ip t \<in> connecting s then run = (None, s)
       else if \<not> allowed
       then \<exists>f. run = (None, emit (Inject f) (emit (Egress ''blocked'' host (dst_port t) reason) s)) \<and>
              is_reset_for mac ip t f
       else \<exists>s'. run = (None, s') \<and> waiting s' (next_cid s) = Some (mac, ip, t) \<and>
              conns s' = conns s \<and> connecting s' = insert (flow_key_of ip t) (connecting s) \<and>
              trace s' = trace s @ [Egress ''allowed'' host (dst_port t) ''ok'',
                                    Dial (next_cid s) host (dst_port t)]"
  using send_rst_resets [OF assms(1-3)] assms(4)
  by (auto simp: handle_chip_segment_def on_passive_syn_cases allocated_def Let_def split: prod.split)

theorem unknown_flow_handled_witness:
  "\<exists>f. handle_chip_segment public_env 1 0 True STA_MAC (sample_ip 93) (sample_seg 16 900 77 [1, 2]) nat_new
       = (None, emit (Inject f) nat_new) \<and>
     is_reset_for STA_MAC (sample_ip 93) (sample_seg 16 900 77 [1, 2]) f"
  using unknown_flow_handled [of STA_MAC "sample_ip 93" "sample_seg 16 900 77 [1, 2]" nat_new public_env 1 0 True]
  by (simp add: dict_laws Let_def has_flag_def tcp_flag_defs split: prod.splits)

section \<open>Opening\<close>

lemma waiting_conn:
  assumes "nat_inv s" "waiting s cid = Some (mac, ip, t)"
  shows "cid < next_cid s" "obj_ok s cid" "wf_conn (objs s cid)" "length mac = 6" "wf_ipv4 ip"
    "parsed_tcp t" "conn_key (objs s cid) = flow_key_of ip t"
    "objs s cid = new_conn mac ip t (our_isn (objs s cid)) (last_activity (objs s cid))"
proof -
  show n: "cid < next_cid s" using assms by (rule nat_inv_waiting)
  then show ok: "obj_ok s cid" by (rule nat_inv_obj [OF assms(1)])
  show "wf_conn (objs s cid)" by (rule waiting_ok(1) [OF ok assms(2)])
  show "length mac = 6" "wf_ipv4 ip" "parsed_tcp t" "conn_key (objs s cid) = flow_key_of ip t"
    "objs s cid = new_conn mac ip t (our_isn (objs s cid)) (last_activity (objs s cid))"
    using waiting_ok(3) [OF ok assms(2)] by (simp_all add: args_ok_def)
qed

text \<open>The SYN+ACK as the chip reads it.\<close>

definition is_syn_ack :: "conn \<Rightarrow> tcp \<Rightarrow> bytes \<Rightarrow> bool" where
  "is_syn_ack c t f \<longleftrightarrow> (\<exists>r. tcp_frame_view f = from_peer c r \<and>
     src_port r = dst_port t \<and> dst_port r = src_port t \<and> tcp_flags r = 18 \<and>
     seq_no r = our_isn c \<and> ack_no r = seq_add (seq_no t) 1 \<and> tcp_payload r = [] \<and>
     opt_mss (parse_tcp_options (tcp_options r)) 536 = negotiated_mss t)"

lemma syn_ack_frame_is:
  assumes wf: "wf_conn c" and c: "c = new_conn mac ip t isn now"
  shows "is_syn_ack c t (syn_ack_frame (c\<lparr>state := st, host_reader := r, host_writer := w, pending_connect := d\<rparr>))"
proof -
  let ?c = "c\<lparr>state := st, host_reader := r, host_writer := w, pending_connect := d\<rparr>"
  have m: "0 \<le> mss c" "mss c < 65536" using wf by (simp_all add: wf_conn_def)
  have opts: "pad4 ([2, 4] @ be_bytes 2 (mss c)) = [2, 4] @ be_bytes 2 (mss c)"
    by (rule pad4_id) simp
  have mss: "opt_mss (parse_tcp_options ([2, 4] @ be_bytes 2 (mss c))) 536 = mss c"
    using m by (intro parse_mss_option) (simp_all add: mss_option_def pack_fits)
  have wf': "wf_conn ?c" using wf by simp
  have "tcp_frame_view (syn_ack_frame ?c) = from_peer ?c
      (sent ?c (TCP_SYN OR TCP_ACK) (our_isn ?c) (chip_seq ?c) ([2, 4] @ be_bytes 2 (mss ?c)) [])"
    unfolding syn_ack_frame_def by (rule frame_for_view(2) [OF wf']) simp_all
  moreover have "(TCP_SYN OR TCP_ACK) mod 512 = 18" by (simp add: tcp_flag_defs)
  moreover have "our_isn c mod 4294967296 = our_isn c" using wf by (simp add: wf_conn_def)
  moreover have "from_peer ?c x = from_peer c x" for x by (simp add: from_peer_def)
  moreover have "chip_seq c = seq_add (seq_no t) 1" "mss c = negotiated_mss t"
    "conn_dst_port c = dst_port t" "chip_port c = src_port t"
    by (simp_all add: c new_conn_def)
  ultimately show ?thesis
    using opts mss by (auto simp: is_syn_ack_def seq_add_idem)
qed

text \<open>C17: When the dial of a suspended SYN ends within the grace period, the key is released and
  the chip gets exactly one frame: on success a SYN+ACK with the chosen sequence number, the
  chip's sequence number plus one and the negotiated MSS (never above 1460), the connection
  being registered in SYN_RCVD with its socket and pump; on failure a reset, and nothing is
  registered.\<close>

theorem dial_answered:
  assumes "nat_start s0" "runs (nat_step env) s0 s" "waiting s cid = Some (mac, ip, t)"
  shows "(\<exists>s' f. syn_answered cid (mac, ip, t) True s = (None, s') \<and> trace s' = trace s @ [Inject f] \<and>
      is_syn_ack (objs s cid) t f \<and> negotiated_mss t \<le> 1460 \<and>
      dict_get (conns s') (flow_key_of ip t) = Some cid \<and> state (objs s' cid) = SYN_RCVD \<and>
      host_writer (objs s' cid) = Some cid \<and> host_pump_task (objs s' cid) = Some Pump_wait \<and>
      flow_key_of ip t \<notin> connecting s') \<and>
    (\<exists>s' f. syn_answered cid (mac, ip, t) False s = (None, s') \<and> trace s' = trace s @ [Inject f] \<and>
      is_reset_for mac ip t f \<and> conns s' = conns s \<and> flow_key_of ip t \<notin> connecting s')"
proof -
  have inv: "nat_inv s" using assms(1,2) by (rule nat.inv_reachable)
  note w = waiting_conn [OF inv assms(3)]
  let ?c = "objs s cid"
  let ?s1 = "discard_key cid (end_wait cid s)"
  have s1: "objs ?s1 = objs s" "trace ?s1 = trace s" "conns ?s1 = conns s"
    "connecting ?s1 = connecting s - {flow_key_of ip t}"
    using w(7) by (simp_all add: discard_key_def end_wait_def)
  have wf: "wf_conn (objs (attach cid ?s1) cid)" using w(3) by (simp add: attach_def s1)
  have "is_syn_ack ?c t (syn_ack_frame (?c\<lparr>state := SYN_RCVD, host_reader := Some cid,
      host_writer := Some cid, pending_connect := pending_connect ?c\<rparr>))"
    by (rule syn_ack_frame_is [OF w(3,8)])
  moreover have "?c\<lparr>state := SYN_RCVD, host_reader := Some cid, host_writer := Some cid,
      pending_connect := pending_connect ?c\<rparr> =
      ?c\<lparr>host_reader := Some cid, host_writer := Some cid, state := SYN_RCVD\<rparr>" by simp
  ultimately have f: "is_syn_ack ?c t (syn_ack_frame
      (?c\<lparr>host_reader := Some cid, host_writer := Some cid, state := SYN_RCVD\<rparr>))" by simp
  have mss: "negotiated_mss t \<le> 1460" by (simp add: negotiated_mss_def Let_def tunable_defs)
  show ?thesis
    using send_rst_resets [OF w(4-6), of ?s1] f mss w(7)
    by (auto simp: syn_answered_def s1 register_conn_eq [OF wf])
      (simp_all add: attach_def discard_key_def end_wait_def dict_laws)
qed

theorem dial_answered_witness:
  "\<exists>s' f. syn_answered 0 (STA_MAC, sample_ip 93, sample_seg 2 1000 0 []) True syn_state = (None, s') \<and>
     trace s' = trace syn_state @ [Inject f] \<and> is_syn_ack (objs syn_state 0) (sample_seg 2 1000 0 []) f"
proof -
  have "waiting syn_state 0 = Some (STA_MAC, sample_ip 93, sample_seg 2 1000 0 [])"
    by (simp add: opened_syn allocated_def)
  moreover have "runs (nat_step public_env) nat_new syn_state"
    using syn_step by (metis runs_refl runs_step)
  ultimately show ?thesis using dial_answered [OF nat_start_new] by blast
qed

section \<open>Data from the chip\<close>

text \<open>A pure acknowledgement of everything before sequence number \<open>n\<close>.\<close>

definition is_ack :: "conn \<Rightarrow> int \<Rightarrow> bytes \<Rightarrow> bool" where
  "is_ack c n f \<longleftrightarrow> (\<exists>r. tcp_frame_view f = from_peer c r \<and> src_port r = conn_dst_port c \<and>
     dst_port r = chip_port c \<and> tcp_flags r = 16 \<and> seq_no r = our_seq c \<and> ack_no r = n \<and>
     tcp_payload r = [])"

lemma is_ack_updates [simp]:
  "is_ack (c\<lparr>chip_seq := x\<rparr>) n f \<longleftrightarrow> is_ack c n f" "is_ack (c\<lparr>state := st\<rparr>) n f \<longleftrightarrow> is_ack c n f"
  "is_ack (chip_window_update g1 c) n f \<longleftrightarrow> is_ack c n f"
  "is_ack (pending_payload_update g2 c) n f \<longleftrightarrow> is_ack c n f"
  "is_ack (pending_eof_update g3 c) n f \<longleftrightarrow> is_ack c n f"
  by (simp_all add: is_ack_def from_peer_def)

lemma ack_result:
  assumes wf: "wf_conn (objs s cid)"
  shows "\<exists>f. ack_only cid s = (None, emit (Inject f) s) \<and> is_ack (objs s cid) (chip_seq (objs s cid)) f"
proof -
  let ?c = "objs s cid"
  let ?f = "frame_for ?c TCP_ACK (our_seq ?c) (chip_seq ?c) [] []"
  have "tcp_frame_view ?f = from_peer ?c (sent ?c TCP_ACK (our_seq ?c) (chip_seq ?c) [] [])"
    by (rule frame_for_view(2) [OF wf]) simp_all
  moreover have "our_seq ?c mod 4294967296 = our_seq ?c" "chip_seq ?c mod 4294967296 = chip_seq ?c"
    using wf by (simp_all add: wf_conn_def)
  ultimately have "is_ack ?c (chip_seq ?c) ?f" by (auto simp: is_ack_def TCP_ACK_def)
  then show ?thesis using ack_only_eq [OF wf] by blast
qed

text \<open>
  The outcome of processing data: \<open>n\<close> sequence numbers consumed, \<open>p\<close> accepted, the next
  state, and, unless nothing was to be said, an acknowledgement as the last action.
\<close>

definition consumed :: "nat \<Rightarrow> tcp_nat \<Rightarrow> bytes \<Rightarrow> int \<Rightarrow> tcp_state \<Rightarrow> bool \<Rightarrow> tcp_nat \<Rightarrow> bool" where
  "consumed cid s p n st acked s' \<longleftrightarrow>
     accepted cid s' = accepted cid s @ p \<and>
     chip_seq (objs s' cid) = seq_add (chip_seq (objs s cid)) n \<and> state (objs s' cid) = st \<and>
     (if acked then \<exists>f. last (trace s') = Inject f \<and> is_ack (objs s cid) (chip_seq (objs s' cid)) f
      else trace s' = trace s)"

lemma on_fin_result:
  assumes wf: "wf_conn (objs s cid)"
  shows "\<exists>s'. on_fin cid s = (None, s') \<and> consumed cid s [] 1 CLOSE_WAIT True s'"
proof -
  let ?s = "upd cid (\<lambda>c. c\<lparr>chip_seq := seq_add (chip_seq c) 1, state := CLOSE_WAIT\<rparr>) s"
  let ?t = "case host_writer (objs ?s cid) of Some w \<Rightarrow> emit (Host_eof w) ?s
      | None \<Rightarrow> upd cid (pending_eof_update (\<lambda>_. True)) ?s"
  have "wf_conn (objs ?t cid)" using wf by (simp split: option.split)
  then obtain f where "ack_only cid ?t = (None, emit (Inject f) ?t)"
    "is_ack (objs ?t cid) (chip_seq (objs ?t cid)) f" using ack_result by blast
  then show ?thesis
    by (auto simp: on_fin_def consumed_def accepted_def Let_def split: option.splits)
qed

lemma maybe_fin_result:
  assumes wf: "wf_conn (objs s cid)" and st: "state (objs s cid) = st"
  shows "\<exists>s'. maybe_fin cid t s = (None, s') \<and>
    (if has_flag (tcp_flags t) TCP_FIN then consumed cid s [] 1 CLOSE_WAIT True s' else s' = s)"
  using on_fin_result [OF wf] by (simp add: maybe_fin_def)

lemma accept_result:
  assumes wf: "wf_conn (objs s cid)" and st: "state (objs s cid) = ESTABLISHED"
  shows "\<exists>s'. accept_payload cid t s = (None, s') \<and>
    (let fin = has_flag (tcp_flags t) TCP_FIN; len = int (length (tcp_payload t))
     in consumed cid s [] (len + (if fin then 1 else 0)) (if fin then CLOSE_WAIT else ESTABLISHED) True s')"
proof -
  let ?s = "upd cid (\<lambda>c. c\<lparr>chip_seq := seq_add (chip_seq c) (int (length (tcp_payload t)))\<rparr>) s"
  have wf': "wf_conn (objs ?s cid)" using wf by simp
  obtain f where f: "ack_only cid ?s = (None, emit (Inject f) ?s)"
    "is_ack (objs ?s cid) (chip_seq (objs ?s cid)) f" using ack_result [OF wf'] by blast
  have "wf_conn (objs (emit (Inject f) ?s) cid)" using wf' by simp
  then obtain s' where "maybe_fin cid t (emit (Inject f) ?s) = (None, s')"
    "if has_flag (tcp_flags t) TCP_FIN then consumed cid (emit (Inject f) ?s) [] 1 CLOSE_WAIT True s'
     else s' = emit (Inject f) ?s"
    using maybe_fin_result by blast
  then show ?thesis
    using f st by (auto simp: accept_payload_def consumed_def accepted_def Let_def seq_add_assoc)
qed

lemma on_data_result:
  fixes t :: tcp
  assumes ok: "obj_ok s cid" and st: "state (objs s cid) = ESTABLISHED"
  defines "fits \<equiv> seq_no t = chip_seq (objs s cid)"
  defines "fin \<equiv> has_flag (tcp_flags t) TCP_FIN \<and> (tcp_payload t = [] \<or> fits)"
  shows "\<exists>s'. on_data True cid t s = (None, s') \<and>
    consumed cid s (if fits then tcp_payload t else [])
      ((if fits then int (length (tcp_payload t)) else 0) + (if fin then 1 else 0))
      (if fin then CLOSE_WAIT else ESTABLISHED) (tcp_payload t \<noteq> [] \<or> fin) s'"
proof -
  have live: "state (objs s cid) \<noteq> CLOSED" using st by simp
  note l = obj_ok_live [OF ok live]
  have z: "seq_add (chip_seq (objs s cid)) 0 = chip_seq (objs s cid)"
    using l(1) by (simp add: wf_conn_def seq_add_0)
  consider "tcp_payload t = []" | "tcp_payload t \<noteq> []" "\<not> fits"
    | "tcp_payload t \<noteq> []" "fits" "host_writer (objs s cid) = None"
    | "tcp_payload t \<noteq> []" "fits" "host_writer (objs s cid) = Some cid" "pending_payload (objs s cid) = []"
    using l(3) by (auto simp: phase_defs)
  then show ?thesis
  proof cases
    case 1
    then show ?thesis
      using maybe_fin_result [OF l(1) st, of t] st z
      by (auto simp: on_data_def fin_def consumed_def accepted_def)
  next
    case 2
    then show ?thesis
      using ack_result [OF l(1)] st z by (auto simp: on_data_def fin_def fits_def consumed_def accepted_def)
  next
    case 3
    let ?s = "upd cid (\<lambda>c. c\<lparr>pending_payload := pending_payload c @ tcp_payload t\<rparr>) s"
    have "\<exists>s'. accept_payload cid t ?s = (None, s') \<and>
      (let fin = has_flag (tcp_flags t) TCP_FIN; len = int (length (tcp_payload t))
       in consumed cid ?s [] (len + (if fin then 1 else 0)) (if fin then CLOSE_WAIT else ESTABLISHED) True s')"
      using l(1) st by (intro accept_result) simp_all
    with 3 show ?thesis
      by (auto simp: on_data_def fin_def fits_def consumed_def accepted_def Let_def)
  next
    case 4
    let ?s = "emit (Host_write cid (tcp_payload t)) s"
    have "\<exists>s'. accept_payload cid t ?s = (None, s') \<and>
      (let fin = has_flag (tcp_flags t) TCP_FIN; len = int (length (tcp_payload t))
       in consumed cid ?s [] (len + (if fin then 1 else 0)) (if fin then CLOSE_WAIT else ESTABLISHED) True s')"
      using l(1) st by (intro accept_result) simp_all
    with 4 show ?thesis
      by (auto simp: on_data_def fin_def fits_def consumed_def accepted_def Let_def)
  qed
qed


text \<open>The greeting established the connection; the chip now sends the rest of its data and a FIN.\<close>

lemma greeted_run: "runs (nat_step public_env) nat_new greeted_state"
proof -
  have "nat_step public_env opened_state
      (Segment 0 1 True STA_MAC (sample_ip 93) (sample_seg 16 1001 5001 [104, 105])) greeted_state"
    unfolding greeted_state_def by (rule nat_step.step_segment) simp_all
  with opened_run show ?thesis by (rule runs_step)
qed

lemma greeted_conn:
  "dict_get (conns greeted_state) ([10, 13, 37, 42], 49152, [93, 184, 216, 34], 80) = Some 0"
  "state (objs greeted_state 0) = ESTABLISHED" "chip_seq (objs greeted_state 0) = 1003"
proof -
  have fl: "\<not> has_flag 16 TCP_RST" "has_flag 16 TCP_ACK" "\<not> has_flag 16 TCP_FIN"
    by (simp_all add: has_flag_def tcp_flag_defs)
  show st: "state (objs greeted_state 0) = ESTABLISHED" and "chip_seq (objs greeted_state 0) = 1003"
    using opened_found opened_conn fl
    by (simp_all add: greeted_state_def handle_chip_segment_def Let_def on_segment_def
        on_handshake_complete_def on_data_def accept_payload_def snd_andthen maybe_fin_def
        seq_add_mod split: option.split)
  have inv: "nat_inv greeted_state" by (rule nat.inv_reachable [OF nat_start_new greeted_run])
  have "conn_key (objs greeted_state 0) = conn_key (objs opened_state 0)"
    using opened_found opened_conn fl
    by (simp add: greeted_state_def handle_chip_segment_def Let_def on_segment_def
        on_handshake_complete_def on_data_def accept_payload_def snd_andthen maybe_fin_def
        split: option.split)
  then show "dict_get (conns greeted_state) ([10, 13, 37, 42], 49152, [93, 184, 216, 34], 80) = Some 0"
    using nat_inv_obj [OF inv, of 0] greeted_written(2) st opened_conn(3)
    by (simp add: obj_ok_def Let_def)
qed


section \<open>Data to the chip\<close>

text \<open>A data or FIN segment of the connection, as the chip reads it.\<close>

definition is_segment :: "conn \<Rightarrow> int \<Rightarrow> bytes \<Rightarrow> bytes \<Rightarrow> bool" where
  "is_segment c fl p f \<longleftrightarrow> (\<exists>r. tcp_frame_view f = from_peer c r \<and> src_port r = conn_dst_port c \<and>
     dst_port r = chip_port c \<and> tcp_flags r = fl \<and> seq_no r = our_seq c \<and> ack_no r = chip_seq c \<and>
     tcp_payload r = p)"

lemma frame_for_segment:
  assumes wf: "wf_conn c" and p: "length p \<le> 1460" and fl: "0 \<le> fl" "fl < 512"
  shows "is_segment c fl p (frame_for c fl (our_seq c) (chip_seq c) [] p)"
proof -
  have "tcp_frame_view (frame_for c fl (our_seq c) (chip_seq c) [] p) =
      from_peer c (sent c fl (our_seq c) (chip_seq c) [] p)"
    using p by (intro frame_for_view(2) [OF wf]) simp_all
  moreover have "our_seq c mod 4294967296 = our_seq c" "chip_seq c mod 4294967296 = chip_seq c"
    using wf by (simp_all add: wf_conn_def)
  ultimately show ?thesis using fl by (auto simp: is_segment_def)
qed

lemma frame_for_state [simp]:
  "frame_for (c\<lparr>state := st\<rparr>) fl sq ak opts p = frame_for c fl sq ak opts p"
  by (simp add: frame_for_def conn_frame_def conn_segment_def)

text \<open>C19: Whenever the pump's read returns, exactly one frame goes to the chip. Data becomes one
  PSH+ACK segment at the sequence number in turn, carrying what was read up to the MSS, and
  advances that number by its length. At the end of the host's stream (or when the chip
  announced an MSS of 0) a FIN takes one sequence number, the connection passes from
  ESTABLISHED to FIN_WAIT_1 or from CLOSE_WAIT to LAST_ACK, and the pump is over.\<close>

theorem pump_forwards:
  assumes "nat_start s0" "runs (nat_step env) s0 s" "cid < next_cid s"
    and "host_pump_task (objs s cid) = Some Pump_read"
  shows "let c = objs s cid; chunk = take (nat (mss c)) avail; s' = pump_chunk cid now avail s; c' = objs s' cid
    in \<exists>f. trace s' = trace s @ [Inject f] \<and>
      (if chunk \<noteq> []
       then is_segment c 24 chunk f \<and> our_seq c' = seq_add (our_seq c) (int (length chunk)) \<and>
            state c' = state c \<and> host_pump_task c' = Some Pump_read
       else is_segment c 17 [] f \<and> our_seq c' = seq_add (our_seq c) 1 \<and>
            state c' = (if state c = ESTABLISHED then FIN_WAIT_1 else LAST_ACK) \<and>
            host_pump_task c' = Some Pump_done)"
proof -
  have inv: "nat_inv s" using assms(1,2) by (rule nat.inv_reachable)
  have ok: "obj_ok s cid" using inv assms(3) by (rule nat_inv_obj)
  note at = pump_attached [OF ok assms(4), simplified]
  let ?c = "objs s cid" and ?chunk = "take (nat (mss (objs s cid))) avail"
  have st: "state ?c = ESTABLISHED \<or> state ?c = CLOSE_WAIT"
    using at assms(4) by (cases "state ?c") (auto simp: attached_phase_def)
  have wf: "wf_conn ?c" using obj_ok_live [OF ok] at by simp
  have len: "int (length ?chunk) \<le> mss ?c" "length ?chunk \<le> 1460"
    using wf by (auto simp: wf_conn_def)
  have fl: "TCP_ACK OR TCP_PSH = 24" "TCP_ACK OR TCP_FIN = 17" by (simp_all add: tcp_flag_defs)
  show ?thesis
  proof (cases "?chunk = []")
    case False
    have "send_segments cid now ?chunk s = (None, data_sent cid now ?chunk s)"
      using wf False len by (intro send_segments_one) simp_all
    then show ?thesis
      using False st frame_for_segment [OF wf len(2), of 24]
      by (auto simp: pump_chunk_def read_chunk_def Let_def data_sent_def pump_loop_def pump_guard_def fl)
  next
    case True
    have "wf_conn (?c\<lparr>state := st\<rparr>)" for st using wf by simp
    then show ?thesis
      using True st frame_for_segment [OF wf, of "[]" 17]
      by (auto simp: pump_chunk_def read_chunk_def Let_def pump_finish_def pump_guard_def
          send_fin_def send_eq fl)
  qed
qed

text \<open>The pump of the greeted connection reads once its sleep ends.\<close>

definition reading_state :: tcp_nat where
  "reading_state = pump_wake 0 greeted_state"

lemma reading_run: "runs (nat_step public_env) nat_new reading_state"
  and reading_conn: "host_pump_task (objs reading_state 0) = Some Pump_read" "next_cid reading_state = 1"
proof -
  have inv: "nat_inv greeted_state" by (rule nat.inv_reachable [OF nat_start_new greeted_run])
  have ok: "obj_ok greeted_state 0" using greeted_written(2) by (intro nat_inv_obj [OF inv]) simp
  have fl: "\<not> has_flag 16 TCP_RST" "has_flag 16 TCP_ACK" "\<not> has_flag 16 TCP_FIN"
    by (simp_all add: has_flag_def tcp_flag_defs)
  have "host_writer (objs greeted_state 0) = Some 0"
    using opened_found opened_conn fl
    by (simp add: greeted_state_def handle_chip_segment_def Let_def on_segment_def
        on_handshake_complete_def on_data_def accept_payload_def snd_andthen maybe_fin_def
        split: option.split)
  moreover have "host_pump_task (objs greeted_state 0) = host_pump_task (objs opened_state 0)"
    using opened_found opened_conn fl
    by (simp add: greeted_state_def handle_chip_segment_def Let_def on_segment_def
        on_handshake_complete_def on_data_def accept_payload_def snd_andthen maybe_fin_def
        split: option.split)
  moreover have "host_pump_task (objs opened_state 0) = Some Pump_wait"
  proof -
    have o: "obj_ok opened_state 0" using opened_conn(1) by (intro nat_inv_obj [OF opened_inv]) simp
    then show ?thesis
      using obj_ok_live(3) [OF o] opened_conn(2,7) by (auto simp: phase_defs)
  qed
  ultimately have p: "host_pump_task (objs greeted_state 0) = Some Pump_wait" by simp
  then have "nat_step public_env greeted_state (Pump_wake 0) reading_state"
    unfolding reading_state_def using greeted_written(2) by (intro nat_step.step_pump_wake) simp_all
  with greeted_run show "runs (nat_step public_env) nat_new reading_state" by (rule runs_step)
  show "host_pump_task (objs reading_state 0) = Some Pump_read" "next_cid reading_state = 1"
    using greeted_conn(2) greeted_written(2)
    by (simp_all add: reading_state_def pump_wake_def pump_loop_def pump_guard_def)
qed

theorem pump_forwards_witness:
  "\<exists>f. trace (pump_chunk 0 3 [] reading_state) = trace reading_state @ [Inject f] \<and>
     is_segment (objs reading_state 0) 17 [] f"
  using pump_forwards [OF nat_start_new reading_run, of 0 "[]" 3] reading_conn by (auto simp: Let_def)

section \<open>The deferred connect\<close>

lemma discard_key_simps:
  "objs (discard_key cid s) = objs s" "conns (discard_key cid s) = conns s"
  "trace (discard_key cid s) = trace s"
  "connecting (discard_key cid s) = connecting s - {conn_key (objs s cid)}"
  by (simp_all add: discard_key_def)

text \<open>C18: When the dial of a connection the chip already believes in succeeds, everything held for
  it is written to the new socket in order, in one call, followed by the end of stream if the
  chip had already closed its side; the key is released, the socket attached and the pump
  started. When the dial fails the chip gets exactly one reset and the connection is gone.\<close>

theorem deferred_connect_settles:
  assumes "nat_start s0" "runs (nat_step env) s0 s" "cid < next_cid s"
    and "pending_connect (objs s cid) = Some Def_dialing"
  shows "let c = objs s cid; s1 = deferred_done cid True True s; s2 = deferred_done cid False wr s
    in trace s1 = trace s @ (if pending_payload c \<noteq> [] then [Host_write cid (pending_payload c)] else []) @
         (if state c = CLOSE_WAIT then [Host_eof cid] else []) \<and>
       host_writer (objs s1 cid) = Some cid \<and> host_pump_task (objs s1 cid) = Some Pump_wait \<and>
       pending_payload (objs s1 cid) = [] \<and> state (objs s1 cid) = state c \<and>
       conn_key c \<notin> connecting s1 \<and>
       (\<exists>f. trace s2 = trace s @ [Inject f] \<and>
          tcp_frame_view f = from_peer c (tcp_norm (dst_ip c) (chip_ip c) (close_rst c))) \<and>
       state (objs s2 cid) = CLOSED \<and> dict_get (conns s2) (conn_key c) = None \<and>
       conn_key c \<notin> connecting s2"
proof -
  have inv: "nat_inv s" using assms(1,2) by (rule nat.inv_reachable)
  have ok: "obj_ok s cid" using inv assms(3) by (rule nat_inv_obj)
  note de = deferred_ok [OF ok, unfolded assms(4), simplified]
  note l = obj_ok_live [OF ok de(2)]
  have eof: "pending_eof (objs s cid) \<longleftrightarrow> state (objs s cid) = CLOSE_WAIT"
    and w: "host_writer (objs s cid) = None"
    using de(1) by (simp_all add: deferred_phase_def)
  let ?u = "upd cid (pending_connect_update (\<lambda>_. None)) (discard_key cid s)"
  have u: "state (objs ?u cid) \<noteq> CLOSED" "wf_conn (objs ?u cid)"
    using de(2) l(1) by (simp_all add: discard_key_def)
  obtain f where f: "close_rst_frame (objs ?u cid) = Inr f"
    "tcp_frame_view f = from_peer (objs s cid) (tcp_norm (dst_ip (objs s cid)) (chip_ip (objs s cid)) (close_rst (objs s cid)))"
    using close_rst_frame_view [OF u(2)] by (auto simp: discard_key_def from_peer_def close_rst_def)
  have "deferred_done cid False wr s = close_conn cid True ?u"
    using de(2) by (simp add: deferred_done_def Let_def discard_key_def)
  then have s2: "trace (deferred_done cid False wr s) = trace s @ [Inject f]"
    "state (objs (deferred_done cid False wr s) cid) = CLOSED"
    "dict_get (conns (deferred_done cid False wr s)) (conn_key (objs s cid)) = None"
    "conn_key (objs s cid) \<notin> connecting (deferred_done cid False wr s)"
    using f(1) w by (simp_all add: close_conn_eq [OF u])
      (simp_all add: discard_key_simps close_actions_def closed_conn_def dict_laws)
  have s1: "trace (deferred_done cid True True s) =
      trace s @ (if pending_payload (objs s cid) \<noteq> [] then [Host_write cid (pending_payload (objs s cid))] else []) @
         (if state (objs s cid) = CLOSE_WAIT then [Host_eof cid] else [])"
    "host_writer (objs (deferred_done cid True True s) cid) = Some cid"
    "host_pump_task (objs (deferred_done cid True True s) cid) = Some Pump_wait"
    "pending_payload (objs (deferred_done cid True True s) cid) = []"
    "state (objs (deferred_done cid True True s) cid) = state (objs s cid)"
    "conn_key (objs s cid) \<notin> connecting (deferred_done cid True True s)"
    using de(2) eof by (simp_all add: deferred_done_def Let_def discard_key_def attach_def
        start_pump_def flush_eof_def)
  show ?thesis using s1 s2 f(2) by (auto simp: Let_def)
qed

text \<open>The dial of the sample SYN outlasts the grace period.\<close>

definition grace_state :: tcp_nat where
  "grace_state = snd (syn_grace 0 syn_state)"

definition dialing_state :: tcp_nat where
  "dialing_state = deferred_start 0 grace_state"

abbreviation sample_key :: flow_key where
  "sample_key \<equiv> ([10, 13, 37, 42], 49152, [93, 184, 216, 34], 80)"

lemma grace_run: "runs (nat_step public_env) nat_new grace_state"
proof -
  have "waiting syn_state 0 = Some (STA_MAC, sample_ip 93, sample_seg 2 1000 0 [])"
    by (simp add: opened_syn allocated_def)
  then have "nat_step public_env syn_state (Syn_grace 0) grace_state"
    unfolding grace_state_def by (rule nat_step.step_grace)
  moreover have "runs (nat_step public_env) nat_new syn_state"
    using syn_step by (metis runs_refl runs_step)
  ultimately show ?thesis by (metis runs_step)
qed

lemma grace_conn:
  "next_cid grace_state = 1" "pending_connect (objs grace_state 0) = Some Def_scheduled"
  "state (objs grace_state 0) = SYN_RCVD" "conn_key (objs grace_state 0) = sample_key"
  "connecting grace_state = {sample_key}" "waiting grace_state = (\<lambda>_. None)"
  "host_writer (objs grace_state 0) = None" "dict_get (conns grace_state) sample_key = Some 0"
  "wf_conn (objs grace_state 0)"
proof -
  let ?c = "new_conn STA_MAC (sample_ip 93) (sample_seg 2 1000 0 []) 5000 0"
  have wf: "wf_conn ?c" by (rule wf_new_conn) simp_all
  show "next_cid grace_state = 1" "pending_connect (objs grace_state 0) = Some Def_scheduled"
    "state (objs grace_state 0) = SYN_RCVD" "conn_key (objs grace_state 0) = sample_key"
    "connecting grace_state = {sample_key}" "waiting grace_state = (\<lambda>_. None)"
    "host_writer (objs grace_state 0) = None" "dict_get (conns grace_state) sample_key = Some 0"
    "wf_conn (objs grace_state 0)"
    using wf by (simp_all add: grace_state_def opened_syn syn_grace_def end_wait_def allocated_def
        register_conn_eq dict_laws) (simp_all add: new_conn_def)
qed

lemma dialing_run: "runs (nat_step public_env) nat_new dialing_state"
proof -
  have "nat_step public_env grace_state (Deferred_start 0) dialing_state"
    unfolding dialing_state_def using grace_conn by (intro nat_step.step_deferred_start) simp_all
  with grace_run show ?thesis by (rule runs_step)
qed

theorem deferred_connect_settles_witness:
  "host_writer (objs (deferred_done 0 True True dialing_state) 0) = Some 0 \<and>
   state (objs (deferred_done 0 False True dialing_state) 0) = CLOSED"
  using deferred_connect_settles [OF nat_start_new dialing_run, of 0 True] grace_conn
  by (auto simp: dialing_state_def deferred_start_def Let_def)

section \<open>Dialling\<close>

text \<open>An attempt that opens a socket before its timeout, and one that neither opens nor fails.\<close>

definition answers_within :: "reply \<Rightarrow> nat \<Rightarrow> bool" where
  "answers_within r t \<longleftrightarrow> (\<exists>d < t. r = Opens d)"

definition times_out :: "reply \<Rightarrow> nat \<Rightarrow> bool" where
  "times_out r t \<longleftrightarrow> (\<forall>d < t. r \<noteq> Opens d \<and> r \<noteq> Fails d)"

lemma connect_attempts_bounds:
  assumes "connect_attempts ts net i e = (ok, n, used)"
  shows "i \<le> n \<and> n \<le> i + length ts \<and> e \<le> used \<and> used \<le> e + sum_list ts"
  using assms
proof (induction ts arbitrary: i e)
  case (Cons t ts)
  then show ?case
    by (cases "net i") (fastforce split: if_splits)+
qed simp

lemma connect_attempts_time: "fst (connect_attempts ts net i e) \<longleftrightarrow> fst (connect_attempts ts net i 0)"
proof (induction ts arbitrary: i e)
  case (Cons t ts)
  have "fst (connect_attempts ts net (Suc i) d) \<longleftrightarrow> fst (connect_attempts ts net (Suc i) 0)" for d
    by (rule Cons.IH)
  then show ?case by (cases "net i") auto
qed simp

lemma connect_attempts_step:
  "fst (connect_attempts (t # ts) net i e) \<longleftrightarrow>
     answers_within (net i) t \<or> times_out (net i) t \<and> fst (connect_attempts ts net (Suc i) e)"
proof -
  have "fst (connect_attempts ts net (Suc i) d) \<longleftrightarrow> fst (connect_attempts ts net (Suc i) e)" for d
    using connect_attempts_time by blast
  then show ?thesis by (cases "net i") (auto simp: answers_within_def times_out_def)
qed

lemma connect_attempts_opened:
  "fst (connect_attempts ts net i e) \<longleftrightarrow> (\<exists>j < length ts. answers_within (net (i + j)) (ts ! j) \<and>
     (\<forall>k < j. times_out (net (i + k)) (ts ! k)))"
proof (induction ts arbitrary: i e)
  case (Cons t ts)
  have ex: "(\<exists>j < length (t # ts). P j) \<longleftrightarrow> P 0 \<or> (\<exists>j < length ts. P (Suc j))" for P
    by (simp add: Ex_less_Suc2)
  show ?case
    unfolding ex connect_attempts_step Cons.IH by (auto simp: All_less_Suc2)
qed simp

text \<open>C21: \<^verbatim>\<open>_connect_with_retries\<close> always ends, within five sockets and the 9.5 seconds of the
  timeout ladder. It opens a socket exactly when some attempt is answered within its own
  timeout and every attempt before it neither opened nor was refused in time; so a refusal is
  final, while silence, and a time-out reported by the operating system, is retried.\<close>

theorem connect_retries:
  "case connect_with_retries net of (opened, tried, elapsed) \<Rightarrow>
     tried \<le> 5 \<and> elapsed \<le> 9500 \<and>
     (opened \<longleftrightarrow> (\<exists>j < 5. answers_within (net j) (CONNECT_ATTEMPT_TIMEOUTS ! j) \<and>
        (\<forall>k < j. times_out (net k) (CONNECT_ATTEMPT_TIMEOUTS ! k))))"
proof -
  obtain opened tried elapsed where c: "connect_with_retries net = (opened, tried, elapsed)"
    by (cases "connect_with_retries net")
  have "length CONNECT_ATTEMPT_TIMEOUTS = 5" "sum_list CONNECT_ATTEMPT_TIMEOUTS = 9500"
    by (simp_all add: CONNECT_ATTEMPT_TIMEOUTS_def)
  then show ?thesis
    using connect_attempts_bounds [of CONNECT_ATTEMPT_TIMEOUTS net 0 0 opened tried elapsed]
      connect_attempts_opened [of CONNECT_ATTEMPT_TIMEOUTS net 0 0] c
    by (simp add: connect_with_retries_def)
qed

theorem connect_retries_witness:
  "fst (connect_with_retries (\<lambda>i. if i = 0 then Silent else Opens 10))"
proof -
  let ?net = "\<lambda>i::nat. if i = 0 then Silent else Opens 10"
  obtain opened tried elapsed where c: "connect_with_retries ?net = (opened, tried, elapsed)"
    by (cases "connect_with_retries ?net")
  have "\<exists>j < 5. answers_within (?net j) (CONNECT_ATTEMPT_TIMEOUTS ! j) \<and>
      (\<forall>k < j. times_out (?net k) (CONNECT_ATTEMPT_TIMEOUTS ! k))"
    by (rule exI [of _ 1])
      (simp add: answers_within_def times_out_def CONNECT_ATTEMPT_TIMEOUTS_def)
  then have "opened"
    using connect_retries [of ?net] unfolding c by blast
  then show ?thesis using c by simp
qed

section \<open>The handshake\<close>



section \<open>Shutdown\<close>

lemma close_all_closed:
  "c \<in> set cs \<Longrightarrow> state (objs (fold (\<lambda>cid. close_conn cid True) cs s) c) = CLOSED"
proof (induction cs arbitrary: s)
  case (Cons cid cs)
  have keep: "state (objs u c) = CLOSED \<Longrightarrow> state (objs (fold (\<lambda>cid. close_conn cid True) cs u) c) = CLOSED" for u
  proof (induction cs arbitrary: u)
    case (Cons d ds)
    have "state (objs (close_conn d True u) c) = CLOSED"
      using close_conn_any(1) [of c u d True] Cons.prems antisym [OF state_order(2)] by (simp add: moves_def)
    then show ?case using Cons.IH by simp
  qed simp
  have "state (objs (close_conn c True s) c) = CLOSED"
    by (simp add: close_conn_def Let_def split: option.splits sum.splits)
  then show ?case using Cons keep by (cases "c = cid") auto
qed simp

text \<open>Shutting the manager down closes every connection and dials nothing.\<close>

lemma shutdown_closes_all:
  assumes "nat_start s0" "runs (nat_step env) s0 s"
  shows "(\<forall>k. dict_get (conns (shutdown s)) k = None) \<and>
    (\<forall>cid < next_cid s. state (objs (shutdown s) cid) = CLOSED \<and>
       host_pump_task (objs (shutdown s) cid) \<notin> {Some Pump_wait, Some Pump_read}) \<and>
    dials (trace (shutdown s)) = dials (trace s)"
proof -
  have inv: "nat_inv s" using assms by (rule nat.inv_reachable)
  have inv': "nat_inv (shutdown s)" using inv by (rule nat_inv_shutdown)
  have closed: "state (objs (shutdown s) cid) = CLOSED" if n: "cid < next_cid s" for cid
  proof (cases "state (objs s cid) = CLOSED")
    case True
    have "waiting (shutdown s) cid = waiting s cid \<and> state (objs s cid) \<le> state (objs (shutdown s) cid)"
    proof -
      have "moves cid u (fold (\<lambda>d. close_conn d True) cs u)" for cs u
        by (induction cs arbitrary: u) (auto intro: moves_refl moves_trans [OF close_conn_any(1)])
      then show ?thesis by (simp add: shutdown_def moves_def)
    qed
    then show ?thesis using True antisym [OF state_order(2)] by simp
  next
    case False
    then have "dict_get (conns s) (conn_key (objs s cid)) = Some cid"
      using nat_inv_obj [OF inv n] by (simp add: obj_ok_def Let_def)
    then have "cid \<in> set (map snd (conns s))"
      by (force simp: dict_get_def dest: map_of_SomeD)
    then show ?thesis unfolding shutdown_def by (rule close_all_closed)
  qed
  have n': "next_cid (shutdown s) = next_cid s"
  proof -
    have "next_cid (fold (\<lambda>d. close_conn d True) cs u) = next_cid u" for cs u
      by (induction cs arbitrary: u) (simp_all add: close_conn_any)
    then show ?thesis by (simp add: shutdown_def)
  qed
  have "dict_get (conns (shutdown s)) k = None" for k
    using nat_inv_found [OF inv', of k] closed n' by (cases "dict_get (conns (shutdown s)) k") auto
  moreover have "host_pump_task (objs (shutdown s) cid) \<notin> {Some Pump_wait, Some Pump_read}"
    if "cid < next_cid s" for cid
    using pump_attached(2) [of "shutdown s" cid] nat_inv_obj [OF inv'] closed [OF that] n' that by auto
  ultimately show ?thesis using closed dials_shutdown by simp
qed

section \<open>A key that is never released\<close>

text \<open>
  The deferred connect releases the key in a \<^verbatim>\<open>finally\<close> clause; a task that is cancelled before
  it has started does not run it. \<open>stuck\<close>: the key is held and nobody is left to release it.
\<close>

definition stuck :: "flow_key \<Rightarrow> tcp_nat \<Rightarrow> bool" where
  "stuck k s \<longleftrightarrow> nat_inv s \<and> k \<in> connecting s \<and>
     (\<forall>cid < next_cid s. conn_key (objs s cid) = k \<longrightarrow> \<not> active s cid)"

lemma stuck_local:
  assumes "stuck k s" "cid < next_cid s" "active s cid" "local_change cid s s'" "nat_inv s'"
  shows "stuck k s'"
proof -
  have ne: "conn_key (objs s cid) \<noteq> k" using assms(1-3) unfolding stuck_def by blast
  have "k \<in> connecting s'" using assms(1,4) ne unfolding stuck_def local_change_def by metis
  moreover have "\<not> active s' c" if "c < next_cid s'" "conn_key (objs s' c) = k" for c
  proof (cases "c = cid")
    case True
    then show ?thesis using that(2) ne assms(4) by (simp add: local_change_def)
  next
    case False
    then have "objs s' c = objs s c" "waiting s' c = waiting s c" "next_cid s' = next_cid s"
      using assms(4) by (simp_all add: local_change_def)
    then show ?thesis using assms(1) that by (simp add: stuck_def active_def in_progress_def)
  qed
  ultimately show ?thesis using assms(5) by (simp add: stuck_def)
qed

lemma stuck_close: "stuck k s \<Longrightarrow> cid < next_cid s \<Longrightarrow> stuck k (close_conn cid r s)"
proof (cases "state (objs s cid) = CLOSED")
  case False
  assume s: "stuck k s" "cid < next_cid s"
  then have inv: "nat_inv s" by (simp add: stuck_def)
  have "closable cid s" using nat_inv_obj [OF inv s(2)] False by (rule obj_ok_closable)
  then show ?thesis
    using False nat_inv_close [OF inv s(2)]
    by (intro stuck_local [OF s _ close_conn_local]) (simp_all add: active_def)
qed (simp add: close_conn_def)

lemma stuck_emit: "stuck k s \<Longrightarrow> (\<And>c. written c [a] = []) \<Longrightarrow> stuck k (emit a s)"
  by (simp add: stuck_def nat_inv_emit active_def in_progress_def)

lemma stuck_segment:
  assumes s: "stuck k s" and a: "length mac = 6" "wf_ipv4 ip" "parsed_tcp t" "0 \<le> isn" "isn < 4294967296"
  shows "stuck k (snd (handle_chip_segment env isn now wr mac ip t s))"
proof -
  have inv: "nat_inv s" using s by (simp add: stuck_def)
  have inv': "nat_inv (snd (handle_chip_segment env isn now wr mac ip t s))"
    using handle_chip_segment_inv [OF inv a, of env now wr] by auto
  show ?thesis
  proof (cases "dict_get (conns s) (flow_key_of ip t)")
    case (Some cid)
    note f = nat_inv_found [OF inv Some]
    obtain s' where s': "on_segment wr cid t s = (None, s')" "local_change cid s s'"
      using on_segment_fine [OF f(3,4), of wr t] by (auto simp: fine_def)
    then have "nat_inv s'" if "\<not> has_flag (tcp_flags t) TCP_RST"
      using inv' Some that by (simp add: handle_chip_segment_def Let_def)
    then have "stuck k s'" if "\<not> has_flag (tcp_flags t) TCP_RST"
      using that s'(2) f by (intro stuck_local [OF s f(1)]) (simp_all add: active_def)
    then show ?thesis
      using Some s'(1) stuck_close [OF s f(1)] by (simp add: handle_chip_segment_def Let_def)
  next
    case None
    show ?thesis
    proof (cases "flow_key_of ip t \<in> connecting s")
      case True
      then show ?thesis
        using None s a by (simp add: handle_chip_segment_def Let_def send_rst_eq stuck_emit)
    next
      case False
      have al: "stuck k (allocated mac ip t isn now (emit e s))" if "\<And>c. written c [e] = []" for e
      proof -
        have "nat_inv (allocated mac ip t isn now (emit e s))"
          using that inv None False a by (intro nat_inv_allocated) (simp_all add: nat_inv_emit)
        moreover have "flow_key_of ip t \<noteq> k" using s False by (auto simp: stuck_def)
        ultimately show ?thesis
          using s by (auto simp: stuck_def allocated_def active_def in_progress_def less_Suc_eq)
      qed
      then show ?thesis
        using None False s a
        by (auto simp: handle_chip_segment_def Let_def send_rst_eq stuck_emit on_passive_syn_cases split: prod.split)
    qed
  qed
qed

lemma stuck_step:
  assumes s: "stuck k s" and step: "nat_step env s e s'"
  shows "stuck k s'"
proof -
  have inv: "nat_inv s" using s by (simp add: stuck_def)
  have inv': "nat_inv s'" using inv step by (rule nat_inv_step)
  have obj: "obj_ok s cid" if "cid < next_cid s" for cid using inv that by (rule nat_inv_obj)
  have kept: ?thesis if "cid < next_cid s" "active s cid" "kept cid s s'" for cid
    by (rule stuck_local [OF s that(1,2) _ inv']) (use that(3) in \<open>simp add: kept_def\<close>)
  have opens: ?thesis if "cid < next_cid s" "active s cid" "fine cid s m" "s' = snd m" for cid m
    by (rule stuck_local [OF s that(1,2) _ inv']) (use that(3,4) in \<open>auto simp: fine_def\<close>)
  have pump_active: "active s cid"
    if "cid < next_cid s" "host_pump_task (objs s cid) \<in> {Some Pump_wait, Some Pump_read}" for cid
    using pump_attached(2) [OF obj [OF that(1)]] that(2) by (auto simp: active_def)
  show ?thesis
    using step
  proof (cases rule: nat_step.cases)
    case (step_segment mac ip t isn now wr)
    then show ?thesis using stuck_segment [OF s] by simp
  next
    case (step_answered cid args net)
    note n = nat_inv_waiting [OF inv step_answered(3)]
    show ?thesis
      by (rule opens [OF n waiting_active [OF step_answered(3)]
          syn_answered_fine [OF obj [OF n] step_answered(3)] step_answered(2)])
  next
    case (step_grace cid args)
    note n = nat_inv_waiting [OF inv step_grace(3)]
    show ?thesis
      by (rule opens [OF n waiting_active [OF step_grace(3)] syn_grace_fine [OF obj [OF n] step_grace(3)]
          step_grace(2)])
  next
    case (step_deferred_start cid)
    then show ?thesis using kept [of cid] deferred_start_kept [OF obj]
      by (simp add: active_def in_progress_def)
  next
    case (step_deferred_done cid net wr)
    then show ?thesis using kept [of cid] deferred_done_kept [OF obj]
      by (simp add: active_def in_progress_def)
  next
    case (step_deferred_cancelled cid)
    then show ?thesis using kept [of cid] deferred_cancelled_kept [OF obj]
      by (simp add: active_def in_progress_def)
  next
    case (step_pump_wake cid)
    then show ?thesis using kept [of cid] pump_active pump_wake_kept [OF obj] by simp
  next
    case (step_pump_chunk cid now avail)
    then show ?thesis using kept [of cid] pump_active pump_chunk_kept [OF obj] by simp
  next
    case (step_pump_error cid e')
    then show ?thesis using kept [of cid] pump_active pump_error_kept [OF obj] by simp
  next
    case step_shutdown
    have "stuck k (fold (\<lambda>cid. close_conn cid True) cs u)"
      if "stuck k u" "\<forall>cid \<in> set cs. cid < next_cid u" for cs u
      using that by (induction cs arbitrary: u) (auto simp: stuck_close close_conn_any)
    moreover have "cid < next_cid s" if c: "cid \<in> set (map snd (conns s))" for cid
    proof -
      obtain k' where "(k', cid) \<in> set (conns s)" using c by auto
      then have "dict_get (conns s) k' = Some cid"
        using inv by (simp add: nat_inv_def dict_get_def dict_ok_def dict_keys_def)
      then show ?thesis by (rule nat_inv_found(1) [OF inv])
    qed
    ultimately show ?thesis using step_shutdown s by (simp add: shutdown_def)
  qed
qed

interpretation stuck: machine "stuck k" "nat_step env" "stuck k" for k env
  by unfold_locales (auto intro: stuck_step)

lemma stuck_refuses:
  assumes s: "stuck k s" and k: "flow_key_of ip t = k" and syn: "has_flag (tcp_flags t) TCP_SYN"
    "\<not> has_flag (tcp_flags t) TCP_ACK"
  shows "handle_chip_segment env isn now wr mac ip t s = (None, s)"
proof -
  have inv: "nat_inv s" using s by (simp add: stuck_def)
  have "dict_get (conns s) k = None"
  proof (cases "dict_get (conns s) k")
    case (Some cid)
    note f = nat_inv_found [OF inv Some]
    then have "active s cid" by (simp add: active_def)
    then show ?thesis using s f unfolding stuck_def by blast
  qed
  then show ?thesis
    using s k syn by (simp add: handle_chip_segment_def Let_def stuck_def)
qed

text \<open>The chip aborts right after the grace period, before the deferred task has run.\<close>

definition leaked_state :: tcp_nat where
  "leaked_state = snd (handle_chip_segment public_env 0 1 True STA_MAC (sample_ip 93)
     (sample_seg 4 1001 0 []) grace_state)"

lemma leaked_run: "runs (nat_step public_env) nat_new leaked_state"
proof -
  have "nat_step public_env grace_state
      (Segment 0 1 True STA_MAC (sample_ip 93) (sample_seg 4 1001 0 [])) leaked_state"
    unfolding leaked_state_def by (rule nat_step.step_segment) simp_all
  with grace_run show ?thesis by (rule runs_step)
qed

lemma leaked_stuck: "stuck sample_key leaked_state"
proof -
  have fl: "has_flag 4 TCP_RST" by (simp add: has_flag_def tcp_flag_defs)
  have l: "leaked_state = close_conn 0 False grace_state"
    using grace_conn fl by (simp add: leaked_state_def handle_chip_segment_def Let_def)
  have "state (objs grace_state 0) \<noteq> CLOSED" using grace_conn by simp
  note eq = close_conn_eq [OF this grace_conn(9), of False]
  have "\<not> active leaked_state 0" "next_cid leaked_state = 1" "sample_key \<in> connecting leaked_state"
    using grace_conn by (simp_all add: l eq active_def in_progress_def closed_conn_def cancel_deferred_def)
  moreover have "nat_inv leaked_state" by (rule nat.inv_reachable [OF nat_start_new leaked_run])
  ultimately show ?thesis by (simp add: stuck_def)
qed




end
