(* ===== verification/Udp_Nat.thy ===== *)
theory Udp_Nat
  imports Gateway_Frames Machine Egress_Log
begin

text \<open>
  The UDP NAT of \<^verbatim>\<open>velxiogw/net/udp_nat.py\<close> (class \<^verbatim>\<open>UdpNat\<close>). A handler is a function of the
  manager's state; the clock and the outcome of host I/O are arguments. \<^verbatim>\<open>_open_flow\<close> is cut
  at its await on \<^verbatim>\<open>create_datagram_endpoint\<close>; the reaper's step is what it does between two
  sleeps. The second half of the theory is the manager as a machine.
\<close>

section \<open>State\<close>

definition UDP_IDLE_TIMEOUT :: real where "UDP_IDLE_TIMEOUT = 60"

record udp_flow =
  flow_chip_mac :: bytes
  flow_chip_ip :: bytes
  flow_chip_port :: int
  flow_dst_ip :: bytes
  flow_dst_port :: int
  transport :: nat
  last_used :: real

datatype udp_action =
    Udp_inject bytes
  | Udp_egress string pystr int string
  | Udp_open nat pystr int
  | Udp_sendto nat bytes
  | Udp_close nat

text \<open>
  An endpoint is named by a number. \<open>pending_opens\<close> holds the calls suspended in
  \<^verbatim>\<open>create_datagram_endpoint\<close> by the endpoint they create, \<open>protos\<close> the \<^verbatim>\<open>_flow_key\<close> of the
  protocol object of each endpoint; \<open>reaper\<close> says whether \<^verbatim>\<open>_reaper_task\<close> is set.
\<close>

record udp_nat =
  flows :: "(flow_key, udp_flow) dict"
  reaper :: bool
  pending_opens :: "nat \<Rightarrow> (bytes \<times> ipv4 \<times> udp) option"
  protos :: "nat \<Rightarrow> flow_key option"
  next_transport :: nat
  udp_trace :: "udp_action list"

definition udp_emit :: "udp_action \<Rightarrow> udp_nat \<Rightarrow> udp_nat" where
  "udp_emit a s = s\<lparr>udp_trace := udp_trace s @ [a]\<rparr>"

section \<open>Operations\<close>

definition udp_key_of :: "ipv4 \<Rightarrow> udp \<Rightarrow> flow_key" where
  "udp_key_of ip u = (ip_src ip, udp_src_port u, ip_dst ip, udp_dst_port u)"

definition reap_flow :: "flow_key \<Rightarrow> udp_nat \<Rightarrow> udp_nat" where
  "reap_flow k s =
     (case dict_get (flows s) k of
        None \<Rightarrow> s
      | Some f \<Rightarrow> udp_emit (Udp_close (transport f)) (s\<lparr>flows := dict_pop k (flows s)\<rparr>))"

text \<open>The end of \<^verbatim>\<open>handle_chip_datagram\<close>: \<open>ok\<close> says whether \<^verbatim>\<open>sendto\<close> returns.\<close>

definition use_flow :: "real \<Rightarrow> bool \<Rightarrow> flow_key \<Rightarrow> udp_flow \<Rightarrow> bytes \<Rightarrow> udp_nat \<Rightarrow> udp_nat" where
  "use_flow now ok k f payload s =
     (let s1 = udp_emit (Udp_sendto (transport f) payload)
                 (s\<lparr>flows := dict_set k (f\<lparr>last_used := now\<rparr>) (flows s)\<rparr>)
      in if ok then s1 else reap_flow k s1)"

text \<open>\<^verbatim>\<open>_open_flow\<close> up to its await.\<close>

definition open_flow :: "egress_env \<Rightarrow> bytes \<Rightarrow> ipv4 \<Rightarrow> udp \<Rightarrow> udp_nat \<Rightarrow> udp_nat" where
  "open_flow env mac ip u s =
     (let host = dial_host (ip_dst ip); (allowed, reason) = is_allowed_dst env host (udp_dst_port u)
      in if \<not> allowed then udp_emit (Udp_egress ''blocked'' host (udp_dst_port u) reason) s
         else let tid = next_transport s;
                  s1 = udp_emit (Udp_egress ''allowed'' host (udp_dst_port u) ''ok'') s
              in udp_emit (Udp_open tid host (udp_dst_port u))
                   (s1\<lparr>next_transport := tid + 1, protos := (protos s1)(tid := Some (udp_key_of ip u)),
                       pending_opens := (pending_opens s1)(tid := Some (mac, ip, u))\<rparr>))"

definition new_flow :: "nat \<Rightarrow> bytes \<Rightarrow> ipv4 \<Rightarrow> udp \<Rightarrow> real \<Rightarrow> udp_flow" where
  "new_flow tid mac ip u now =
     \<lparr>flow_chip_mac = mac, flow_chip_ip = ip_src ip, flow_chip_port = udp_src_port u,
      flow_dst_ip = ip_dst ip, flow_dst_port = udp_dst_port u, transport = tid, last_used = now\<rparr>"

text \<open>
  The endpoint exists, or could not be created: the rest of \<^verbatim>\<open>_open_flow\<close> and, when there is a
  flow, of \<^verbatim>\<open>handle_chip_datagram\<close>. The two readings of the clock are \<open>now\<close> and \<open>now'\<close>.
\<close>

definition flow_opened ::
  "nat \<Rightarrow> bytes \<times> ipv4 \<times> udp \<Rightarrow> bool \<Rightarrow> real \<Rightarrow> real \<Rightarrow> bool \<Rightarrow> udp_nat \<Rightarrow> udp_nat" where
  "flow_opened tid args created now now' ok s =
     (let (mac, ip, u) = args; s1 = s\<lparr>pending_opens := (pending_opens s)(tid := None)\<rparr>
      in if \<not> created then s1
         else let k = udp_key_of ip u; f = new_flow tid mac ip u now
              in use_flow now' ok k f (udp_payload u)
                   (s1\<lparr>flows := dict_set k f (flows s1), reaper := True\<rparr>))"

definition handle_chip_datagram ::
  "egress_env \<Rightarrow> real \<Rightarrow> bool \<Rightarrow> bytes \<Rightarrow> ipv4 \<Rightarrow> udp \<Rightarrow> udp_nat \<Rightarrow> udp_nat" where
  "handle_chip_datagram env now ok mac ip u s =
     (let k = udp_key_of ip u
      in case dict_get (flows s) k of
           None \<Rightarrow> open_flow env mac ip u s
         | Some f \<Rightarrow> use_flow now ok k f (udp_payload u) s)"

definition flow_frame :: "udp_flow \<Rightarrow> bytes \<Rightarrow> bytes res" where
  "flow_frame f data = udp_frame (flow_chip_mac f) (flow_dst_ip f) (flow_chip_ip f)
     (udp_default\<lparr>udp_src_port := flow_dst_port f, udp_dst_port := flow_chip_port f, udp_payload := data\<rparr>)"

definition on_host_datagram :: "real \<Rightarrow> flow_key \<Rightarrow> bytes \<Rightarrow> udp_nat \<Rightarrow> udp_nat run" where
  "on_host_datagram now k data s =
     (case dict_get (flows s) k of
        None \<Rightarrow> (None, s)
      | Some f \<Rightarrow>
          let s1 = s\<lparr>flows := dict_set k (f\<lparr>last_used := now\<rparr>) (flows s)\<rparr>
          in case flow_frame f data of
               Inl e \<Rightarrow> (Some e, s1)
             | Inr b \<Rightarrow> (None, udp_emit (Udp_inject b) s1))"

text \<open>What the reaper does after a sleep.\<close>

definition stale_keys :: "real \<Rightarrow> (flow_key, udp_flow) dict \<Rightarrow> flow_key list" where
  "stale_keys cutoff d = map fst (filter (\<lambda>(k, f). last_used f < cutoff) d)"

definition reaper_wake :: "real \<Rightarrow> udp_nat \<Rightarrow> udp_nat" where
  "reaper_wake now s =
     (let s1 = fold reap_flow (stale_keys (now - UDP_IDLE_TIMEOUT) (flows s)) s
      in if flows s1 = [] then s1\<lparr>reaper := False\<rparr> else s1)"

definition udp_shutdown :: "udp_nat \<Rightarrow> udp_nat" where
  "udp_shutdown s = (fold reap_flow (dict_keys (flows s)) s)\<lparr>reaper := False\<rparr>"

section \<open>The machine\<close>

datatype udp_event =
    Udp_datagram real bool bytes ipv4 udp
  | Udp_opened nat bool real real bool
  | Udp_received nat real bytes
  | Udp_reaper real
  | Udp_shutdown

text \<open>
  A datagram that the host kernel hands to an endpoint has at most 65507 bytes. The task that
  delivers it may run after the flow has gone.
\<close>

inductive udp_step :: "egress_env \<Rightarrow> udp_nat \<Rightarrow> udp_event \<Rightarrow> udp_nat \<Rightarrow> bool" for env where
  udp_step_datagram:
    "length mac = 6 \<Longrightarrow> wf_ipv4 ip \<Longrightarrow> wf_udp u \<Longrightarrow>
     udp_step env s (Udp_datagram now ok mac ip u) (handle_chip_datagram env now ok mac ip u s)"
| udp_step_opened:
    "pending_opens s tid = Some args \<Longrightarrow>
     udp_step env s (Udp_opened tid created now now' ok) (flow_opened tid args created now now' ok s)"
| udp_step_received:
    "protos s tid = Some k \<Longrightarrow> length data \<le> 65507 \<Longrightarrow>
     udp_step env s (Udp_received tid now data) (snd (on_host_datagram now k data s))"
| udp_step_reaper: "reaper s \<Longrightarrow> udp_step env s (Udp_reaper now) (reaper_wake now s)"
| udp_step_shutdown: "udp_step env s Udp_shutdown (udp_shutdown s)"

inductive_cases udp_stepE: "udp_step env s e t"

definition udp_new :: udp_nat where
  "udp_new = \<lparr>flows = [], reaper = False, pending_opens = (\<lambda>_. None), protos = (\<lambda>_. None),
     next_transport = 0, udp_trace = []\<rparr>"

section \<open>The invariant\<close>

definition closes :: "udp_action list \<Rightarrow> nat set" where
  "closes tr = {t. Udp_close t \<in> set tr}"

lemma closed_simps [simp]:
  "closes [] = {}" "closes (tr @ tr') = closes tr \<union> closes tr'"
  "closes (Udp_close t # tr) = insert t (closes tr)"
  "closes (Udp_inject b # tr) = closes tr" "closes (Udp_egress v h p r # tr) = closes tr"
  "closes (Udp_open t h p # tr) = closes tr" "closes (Udp_sendto t b # tr) = closes tr"
  by (auto simp: closes_def)

text \<open>No endpoint is used or closed once it has been closed.\<close>

fun disciplined :: "nat set \<Rightarrow> udp_action list \<Rightarrow> bool" where
  "disciplined C [] \<longleftrightarrow> True"
| "disciplined C (Udp_sendto t b # tr) \<longleftrightarrow> t \<notin> C \<and> disciplined C tr"
| "disciplined C (Udp_close t # tr) \<longleftrightarrow> t \<notin> C \<and> disciplined (insert t C) tr"
| "disciplined C (_ # tr) \<longleftrightarrow> disciplined C tr"

lemma disciplined_append [simp]:
  "disciplined C (tr @ tr') \<longleftrightarrow> disciplined C tr \<and> disciplined (C \<union> closes tr) tr'"
  by (induction C tr rule: disciplined.induct) (auto simp: insert_commute)

fun udp_opens :: "udp_action list \<Rightarrow> (nat \<times> pystr \<times> int) list" where
  "udp_opens [] = []"
| "udp_opens (Udp_open t host port # tr) = (t, host, port) # udp_opens tr"
| "udp_opens (_ # tr) = udp_opens tr"

lemma udp_opens_append [simp]: "udp_opens (tr @ tr') = udp_opens tr @ udp_opens tr'"
  by (induction tr rule: udp_opens.induct) simp_all

definition flow_key :: "udp_flow \<Rightarrow> flow_key" where
  "flow_key f = (flow_chip_ip f, flow_chip_port f, flow_dst_ip f, flow_dst_port f)"

definition wf_flow :: "udp_flow \<Rightarrow> bool" where
  "wf_flow f \<longleftrightarrow> length (flow_chip_mac f) = 6 \<and> length (flow_chip_ip f) = 4 \<and>
     length (flow_dst_ip f) = 4 \<and> 0 \<le> flow_chip_port f \<and> flow_chip_port f < 65536 \<and>
     0 \<le> flow_dst_port f \<and> flow_dst_port f < 65536"

text \<open>An endpoint that exists for a key and is still open.\<close>

definition endpoint_open :: "udp_nat \<Rightarrow> nat \<Rightarrow> flow_key \<Rightarrow> bool" where
  "endpoint_open s t k \<longleftrightarrow> t < next_transport s \<and> protos s t = Some k \<and> t \<notin> closes (udp_trace s)"

definition flow_ok :: "udp_nat \<Rightarrow> flow_key \<Rightarrow> udp_flow \<Rightarrow> bool" where
  "flow_ok s k f \<longleftrightarrow> flow_key f = k \<and> wf_flow f \<and> endpoint_open s (transport f) k \<and>
     pending_opens s (transport f) = None"

definition pending_ok :: "udp_nat \<Rightarrow> nat \<Rightarrow> bytes \<times> ipv4 \<times> udp \<Rightarrow> bool" where
  "pending_ok s t = (\<lambda>(mac, ip, u). endpoint_open s t (udp_key_of ip u) \<and>
     length mac = 6 \<and> wf_ipv4 ip \<and> wf_udp u)"

definition udp_inv :: "egress_env \<Rightarrow> udp_nat \<Rightarrow> bool" where
  "udp_inv env s \<longleftrightarrow> dict_ok (flows s) \<and> (flows s \<noteq> [] \<longrightarrow> reaper s) \<and>
     dict_all (flow_ok s) (flows s) \<and> map_all (pending_ok s) (pending_opens s) \<and>
     (\<forall>t \<in> closes (udp_trace s). t < next_transport s) \<and>
     disciplined {} (udp_trace s) \<and>
     list_all (\<lambda>(t, host, port). guarded_target env host port) (udp_opens (udp_trace s))"

lemma udp_inv_new: "udp_inv env udp_new"
  by (simp add: udp_inv_def udp_new_def dict_ok_def dict_keys_def)

lemma udp_emit_simps [simp]:
  "flows (udp_emit a s) = flows s" "reaper (udp_emit a s) = reaper s"
  "pending_opens (udp_emit a s) = pending_opens s" "protos (udp_emit a s) = protos s"
  "next_transport (udp_emit a s) = next_transport s" "udp_trace (udp_emit a s) = udp_trace s @ [a]"
  by (simp_all add: udp_emit_def)

lemma udp_inv_flow: "udp_inv env s \<Longrightarrow> dict_get (flows s) k = Some f \<Longrightarrow> flow_ok s k f"
  by (auto simp: udp_inv_def intro: dict_all_get)

lemma udp_inv_pending: "udp_inv env s \<Longrightarrow> pending_opens s t = Some args \<Longrightarrow> pending_ok s t args"
  by (auto simp: udp_inv_def intro: map_all_get)

lemma udp_inv_reaper: "udp_inv env s \<Longrightarrow> dict_get (flows s) k = Some f \<Longrightarrow> reaper s"
  by (auto simp: udp_inv_def dict_get_def)

text \<open>What \<open>flow_ok\<close> and \<open>pending_ok\<close> depend on.\<close>

lemma udp_ok_cong:
  assumes "pending_opens s' = pending_opens s" "protos s' = protos s"
    "next_transport s' = next_transport s" "closes (udp_trace s') = closes (udp_trace s)"
  shows "flow_ok s' = flow_ok s" "pending_ok s' = pending_ok s"
  using assms by (auto simp: fun_eq_iff flow_ok_def pending_ok_def endpoint_open_def)

text \<open>What a step appends, when it neither closes nor opens an endpoint.\<close>

lemma udp_inv_emit:
  assumes "udp_inv env s" "closes [a] = {}" "udp_opens [a] = []" "disciplined (closes (udp_trace s)) [a]"
  shows "udp_inv env (udp_emit a s)"
  using assms udp_ok_cong [of "udp_emit a s" s] by (simp add: udp_inv_def)

lemma udp_inv_put:
  assumes "udp_inv env s" "flow_ok s k f" "reaper s"
  shows "udp_inv env (s\<lparr>flows := dict_set k f (flows s)\<rparr>)"
  using assms udp_ok_cong [of "s\<lparr>flows := dict_set k f (flows s)\<rparr>" s]
  by (auto simp: udp_inv_def py_dict.ok_put intro: dict_all_set dict_all_get)

lemma udp_inv_reap:
  assumes inv: "udp_inv env s"
  shows "udp_inv env (reap_flow k s)"
proof (cases "dict_get (flows s) k")
  case None
  then show ?thesis using inv by (simp add: reap_flow_def)
next
  case (Some f)
  let ?s = "udp_emit (Udp_close (transport f)) (s\<lparr>flows := dict_pop k (flows s)\<rparr>)"
  note f = udp_inv_flow [OF inv Some]
  have "dict_all (flow_ok ?s) (flows ?s)"
  proof (simp, rule dict_all_pop)
    fix k' f' assume "k' \<noteq> k" "dict_get (flows s) k' = Some f'"
    then show "flow_ok ?s k' f'"
      using udp_inv_flow [OF inv, of k' f'] f by (auto simp: flow_ok_def endpoint_open_def)
  qed
  moreover have "map_all (pending_ok ?s) (pending_opens ?s)"
  proof (rule map_allI)
    fix t args assume "pending_opens ?s t = Some args"
    then show "pending_ok ?s t args"
      using udp_inv_pending [OF inv, of t args] f
      by (cases args) (auto simp: pending_ok_def flow_ok_def endpoint_open_def)
  qed
  ultimately show ?thesis
    using inv f udp_inv_reaper [OF inv Some]
    by (simp add: udp_inv_def reap_flow_def Some py_dict.ok_pop flow_ok_def endpoint_open_def)
qed

section \<open>Every step keeps the invariant\<close>

lemma udp_inv_use:
  assumes inv: "udp_inv env s" and f: "dict_get (flows s) k = Some f"
  shows "udp_inv env (use_flow now ok k f payload s)"
proof -
  let ?s = "s\<lparr>flows := dict_set k (f\<lparr>last_used := now\<rparr>) (flows s)\<rparr>"
  note fk = udp_inv_flow [OF inv f]
  then have "flow_ok s k (f\<lparr>last_used := now\<rparr>)"
    by (simp add: flow_ok_def wf_flow_def flow_key_def)
  then have "udp_inv env ?s" using udp_inv_put [OF inv] udp_inv_reaper [OF inv f] by blast
  then have "udp_inv env (udp_emit (Udp_sendto (transport f) payload) ?s)"
    using fk by (intro udp_inv_emit) (simp_all add: flow_ok_def endpoint_open_def)
  then show ?thesis by (simp add: use_flow_def Let_def udp_inv_reap)
qed

lemma udp_inv_open:
  assumes inv: "udp_inv env s" and a: "length mac = 6" "wf_ipv4 ip" "wf_udp u"
  shows "udp_inv env (open_flow env mac ip u s)"
proof -
  let ?host = "dial_host (ip_dst ip)" and ?t = "next_transport s"
  obtain allowed reason where al: "is_allowed_dst env ?host (udp_dst_port u) = (allowed, reason)"
    by (cases "is_allowed_dst env ?host (udp_dst_port u)")
  show ?thesis
  proof (cases allowed)
    case False
    then show ?thesis using inv al by (simp add: open_flow_def udp_inv_emit)
  next
    case True
    let ?s = "udp_emit (Udp_open ?t ?host (udp_dst_port u))
        ((udp_emit (Udp_egress ''allowed'' ?host (udp_dst_port u) ''ok'') s)
          \<lparr>next_transport := ?t + 1, protos := (protos s)(?t := Some (udp_key_of ip u)),
           pending_opens := (pending_opens s)(?t := Some (mac, ip, u))\<rparr>)"
    have new: "?t \<notin> closes (udp_trace s)" using inv by (auto simp: udp_inv_def)
    have "dict_all (flow_ok ?s) (flows ?s)"
    proof (rule dict_allI)
      fix k f assume "dict_get (flows ?s) k = Some f"
      then show "flow_ok ?s k f"
        using udp_inv_flow [OF inv, of k f] by (simp add: flow_ok_def endpoint_open_def)
    qed
    moreover have "map_all (pending_ok ?s) (pending_opens ?s)"
    proof (rule map_allI)
      fix t args assume "pending_opens ?s t = Some args"
      then show "pending_ok ?s t args"
        using udp_inv_pending [OF inv, of t args] new a
        by (cases args; cases "t = ?t") (auto simp: pending_ok_def endpoint_open_def)
    qed
    moreover have "guarded_target env ?host (udp_dst_port u)"
      using al True a(2) by (auto simp: guarded_target_def wf_ipv4_def)
    ultimately show ?thesis
      using inv al True by (simp add: udp_inv_def open_flow_def Let_def less_Suc_eq)
  qed
qed

lemma udp_inv_opened:
  assumes inv: "udp_inv env s" and p: "pending_opens s t = Some args"
  shows "udp_inv env (flow_opened t args created now now' ok s)"
proof -
  obtain mac ip u where args: "args = (mac, ip, u)" by (cases args)
  let ?s = "s\<lparr>pending_opens := (pending_opens s)(t := None)\<rparr>"
  let ?k = "udp_key_of ip u" and ?f = "new_flow t mac ip u now"
  note pk = udp_inv_pending [OF inv p]
  have "dict_all (flow_ok ?s) (flows s)"
    using inv by (auto simp: udp_inv_def dict_all_def flow_ok_def endpoint_open_def)
  moreover have "map_all (pending_ok ?s) (pending_opens ?s)"
    using inv by (auto simp: udp_inv_def map_all_def pending_ok_def endpoint_open_def)
  ultimately have s: "udp_inv env ?s" using inv by (simp add: udp_inv_def)
  then have "udp_inv env (?s\<lparr>reaper := True\<rparr>)"
    using udp_ok_cong [of "?s\<lparr>reaper := True\<rparr>" ?s] by (simp add: udp_inv_def)
  moreover have "flow_ok (?s\<lparr>reaper := True\<rparr>) ?k ?f"
    using pk unfolding args
    by (simp add: pending_ok_def flow_ok_def endpoint_open_def flow_key_def new_flow_def udp_key_of_def
        wf_flow_def wf_ipv4_def wf_udp_def)
  ultimately have "udp_inv env (?s\<lparr>reaper := True, flows := dict_set ?k ?f (flows s)\<rparr>)"
    using udp_inv_put [of env "?s\<lparr>reaper := True\<rparr>" ?k ?f] by simp
  then have "udp_inv env (?s\<lparr>flows := dict_set ?k ?f (flows s), reaper := True\<rparr>)" by (cases s) simp
  then show ?thesis
    using s by (simp add: flow_opened_def Let_def args udp_inv_use py_dict.get_put)
qed

lemma flow_frame_view:
  assumes "wf_flow f" "length data \<le> 65507"
  shows "\<exists>b v. flow_frame f data = Inr b \<and>
    udp_frame_view b = Inr (flow_chip_mac f, GATEWAY_MAC, flow_dst_ip f, flow_chip_ip f, v) \<and>
    udp_src_port v = flow_dst_port f \<and> udp_dst_port v = flow_chip_port f \<and> udp_payload v = data"
proof -
  let ?u = "udp_default\<lparr>udp_src_port := flow_dst_port f, udp_dst_port := flow_chip_port f, udp_payload := data\<rparr>"
  have "wf_udp ?u" using assms by (simp add: wf_udp_def wf_flow_def)
  then show ?thesis
    using udp_frame_view [of "flow_chip_mac f" "flow_dst_ip f" "flow_chip_ip f" ?u] assms
    by (auto simp: flow_frame_def wf_flow_def)
qed

lemma on_host_datagram_some:
  assumes "udp_inv env s" "dict_get (flows s) k = Some f" "length data \<le> 65507"
  shows "\<exists>b v. on_host_datagram now k data s =
      (None, udp_emit (Udp_inject b) (s\<lparr>flows := dict_set k (f\<lparr>last_used := now\<rparr>) (flows s)\<rparr>)) \<and>
    udp_frame_view b = Inr (flow_chip_mac f, GATEWAY_MAC, flow_dst_ip f, flow_chip_ip f, v) \<and>
    udp_src_port v = flow_dst_port f \<and> udp_dst_port v = flow_chip_port f \<and> udp_payload v = data"
  using flow_frame_view [of f data] udp_inv_flow [OF assms(1,2)] assms(2,3)
  by (auto simp: on_host_datagram_def flow_ok_def Let_def)

lemma udp_inv_received:
  assumes inv: "udp_inv env s" and l: "length data \<le> 65507"
  shows "udp_inv env (snd (on_host_datagram now k data s))"
proof (cases "dict_get (flows s) k")
  case None
  then show ?thesis using inv by (simp add: on_host_datagram_def)
next
  case (Some f)
  then have "flow_ok s k (f\<lparr>last_used := now\<rparr>)"
    using udp_inv_flow [OF inv Some] by (simp add: flow_ok_def wf_flow_def flow_key_def)
  then have "udp_inv env (s\<lparr>flows := dict_set k (f\<lparr>last_used := now\<rparr>) (flows s)\<rparr>)"
    using udp_inv_put [OF inv] udp_inv_reaper [OF inv Some] by blast
  then show ?thesis
    using on_host_datagram_some [OF inv Some l, of now] by (auto simp: udp_inv_emit)
qed

lemma udp_inv_fold_reap: "udp_inv env s \<Longrightarrow> udp_inv env (fold reap_flow ks s)"
  by (induction ks arbitrary: s) (simp_all add: udp_inv_reap)

lemma udp_inv_no_reaper:
  assumes "udp_inv env s" "flows s = []"
  shows "udp_inv env (s\<lparr>reaper := False\<rparr>)"
  using assms udp_ok_cong [of "s\<lparr>reaper := False\<rparr>" s] by (simp add: udp_inv_def)

lemma flows_fold_reap [simp]: "flows (fold reap_flow ks s) = fold dict_pop ks (flows s)"
proof (induction ks arbitrary: s)
  case (Cons k ks)
  have "flows (reap_flow k s) = dict_pop k (flows s)"
    by (cases "dict_get (flows s) k") (simp_all add: reap_flow_def dict_pop_absent)
  then show ?case by (simp add: Cons.IH)
qed simp

lemma udp_inv_step:
  assumes "udp_inv env s" "udp_step env s e t"
  shows "udp_inv env t"
  using assms(2)
proof (cases rule: udp_step.cases)
  case (udp_step_datagram mac ip u now ok)
  then show ?thesis
    using assms(1) udp_inv_use udp_inv_open
    by (simp add: handle_chip_datagram_def Let_def split: option.split)
next
  case (udp_step_opened tid args created now now' ok)
  then show ?thesis using assms(1) udp_inv_opened by simp
next
  case (udp_step_received tid k data now)
  then show ?thesis using assms(1) udp_inv_received by simp
next
  case (udp_step_reaper now)
  let ?s = "fold reap_flow (stale_keys (now - UDP_IDLE_TIMEOUT) (flows s)) s"
  have "udp_inv env ?s" using assms(1) by (rule udp_inv_fold_reap)
  then show ?thesis
    using udp_step_reaper(2) udp_inv_no_reaper [of env ?s] by (simp add: reaper_wake_def Let_def)
next
  case udp_step_shutdown
  let ?s = "fold reap_flow (dict_keys (flows s)) s"
  have "udp_inv env ?s" using assms(1) by (rule udp_inv_fold_reap)
  moreover have "flows ?s = []" by (simp add: dict_pop_all)
  ultimately show ?thesis
    using udp_step_shutdown(2) udp_inv_no_reaper [of env ?s] by (simp add: udp_shutdown_def)
qed

interpretation udp_machine: machine "\<lambda>s. s = udp_new" "udp_step env" "udp_inv env" for env
  by unfold_locales (auto intro: udp_inv_new udp_inv_step)

section \<open>What a step adds to the trace\<close>

text \<open>The records of the egress log, and entries in order, as for the TCP NAT.\<close>

fun udp_records :: "udp_action list \<Rightarrow> nat_record list" where
  "udp_records [] = []"
| "udp_records (Udp_egress v host port why # tr) = (v, host, port, why) # udp_records tr"
| "udp_records (_ # tr) = udp_records tr"

lemma udp_records_append [simp]: "udp_records (tr @ tr') = udp_records tr @ udp_records tr'"
  by (induction tr rule: udp_records.induct) simp_all

fun udp_frame_entry :: "udp_action \<Rightarrow> bool" where
  "udp_frame_entry (Udp_inject f) \<longleftrightarrow> frame_ok f"
| "udp_frame_entry _ \<longleftrightarrow> True"

definition udp_entries_ok :: "egress_env \<Rightarrow> udp_action list \<Rightarrow> bool" where
  "udp_entries_ok env tr \<longleftrightarrow> list_all udp_frame_entry tr \<and> list_all (record_true env) (udp_records tr) \<and>
     admitted (udp_records tr) = map snd (udp_opens tr)"

definition udp_adds :: "egress_env \<Rightarrow> udp_nat \<Rightarrow> udp_nat \<Rightarrow> bool" where
  "udp_adds env s s' \<longleftrightarrow> (\<exists>tr. udp_trace s' = udp_trace s @ tr \<and> udp_entries_ok env tr)"

lemma udp_adds_refl: "udp_adds env s s"
  by (simp add: udp_adds_def udp_entries_ok_def)

lemma udp_entries_append: "udp_entries_ok env tr \<Longrightarrow> udp_entries_ok env tr' \<Longrightarrow> udp_entries_ok env (tr @ tr')"
  by (simp add: udp_entries_ok_def)

lemma udp_adds_trans: "udp_adds env s t \<Longrightarrow> udp_adds env t u \<Longrightarrow> udp_adds env s u"
  unfolding udp_adds_def using udp_entries_append by fastforce

lemma udp_adds_same: "udp_trace s' = udp_trace s \<Longrightarrow> udp_adds env s s'"
  by (simp add: udp_adds_def udp_entries_ok_def)

lemma reap_adds: "udp_adds env s (reap_flow k s)"
  by (simp add: reap_flow_def udp_adds_def udp_entries_ok_def split: option.split)

lemma fold_reap_adds: "udp_adds env s (fold reap_flow ks s)"
  by (induction ks arbitrary: s) (auto intro: udp_adds_refl udp_adds_trans [OF reap_adds])

lemma use_flow_adds: "udp_adds env s (use_flow now ok k f payload s)"
proof -
  let ?t = "udp_emit (Udp_sendto (transport f) payload) (s\<lparr>flows := dict_set k (f\<lparr>last_used := now\<rparr>) (flows s)\<rparr>)"
  have "udp_adds env s ?t" by (simp add: udp_adds_def udp_entries_ok_def)
  then show ?thesis using udp_adds_trans [OF _ reap_adds] by (simp add: use_flow_def Let_def)
qed

lemma open_flow_adds: "udp_adds env s (open_flow env mac ip u s)"
  by (auto simp: open_flow_def Let_def udp_adds_def udp_entries_ok_def record_true_def split: prod.split)

lemma flow_opened_adds: "udp_adds env s (flow_opened tid args created now now' ok s)"
proof -
  have "udp_adds env s (use_flow now' ok k f payload u)" if "udp_trace u = udp_trace s" for k f payload u
    using use_flow_adds [of env u] udp_adds_same [OF that] udp_adds_trans by blast
  then show ?thesis
    by (cases args) (simp add: flow_opened_def Let_def udp_adds_same)
qed

lemma received_adds:
  assumes inv: "udp_inv env s" and l: "length data \<le> 65507"
  shows "udp_adds env s (snd (on_host_datagram now k data s))"
proof (cases "dict_get (flows s) k")
  case None
  then show ?thesis by (simp add: on_host_datagram_def udp_adds_refl)
next
  case (Some f)
  then show ?thesis
    using on_host_datagram_some [OF inv Some l, of now]
    by (auto simp: udp_adds_def udp_entries_ok_def intro: frame_ok_udp)
qed

lemma udp_shutdown_adds: "udp_adds env s (udp_shutdown s)"
  using fold_reap_adds [of env s "dict_keys (flows s)"] by (simp add: udp_shutdown_def udp_adds_def)

lemma udp_step_adds:
  assumes inv: "udp_inv env s" and step: "udp_step env s e t"
  shows "udp_adds env s t"
  using step
proof (cases rule: udp_step.cases)
  case (udp_step_datagram mac ip u now ok)
  then show ?thesis
    by (simp add: handle_chip_datagram_def Let_def open_flow_adds use_flow_adds split: option.split)
next
  case (udp_step_received tid k data now)
  then show ?thesis using received_adds [OF inv] by simp
next
  case (udp_step_reaper now)
  then show ?thesis
    using fold_reap_adds [of env s "stale_keys (now - UDP_IDLE_TIMEOUT) (flows s)"]
    by (simp add: reaper_wake_def Let_def udp_adds_def)
qed (simp_all add: flow_opened_adds udp_shutdown_adds)

interpretation udp_log: logging_machine "\<lambda>s. s = udp_new" "udp_step env" "udp_inv env" udp_trace
  "udp_entries_ok env" for env
  by unfold_locales (simp_all add: udp_entries_ok_def, use udp_step_adds in \<open>simp add: udp_adds_def udp_entries_ok_def\<close>)

end
