(* ===== verification/Udp_Properties.thy ===== *)
theory Udp_Properties
  imports Udp_Nat
begin

text \<open>
  What the UDP NAT promises: the exactness of its flow table and the guard on its endpoints
  over all runs, what happens to each datagram in both directions, and when endpoints are
  released. The sample values are the inputs of the witnesses.
\<close>

section \<open>Sample run\<close>

definition sample_udp_ip :: ipv4 where
  "sample_udp_ip = ipv4_default\<lparr>ip_protocol := 17, ip_src := [10, 13, 37, 42], ip_dst := [93, 184, 216, 34]\<rparr>"

definition sample_udp :: udp where
  "sample_udp = udp_default\<lparr>udp_src_port := 50000, udp_dst_port := 123, udp_payload := [1, 2, 3]\<rparr>"

definition sample_flow_key :: flow_key where
  "sample_flow_key = ([10, 13, 37, 42], 50000, [93, 184, 216, 34], 123)"

definition udp_asked :: udp_nat where
  "udp_asked = handle_chip_datagram public_env 0 True STA_MAC sample_udp_ip sample_udp udp_new"

definition udp_opened :: udp_nat where
  "udp_opened = flow_opened 0 (STA_MAC, sample_udp_ip, sample_udp) True 1 1 True udp_asked"

lemma sample_udp_ok [simp]: "wf_ipv4 sample_udp_ip" "wf_udp sample_udp"
  "udp_key_of sample_udp_ip sample_udp = sample_flow_key" "ip_dst sample_udp_ip = [93, 184, 216, 34]"
  "udp_dst_port sample_udp = 123" "udp_payload sample_udp = [1, 2, 3]"
  by (simp_all add: sample_udp_ip_def sample_udp_def wf_ipv4_def ipv4_default_def wf_udp_def
      udp_default_def udp_key_of_def sample_flow_key_def)

lemma udp_asked_eq:
  "udp_asked = \<lparr>flows = [], reaper = False, pending_opens = (\<lambda>_. None)(0 := Some (STA_MAC, sample_udp_ip, sample_udp)),
     protos = (\<lambda>_. None)(0 := Some sample_flow_key), next_transport = 1,
     udp_trace = [Udp_egress ''allowed'' (bytes_to_ip [93, 184, 216, 34]) 123 ''ok'',
                  Udp_open 0 (bytes_to_ip [93, 184, 216, 34]) 123]\<rparr>"
  by (simp add: udp_asked_def handle_chip_datagram_def open_flow_def udp_new_def dict_get_def
      dial_host_sample sample_allowed udp_emit_def Let_def)

lemma udp_opened_eq:
  "udp_opened = \<lparr>flows = [(sample_flow_key, new_flow 0 STA_MAC sample_udp_ip sample_udp 1)], reaper = True,
     pending_opens = (\<lambda>_. None), protos = (\<lambda>_. None)(0 := Some sample_flow_key), next_transport = 1,
     udp_trace = [Udp_egress ''allowed'' (bytes_to_ip [93, 184, 216, 34]) 123 ''ok'',
                  Udp_open 0 (bytes_to_ip [93, 184, 216, 34]) 123, Udp_sendto 0 [1, 2, 3]]\<rparr>"
  by (simp add: udp_opened_def flow_opened_def udp_asked_eq use_flow_def udp_emit_def dict_set_def
      new_flow_def fun_upd_idem)

lemma udp_opened_run: "runs (udp_step public_env) udp_new udp_opened"
proof -
  have "udp_step public_env udp_new (Udp_datagram 0 True STA_MAC sample_udp_ip sample_udp) udp_asked"
    unfolding udp_asked_def by (rule udp_step_datagram) simp_all
  moreover have "udp_step public_env udp_asked (Udp_opened 0 True 1 1 True) udp_opened"
    unfolding udp_opened_def by (rule udp_step_opened) (simp add: udp_asked_eq)
  ultimately show ?thesis by (meson runs_refl runs_step)
qed

section \<open>The flow table\<close>

text \<open>C24: In every reachable state the flow table is exact: a flow is filed under its own 4-tuple,
  its endpoint was created for that 4-tuple, is still open and belongs to no other flow, and
  the reaper runs whenever there is a flow to collect. No endpoint is ever used or closed
  again after it was closed.\<close>

theorem udp_flows_exact:
  assumes "runs (udp_step env) udp_new s"
  shows "(\<forall>k f. dict_get (flows s) k = Some f \<longrightarrow>
      flow_key f = k \<and> protos s (transport f) = Some k \<and> Udp_close (transport f) \<notin> set (udp_trace s)) \<and>
    (\<forall>k k' f f'. dict_get (flows s) k = Some f \<longrightarrow> dict_get (flows s) k' = Some f' \<longrightarrow>
      transport f = transport f' \<longrightarrow> k = k') \<and>
    (flows s \<noteq> [] \<longrightarrow> reaper s) \<and> disciplined {} (udp_trace s)"
proof -
  have inv: "udp_inv env s" using udp_machine.inv_reachable [OF refl assms] .
  have entry: "flow_key f = k \<and> protos s (transport f) = Some k \<and> Udp_close (transport f) \<notin> set (udp_trace s)"
    if "dict_get (flows s) k = Some f" for k f
    using udp_inv_flow [OF inv that] by (simp add: flow_ok_def endpoint_open_def closes_def)
  moreover have "k = k'" if "dict_get (flows s) k = Some f" "dict_get (flows s) k' = Some f'"
      "transport f = transport f'" for k k' f f'
    using entry [OF that(1)] entry [OF that(2)] that(3) by simp
  moreover have "flows s \<noteq> [] \<longrightarrow> reaper s" "disciplined {} (udp_trace s)"
    using inv by (simp_all add: udp_inv_def)
  ultimately show ?thesis by blast
qed

theorem udp_flows_exact_witness:
  "dict_get (flows udp_opened) sample_flow_key = Some (new_flow 0 STA_MAC sample_udp_ip sample_udp 1) \<and>
   protos udp_opened 0 = Some sample_flow_key \<and> reaper udp_opened"
proof -
  have f: "dict_get (flows udp_opened) sample_flow_key = Some (new_flow 0 STA_MAC sample_udp_ip sample_udp 1)"
    by (simp add: udp_opened_eq dict_get_def)
  moreover have "flows udp_opened \<noteq> []" by (simp add: udp_opened_eq)
  moreover have "transport (new_flow 0 STA_MAC sample_udp_ip sample_udp 1) = 0" by (simp add: new_flow_def)
  ultimately show ?thesis using udp_flows_exact [OF udp_opened_run] by metis
qed

text \<open>Every endpoint of any run was let through by the guard.\<close>

lemma udp_opens_respect_guard:
  assumes "runs (udp_step env) udp_new s" "(t, host, port) \<in> set (udp_opens (udp_trace s))"
  shows "fst (is_allowed_dst env host port) \<and>
    (\<not> allow_private env \<longrightarrow> (\<exists>a b c d. host = bytes_to_ip [a, b, c, d] \<and>
       \<not> blocked_octets (uint a) (uint b) (uint c) (uint d)))"
proof -
  have "guarded_target env host port"
    using udp_machine.inv_reachable [OF refl assms(1)] assms(2) by (auto simp: udp_inv_def list_all_iff)
  then show ?thesis using guarded_public [of env host port] by (auto simp: guarded_target_def)
qed

section \<open>Datagrams\<close>

text \<open>C25: In every reachable state, data that arrives on an endpoint never raises. While the flow
  of the endpoint's 4-tuple is in the table it becomes exactly one frame to the chip, from the
  remote address and port to the chip's, with a valid checksum and the data as its payload,
  and refreshes the flow; afterwards it is dropped.\<close>

theorem udp_replies_delivered:
  assumes "runs (udp_step env) udp_new s" "protos s t = Some (chip, cport, dst, dport)" "length data \<le> 65507"
  shows "case dict_get (flows s) (chip, cport, dst, dport) of
      None \<Rightarrow> on_host_datagram now (chip, cport, dst, dport) data s = (None, s)
    | Some f \<Rightarrow> \<exists>b v s'. on_host_datagram now (chip, cport, dst, dport) data s = (None, s') \<and>
        udp_trace s' = udp_trace s @ [Udp_inject b] \<and>
        udp_frame_view b = Inr (flow_chip_mac f, GATEWAY_MAC, dst, chip, v) \<and>
        udp_src_port v = dport \<and> udp_dst_port v = cport \<and> udp_payload v = data \<and>
        dict_get (flows s') (chip, cport, dst, dport) = Some (f\<lparr>last_used := now\<rparr>)"
proof (cases "dict_get (flows s) (chip, cport, dst, dport)")
  case None
  then show ?thesis by (simp add: on_host_datagram_def)
next
  case (Some f)
  have inv: "udp_inv env s" using udp_machine.inv_reachable [OF refl assms(1)] .
  have "flow_key f = (chip, cport, dst, dport)" using udp_inv_flow [OF inv Some] by (simp add: flow_ok_def)
  then show ?thesis
    using on_host_datagram_some [OF inv Some assms(3), of now] Some
    by (auto simp: flow_key_def py_dict.get_put)
qed

theorem udp_replies_delivered_witness:
  "\<exists>b v s'. on_host_datagram 5 sample_flow_key [7] udp_opened = (None, s') \<and>
     udp_trace s' = udp_trace udp_opened @ [Udp_inject b] \<and>
     udp_frame_view b = Inr (STA_MAC, GATEWAY_MAC, [93, 184, 216, 34], [10, 13, 37, 42], v) \<and>
     udp_src_port v = 123 \<and> udp_dst_port v = 50000 \<and> udp_payload v = [7]"
proof -
  have p: "protos udp_opened 0 = Some ([10, 13, 37, 42], 50000, [93, 184, 216, 34], 123)"
    by (simp add: udp_opened_eq sample_flow_key_def)
  have f: "dict_get (flows udp_opened) ([10, 13, 37, 42], 50000, [93, 184, 216, 34], 123) =
      Some (new_flow 0 STA_MAC sample_udp_ip sample_udp 1)"
    by (simp add: udp_opened_eq dict_get_def sample_flow_key_def)
  have m: "flow_chip_mac (new_flow 0 STA_MAC sample_udp_ip sample_udp 1) = STA_MAC" by (simp add: new_flow_def)
  show ?thesis
    using udp_replies_delivered [OF udp_opened_run p, of "[7]" 5] unfolding f option.case m sample_flow_key_def
    by simp blast
qed

text \<open>A datagram of a known flow is sent on its endpoint, once and unchanged, and refreshes the
  flow; if sending fails the endpoint is closed and the flow forgotten. A datagram without a
  flow opens an endpoint exactly when the guard allows the rewritten destination, and is the
  first thing sent on it; a refusal or a failure to open leaves no flow behind.\<close>

lemma udp_datagram_handled:
  "let k = udp_key_of ip u; host = dial_host (ip_dst ip); p = udp_payload u; t = next_transport s;
       (allowed, reason) = is_allowed_dst env host (udp_dst_port u);
       s' = handle_chip_datagram env now ok mac ip u s
   in case dict_get (flows s) k of
        Some f \<Rightarrow>
          udp_trace s' = udp_trace s @ Udp_sendto (transport f) p # (if ok then [] else [Udp_close (transport f)]) \<and>
          dict_get (flows s') k = (if ok then Some (f\<lparr>last_used := now\<rparr>) else None)
      | None \<Rightarrow>
          if \<not> allowed
          then flows s' = flows s \<and>
            udp_trace s' = udp_trace s @ [Udp_egress ''blocked'' host (udp_dst_port u) reason]
          else flows s' = flows s \<and> pending_opens s' t = Some (mac, ip, u) \<and>
            udp_trace s' = udp_trace s @ [Udp_egress ''allowed'' host (udp_dst_port u) ''ok'',
                                          Udp_open t host (udp_dst_port u)] \<and>
            (let s1 = flow_opened t (mac, ip, u) True n1 n2 True s';
                 s2 = flow_opened t (mac, ip, u) False n1 n2 ok s'
             in udp_trace s1 = udp_trace s' @ [Udp_sendto t p] \<and> reaper s1 \<and>
                dict_get (flows s1) k = Some (new_flow t mac ip u n2) \<and>
                udp_trace s2 = udp_trace s' \<and> dict_get (flows s2) k = None)"
  by (auto simp: handle_chip_datagram_def use_flow_def reap_flow_def open_flow_def flow_opened_def
      new_flow_def Let_def py_dict.get_put py_dict.get_pop split: option.split prod.split)

section \<open>Releasing endpoints\<close>

text \<open>The reaping of entries that are in the table.\<close>

lemma fold_reap_trace:
  assumes "distinct (map fst es)" "\<And>k f. (k, f) \<in> set es \<Longrightarrow> dict_get (flows s) k = Some f"
  shows "udp_trace (fold reap_flow (map fst es) s) =
    udp_trace s @ map (\<lambda>(k, f). Udp_close (transport f)) es"
  using assms
proof (induction es arbitrary: s)
  case (Cons e es)
  obtain k f where e: "e = (k, f)" by (cases e)
  have get: "dict_get (flows s) k = Some f" using Cons.prems(2) e by simp
  let ?s = "reap_flow k s"
  have "udp_trace ?s = udp_trace s @ [Udp_close (transport f)]" "flows ?s = dict_pop k (flows s)"
    by (simp_all add: reap_flow_def get)
  moreover have "udp_trace (fold reap_flow (map fst es) ?s) =
      udp_trace ?s @ map (\<lambda>(k, f). Udp_close (transport f)) es"
  proof (rule Cons.IH)
    show "distinct (map fst es)" using Cons.prems(1) by simp
    fix k' f' assume m: "(k', f') \<in> set es"
    then have "k' \<noteq> k" using Cons.prems(1) e by (auto simp: image_iff)
    then show "dict_get (flows ?s) k' = Some f'"
      using Cons.prems(2) m by (simp add: reap_flow_def get py_dict.get_pop)
  qed
  ultimately show ?case by (simp add: e)
qed simp

lemma udp_shutdown_releases:
  assumes "runs (udp_step env) udp_new s"
  shows "flows (udp_shutdown s) = [] \<and> \<not> reaper (udp_shutdown s) \<and>
    udp_trace (udp_shutdown s) = udp_trace s @ map (\<lambda>(k, f). Udp_close (transport f)) (flows s)"
proof -
  have "udp_inv env s" using udp_machine.inv_reachable [OF refl assms] .
  then have ok: "dict_ok (flows s)" by (simp add: udp_inv_def)
  then have "distinct (map fst (flows s))" by (simp add: dict_ok_def dict_keys_def)
  then have "udp_trace (fold reap_flow (map fst (flows s)) s) =
      udp_trace s @ map (\<lambda>(k, f). Udp_close (transport f)) (flows s)"
    using dict_entry [OF ok] by (intro fold_reap_trace) auto
  moreover have "filter (\<lambda>(k, v). k \<notin> fst ` set (flows s)) (flows s) = []"
    by (force simp: filter_empty_conv)
  ultimately show ?thesis by (simp add: udp_shutdown_def dict_keys_def dict_pops_filter)
qed

lemma udp_flows_released:
  assumes "runs (udp_step env) udp_new s"
  shows "let idle = (\<lambda>(k, f). last_used f < now - 60); close = (\<lambda>(k, f). Udp_close (transport f));
             r = reaper_wake now s; d = udp_shutdown s
    in flows r = filter (\<lambda>e. \<not> idle e) (flows s) \<and>
       udp_trace r = udp_trace s @ map close (filter idle (flows s)) \<and>
       (reaper r \<longleftrightarrow> reaper s \<and> flows r \<noteq> []) \<and>
       flows d = [] \<and> \<not> reaper d \<and> udp_trace d = udp_trace s @ map close (flows s)"
proof -
  let ?idle = "\<lambda>(k, f :: udp_flow). last_used f < now - 60"
  have "udp_inv env s" using udp_machine.inv_reachable [OF refl assms] .
  then have ok: "dict_ok (flows s)" by (simp add: udp_inv_def)
  then have distinct: "distinct (map fst (flows s))" by (simp add: dict_ok_def dict_keys_def)
  have stale: "stale_keys (now - UDP_IDLE_TIMEOUT) (flows s) = map fst (filter ?idle (flows s))"
    by (simp add: stale_keys_def UDP_IDLE_TIMEOUT_def)
  have "distinct (map fst (filter ?idle (flows s)))"
    using distinct by (rule distinct_map_filter)
  then have "udp_trace (fold reap_flow (map fst (filter ?idle (flows s))) s) =
      udp_trace s @ map (\<lambda>(k, f). Udp_close (transport f)) (filter ?idle (flows s))"
    using dict_entry [OF ok] by (intro fold_reap_trace) auto
  moreover have "filter (\<lambda>(k, v). k \<notin> set (map fst (filter ?idle (flows s)))) (flows s) =
      filter (\<lambda>e. \<not> ?idle e) (flows s)"
    using ok by (rule dict_drop_filtered)
  moreover have "reaper (fold reap_flow ks s) = reaper s" for ks
    by (induction ks rule: rev_induct) (simp_all add: reap_flow_def split: option.split)
  ultimately show ?thesis
    using udp_shutdown_releases [OF assms]
    by (simp add: reaper_wake_def stale Let_def dict_pops_filter)
qed

end
