(* ===== verification/Dns_Codec.thy ===== *)
theory Dns_Codec
  imports Consts Py_Str Codec
begin

text \<open>
  The DNS message codec of \<^verbatim>\<open>velxiogw/net/protocols.py\<close>: names with compression pointers,
  \<^verbatim>\<open>DnsMessage.parse\<close> and \<^verbatim>\<open>DnsMessage.to_bytes\<close>. Following pointers is not bounded by the code,
  so what parses names returns an option, \<open>None\<close> standing for a loop that never ends; the
  lemmas say exactly when that happens, and that encoded messages parse back.
\<close>

section \<open>Names\<close>

text \<open>\<^verbatim>\<open>bytes.decode('ascii', errors='replace')\<close> and \<^verbatim>\<open>str.encode('ascii', errors='replace')\<close>.\<close>

definition decode_ascii :: "bytes \<Rightarrow> pystr" where
  "decode_ascii = map (\<lambda>b. if unat b < 128 then unat b else 65533)"

definition encode_ascii :: "pystr \<Rightarrow> bytes" where
  "encode_ascii = map (\<lambda>c. if c < 128 then word_of_nat c else 63)"

text \<open>
  The loop of \<^verbatim>\<open>_read_dns_name\<close>: \<open>ret\<close> is \<^verbatim>\<open>return_offset\<close> once a pointer has been seen.
\<close>

definition return_offset :: "nat option \<Rightarrow> nat \<Rightarrow> nat" where
  "return_offset ret off = (case ret of None \<Rightarrow> off | Some r \<Rightarrow> r)"

definition pointer_target :: "bytes \<Rightarrow> nat \<Rightarrow> nat" where
  "pointer_target p off = nat (push_bit 8 (byte_at p off AND 63) OR byte_at p (off + 1))"

partial_function (option) read_labels ::
  "bytes \<Rightarrow> nat \<Rightarrow> nat option \<Rightarrow> pystr list \<Rightarrow> (pystr list \<times> nat) res option" where
  "read_labels p off ret labels =
     (if off < length p then
        if byte_at p off = 0 then Some (Inr (labels, return_offset ret (off + 1)))
        else if byte_at p off AND 192 = 192 then
          if off + 1 < length p
          then read_labels p (pointer_target p off)
                 (case ret of None \<Rightarrow> Some (off + 2) | Some r \<Rightarrow> Some r) labels
          else Some (Inl IndexError)
        else let n = nat (byte_at p off) in
          read_labels p (off + 1 + n) ret (labels @ [decode_ascii (slice (off + 1) (off + 1 + n) p)])
      else Some (Inr (labels, return_offset ret off)))"

definition read_dns_name :: "bytes \<Rightarrow> nat \<Rightarrow> (pystr \<times> nat) res option" where
  "read_dns_name p off = map_option (map_sum id (map_prod (join_with [46]) id)) (read_labels p off None [])"

definition label_bytes :: "pystr \<Rightarrow> bytes" where
  "label_bytes l = (let d = take 63 (encode_ascii l) in word_of_nat (length d) # d)"

definition write_dns_name :: "pystr \<Rightarrow> bytes" where
  "write_dns_name name =
     (if name \<noteq> [] then concat (map label_bytes (filter (\<lambda>l. l \<noteq> []) (split_on 46 name))) else []) @ [0]"

section \<open>Messages\<close>

record dns =
  txid :: int
  dns_flags :: int
  qd :: "(pystr \<times> int \<times> int) list"
  an :: "(pystr \<times> int \<times> int \<times> int \<times> bytes) list"

text \<open>Sequencing of steps that may raise or may not return.\<close>

definition bindo :: "'a res option \<Rightarrow> ('a \<Rightarrow> 'b res option) \<Rightarrow> 'b res option" where
  "bindo m f = (case m of None \<Rightarrow> None | Some (Inl e) \<Rightarrow> Some (Inl e) | Some (Inr x) \<Rightarrow> f x)"

lemma bindo_simps [simp]:
  "bindo None f = None" "bindo (Some (Inl e)) f = Some (Inl e)" "bindo (Some (Inr x)) f = f x"
  by (simp_all add: bindo_def)

fun parse_questions :: "nat \<Rightarrow> bytes \<Rightarrow> nat \<Rightarrow> ((pystr \<times> int \<times> int) list \<times> nat) res option" where
  "parse_questions 0 p off = Some (Inr ([], off))"
| "parse_questions (Suc n) p off =
     bindo (read_dns_name p off) (\<lambda>(qname, off1).
       if length (slice off1 (off1 + 4) p) \<noteq> 4 then Some (Inl StructError)
       else bindo (parse_questions n p (off1 + 4)) (\<lambda>(qs, off2).
         Some (Inr ((qname, u16_at off1 p, u16_at (off1 + 2) p) # qs, off2))))"

fun parse_answers :: "nat \<Rightarrow> bytes \<Rightarrow> nat \<Rightarrow> (pystr \<times> int \<times> int \<times> int \<times> bytes) list res option" where
  "parse_answers 0 p off = Some (Inr [])"
| "parse_answers (Suc n) p off =
     bindo (read_dns_name p off) (\<lambda>(name, off1).
       if length (slice off1 (off1 + 10) p) \<noteq> 10 then Some (Inl StructError)
       else let rdlength = nat (u16_at (off1 + 8) p); off2 = off1 + 10 in
         bindo (parse_answers n p (off2 + rdlength)) (\<lambda>as.
           Some (Inr ((name, u16_at off1 p, u16_at (off1 + 2) p, u32_at (off1 + 4) p,
                       slice off2 (off2 + rdlength) p) # as))))"

definition dns_parse :: "bytes \<Rightarrow> dns res option" where
  "dns_parse p =
     (if length p < 12 then Some (Inl ValueError)
      else bindo (parse_questions (nat (u16_at 4 p)) p 12) (\<lambda>(qs, off).
        bindo (parse_answers (nat (u16_at 6 p)) p off) (\<lambda>as.
          Some (Inr \<lparr>txid = u16_at 0 p, dns_flags = u16_at 2 p, qd = qs, an = as\<rparr>))))"

definition question_bytes :: "pystr \<times> int \<times> int \<Rightarrow> bytes res" where
  "question_bytes = (\<lambda>(qname, qtype, qclass).
     bindr (pack [U 2 qtype, U 2 qclass]) (\<lambda>b. Inr (write_dns_name qname @ b)))"

definition answer_bytes :: "pystr \<times> int \<times> int \<times> int \<times> bytes \<Rightarrow> bytes res" where
  "answer_bytes = (\<lambda>(name, atype, aclass, ttl, rdata).
     bindr (pack [U 2 atype, U 2 aclass, U 4 ttl, U 2 (int (length rdata))]) (\<lambda>b.
       Inr (write_dns_name name @ b @ rdata)))"

definition dns_to_bytes :: "dns \<Rightarrow> bytes res" where
  "dns_to_bytes m =
     bindr (pack [U 2 (txid m), U 2 (dns_flags m), U 2 (int (length (qd m))),
                  U 2 (int (length (an m))), U 2 0, U 2 0]) (\<lambda>head.
     bindr (mapr question_bytes (qd m)) (\<lambda>qs.
     bindr (mapr answer_bytes (an m)) (\<lambda>as. Inr (head @ concat qs @ concat as))))"

section \<open>When a name ends\<close>

text \<open>Where the loop goes from an offset; \<open>None\<close> where it leaves or raises.\<close>

definition next_offset :: "bytes \<Rightarrow> nat \<Rightarrow> nat option" where
  "next_offset p off =
     (if off < length p \<and> byte_at p off \<noteq> 0 then
        if byte_at p off AND 192 = 192
        then if off + 1 < length p then Some (pointer_target p off) else None
        else Some (off + 1 + nat (byte_at p off))
      else None)"

text \<open>The loop ends after at most \<open>n\<close> further rounds.\<close>

fun stops :: "bytes \<Rightarrow> nat \<Rightarrow> nat \<Rightarrow> bool" where
  "stops p 0 off \<longleftrightarrow> next_offset p off = None"
| "stops p (Suc n) off \<longleftrightarrow> (case next_offset p off of None \<Rightarrow> True | Some o' \<Rightarrow> stops p n o')"

lemma stops_next: "next_offset p off = Some o' \<Longrightarrow> stops p n off \<longleftrightarrow> (\<exists>m. n = Suc m \<and> stops p m o')"
  by (cases n) auto

lemma stops_mono: "stops p n off \<Longrightarrow> n \<le> m \<Longrightarrow> stops p m off"
proof (induction n arbitrary: m off)
  case 0
  then show ?case by (cases m) simp_all
next
  case (Suc n)
  then show ?case by (cases m) (auto split: option.splits)
qed

lemma read_labels_end: "next_offset p off = None \<Longrightarrow> read_labels p off ret ls \<noteq> None"
  by (subst read_labels.simps) (auto simp: next_offset_def split: if_splits)

lemma read_labels_stops:
  assumes "stops p n off"
  shows "read_labels p off ret ls \<noteq> None"
  using assms
proof (induction n arbitrary: off ret ls)
  case 0
  then show ?case by (simp only: stops.simps read_labels_end) simp
next
  case (Suc n)
  show ?case
  proof (cases "next_offset p off")
    case None
    then show ?thesis by (rule read_labels_end)
  next
    case (Some o')
    then have "read_labels p o' r l \<noteq> None" for r l using Suc by simp
    with Some show ?thesis
      by (subst read_labels.simps) (auto simp: next_offset_def Let_def split: if_splits)
  qed
qed

lemma read_labels_returns:
  assumes "read_labels p off ret ls = Some r"
  shows "\<exists>n. stops p n off"
proof (rule read_labels.raw_induct [where P = "\<lambda>p off ret ls r. \<exists>n. stops p n off", OF _ assms])
  fix f p off ret ls r
  assume IH: "\<And>p off ret ls r. f p off ret ls = Some r \<Longrightarrow> \<exists>n. stops p n off"
    and eq: "(if off < length p then
        if byte_at p off = 0 then Some (Inr (ls, return_offset ret (off + 1)))
        else if byte_at p off AND 192 = 192 then
          if off + 1 < length p
          then f p (pointer_target p off) (case ret of None \<Rightarrow> Some (off + 2) | Some r \<Rightarrow> Some r) ls
          else Some (Inl IndexError)
        else let n = nat (byte_at p off) in
          f p (off + 1 + n) ret (ls @ [decode_ascii (slice (off + 1) (off + 1 + n) p)])
      else Some (Inr (ls, return_offset ret off))) = Some r"
  show "\<exists>n. stops p n off"
  proof (cases "next_offset p off")
    case None
    then show ?thesis by (intro exI [of _ 0]) simp
  next
    case (Some o')
    then obtain r' l' where "f p o' r' l' = Some r"
      using eq by (auto simp: next_offset_def Let_def split: if_splits)
    then obtain n where "stops p n o'" using IH by blast
    then show ?thesis using Some by (intro exI [of _ "Suc n"]) simp
  qed
qed

text \<open>
  A loop that ends visits no offset twice, and all but its last offset lie within the
  message, so it ends within as many rounds as the message has bytes.
\<close>

fun visited :: "bytes \<Rightarrow> nat \<Rightarrow> nat \<Rightarrow> nat list" where
  "visited p 0 off = []"
| "visited p (Suc n) off = (case next_offset p off of None \<Rightarrow> [] | Some o' \<Rightarrow> off # visited p n o')"

lemma visited_within: "set (visited p n off) \<subseteq> {..<length p}"
  by (induction n arbitrary: off) (auto simp: next_offset_def split: option.splits if_splits)

lemma visited_stops: "x \<in> set (visited p n off) \<Longrightarrow> stops p n off \<Longrightarrow> \<exists>m. m \<le> n \<and> stops p m x"
proof (induction n arbitrary: off)
  case (Suc n)
  then obtain o' where o': "next_offset p off = Some o'" by (cases "next_offset p off") auto
  then show ?case
    using Suc by (cases "x = off") (auto intro: le_SucI)
qed simp

definition rounds :: "bytes \<Rightarrow> nat \<Rightarrow> nat" where
  "rounds p off = (LEAST n. stops p n off)"

lemma rounds_next:
  assumes "stops p n off" "next_offset p off = Some o'"
  shows "rounds p off = Suc (rounds p o')"
  unfolding rounds_def
proof (rule Least_equality)
  obtain m where m: "stops p m o'" using assms stops_next by blast
  then show "stops p (Suc (LEAST n. stops p n o')) off"
    using assms(2) LeastI [of "\<lambda>n. stops p n o'" m] by simp
  fix k assume "stops p k off"
  then obtain m where "k = Suc m" "stops p m o'" using assms(2) stops_next by blast
  then show "Suc (LEAST n. stops p n o') \<le> k" using Least_le [of "\<lambda>n. stops p n o'" m] by simp
qed

lemma visited_rounds:
  assumes "stops p n off"
  shows "map (rounds p) (visited p (rounds p off) off) = rev (map Suc [0..<rounds p off])"
  using assms
proof (induction n arbitrary: off)
  case 0
  then have "rounds p off = 0" by (simp add: rounds_def Least_eq_0)
  then show ?case by simp
next
  case (Suc n)
  show ?case
  proof (cases "next_offset p off")
    case None
    then have "rounds p off = 0" by (simp add: rounds_def Least_eq_0)
    then show ?thesis by simp
  next
    case (Some o')
    then have "stops p n o'" using Suc.prems by simp
    then show ?thesis using Suc.IH rounds_next [OF Suc.prems Some] Some by simp
  qed
qed

lemma stops_within:
  assumes "stops p n off"
  shows "stops p (length p) off"
proof -
  let ?v = "visited p (rounds p off) off"
  note m = visited_rounds [OF assms]
  have "distinct (map (rounds p) ?v)" unfolding m by (simp add: distinct_map)
  then have "distinct ?v" by (simp add: distinct_map)
  moreover have "length ?v = rounds p off" using arg_cong [OF m, of length] by simp
  ultimately have "rounds p off = card (set ?v)" using distinct_card by metis
  also have "\<dots> \<le> card {..<length p}" using visited_within by (intro card_mono) auto
  finally have "rounds p off \<le> length p" by simp
  moreover have "stops p (rounds p off) off" unfolding rounds_def by (rule LeastI) (rule assms)
  ultimately show ?thesis by (rule stops_mono [rotated])
qed

lemma read_dns_name_returns: "read_dns_name p off \<noteq> None \<longleftrightarrow> stops p (length p) off"
  using read_labels_stops [of p "length p" off None "[]"] read_labels_returns [of p off None "[]"] stops_within
  by (auto simp: read_dns_name_def)

section \<open>Written names and messages parse back\<close>

definition wf_label :: "pystr \<Rightarrow> bool" where
  "wf_label l \<longleftrightarrow> l \<noteq> [] \<and> length l \<le> 63 \<and> (\<forall>c \<in> set l. c < 128 \<and> c \<noteq> 46)"

text \<open>The root, or labels of one to 63 ASCII characters separated by dots.\<close>

definition wf_name :: "pystr \<Rightarrow> bool" where
  "wf_name n \<longleftrightarrow> n = [] \<or> (\<forall>l \<in> set (split_on 46 n). wf_label l)"

lemma mask_192:
  fixes x :: int
  assumes "0 \<le> x" "x < 256"
  shows "x AND 192 = 192 \<longleftrightarrow> 192 \<le> x"
proof -
  have d: "x div 64 \<in> {0, 1, 2, 3}" using assms by auto
  have "x AND push_bit 6 m = push_bit 6 (drop_bit 6 x AND m)" for m
    by (rule bit_eqI) (auto simp: bit_and_iff bit_push_bit_iff bit_drop_bit_eq)
  from this [of 3] have "x AND 192 = (x div 64) mod 4 * 64" by (simp add: bit_arith push_bit_eq_mult)
  then show ?thesis using d assms by auto
qed

lemma decode_encode_ascii: "(\<forall>c \<in> set l. c < 128) \<Longrightarrow> decode_ascii (encode_ascii l) = l"
proof -
  have "unat (word_of_nat c :: byte) = c" if "c < 128" for c
    using that by (simp add: unat_of_nat)
  then show "(\<forall>c \<in> set l. c < 128) \<Longrightarrow> ?thesis"
    by (induction l) (simp_all add: decode_ascii_def encode_ascii_def)
qed

lemma label_bytes_wf:
  assumes "wf_label l"
  shows "label_bytes l = word_of_nat (length l) # encode_ascii l" "length (encode_ascii l) = length l"
    "uint (word_of_nat (length l) :: byte) = int (length l)" "decode_ascii (encode_ascii l) = l"
  using assms by (simp_all add: label_bytes_def wf_label_def encode_ascii_def decode_encode_ascii
      [unfolded encode_ascii_def])

lemma read_labels_written:
  assumes "list_all wf_label ls"
  shows "read_labels (pre @ concat (map label_bytes ls) @ 0 # post) (length pre) None acc =
    Some (Inr (acc @ ls, length pre + length (concat (map label_bytes ls)) + 1))"
  using assms
proof (induction ls arbitrary: pre acc)
  case Nil
  show ?case by (subst read_labels.simps) (simp add: return_offset_def)
next
  case (Cons l ls)
  then have l: "wf_label l" by simp
  note lb = label_bytes_wf [OF l]
  have n: "0 < length l" "int (length l) < 192" using l by (simp_all add: wf_label_def)
  let ?p = "pre @ concat (map label_bytes (l # ls)) @ 0 # post"
  let ?pre = "pre @ label_bytes l"
  have p: "?p = ?pre @ concat (map label_bytes ls) @ 0 # post" by simp
  have b: "byte_at ?p (length pre) = int (length l)" using lb by simp
  have s: "slice (length pre + 1) (length pre + 1 + length l) ?p = encode_ascii l"
    using lb by (simp add: slice_skip slice_Cons slice_hit slice_none)
  have "read_labels ?p (length pre) None acc =
      read_labels ?p (length pre + 1 + length l) None (acc @ [l])"
    using n mask_192 [of "int (length l)"] lb b s by (subst read_labels.simps) (simp add: Let_def)
  also have "\<dots> = read_labels ?p (length ?pre) None (acc @ [l])" using lb by simp
  also have "\<dots> = Some (Inr ((acc @ [l]) @ ls, length ?pre + length (concat (map label_bytes ls)) + 1))"
    unfolding p by (rule Cons.IH) (use Cons.prems in simp)
  finally show ?case by simp
qed

lemma read_written_name:
  assumes "wf_name n"
  shows "read_dns_name (pre @ write_dns_name n @ post) (length pre) =
    Some (Inr (n, length pre + length (write_dns_name n)))"
proof -
  define ls where "ls = (if n = [] then [] else split_on 46 n)"
  have ls: "list_all wf_label ls" using assms by (auto simp: wf_name_def list_all_iff ls_def)
  have "\<forall>l \<in> set ls. l \<noteq> []" using ls unfolding list_all_iff wf_label_def by blast
  then have "filter (\<lambda>l. l \<noteq> []) ls = ls" by (rule filter_True)
  then have w: "write_dns_name n = concat (map label_bytes ls) @ [0]"
    by (simp add: write_dns_name_def ls_def split: if_splits)
  have "join_with [46] ls = n" by (simp add: join_split ls_def)
  then show ?thesis
    using read_labels_written [OF ls, of pre post "[]"]
    unfolding read_dns_name_def w by simp
qed

definition wf_question :: "pystr \<times> int \<times> int \<Rightarrow> bool" where
  "wf_question = (\<lambda>(n, t, c). wf_name n \<and> 0 \<le> t \<and> t < 65536 \<and> 0 \<le> c \<and> c < 65536)"

definition wf_answer :: "pystr \<times> int \<times> int \<times> int \<times> bytes \<Rightarrow> bool" where
  "wf_answer = (\<lambda>(n, t, c, ttl, d). wf_name n \<and> 0 \<le> t \<and> t < 65536 \<and> 0 \<le> c \<and> c < 65536 \<and>
     0 \<le> ttl \<and> ttl < 4294967296 \<and> length d < 65536)"

definition wf_dns :: "dns \<Rightarrow> bool" where
  "wf_dns m \<longleftrightarrow> 0 \<le> txid m \<and> txid m < 65536 \<and> 0 \<le> dns_flags m \<and> dns_flags m < 65536 \<and>
     length (qd m) < 65536 \<and> length (an m) < 65536 \<and>
     list_all wf_question (qd m) \<and> list_all wf_answer (an m)"

definition question_enc :: "pystr \<times> int \<times> int \<Rightarrow> bytes" where
  "question_enc = (\<lambda>(n, t, c). write_dns_name n @ be_bytes 2 t @ be_bytes 2 c)"

definition answer_enc :: "pystr \<times> int \<times> int \<times> int \<times> bytes \<Rightarrow> bytes" where
  "answer_enc = (\<lambda>(n, t, c, ttl, d).
     write_dns_name n @ be_bytes 2 t @ be_bytes 2 c @ be_bytes 4 ttl @ be_bytes 2 (int (length d)) @ d)"

lemma question_bytes_wf: "wf_question q \<Longrightarrow> question_bytes q = Inr (question_enc q)"
  by (cases q) (simp add: question_bytes_def question_enc_def wf_question_def pack_fits)

lemma answer_bytes_wf: "wf_answer a \<Longrightarrow> answer_bytes a = Inr (answer_enc a)"
  by (cases a) (simp add: answer_bytes_def answer_enc_def wf_answer_def pack_fits)

definition dns_head :: "dns \<Rightarrow> bytes" where
  "dns_head m = be_bytes 2 (txid m) @ be_bytes 2 (dns_flags m) @ be_bytes 2 (int (length (qd m))) @
     be_bytes 2 (int (length (an m))) @ be_bytes 2 0 @ be_bytes 2 0"

lemma dns_encode:
  assumes "wf_dns m"
  shows "dns_to_bytes m = Inr (dns_head m @ concat (map question_enc (qd m)) @ concat (map answer_enc (an m)))"
proof -
  have "mapr question_bytes (qd m) = Inr (map question_enc (qd m))"
    "mapr answer_bytes (an m) = Inr (map answer_enc (an m))"
    using assms by (auto simp: wf_dns_def list_all_iff intro!: mapr_Inr question_bytes_wf answer_bytes_wf)
  then show ?thesis using assms by (simp add: dns_to_bytes_def wf_dns_def pack_fits dns_head_def)
qed

lemma parse_questions_enc:
  assumes "list_all wf_question qs"
  shows "parse_questions (length qs) (pre @ concat (map question_enc qs) @ post) (length pre) =
    Some (Inr (qs, length pre + length (concat (map question_enc qs))))"
  using assms
proof (induction qs arbitrary: pre)
  case (Cons q qs)
  obtain n t c where q: "q = (n, t, c)" by (cases q)
  have wf: "wf_name n" "0 \<le> t" "t < 65536" "0 \<le> c" "c < 65536"
    using Cons.prems by (simp_all add: q wf_question_def)
  let ?rest = "concat (map question_enc qs) @ post"
  let ?p = "pre @ concat (map question_enc (q # qs)) @ post"
  let ?o = "length pre + length (write_dns_name n)"
  have p: "?p = pre @ write_dns_name n @ (be_bytes 2 t @ be_bytes 2 c @ ?rest)"
    by (simp add: q question_enc_def)
  have p': "?p = (pre @ question_enc q) @ ?rest" by simp
  have r: "read_dns_name ?p (length pre) = Some (Inr (n, ?o))" unfolding p using wf by (intro read_written_name)
  have "length (slice ?o (?o + 4) ?p) = 4" "u16_at ?o ?p = t" "u16_at (?o + 2) ?p = c"
    unfolding p using wf by (simp_all add: reads)
  moreover have "parse_questions (length qs) ?p (?o + 4) =
      Some (Inr (qs, ?o + 4 + length (concat (map question_enc qs))))"
    using Cons.IH [of "pre @ question_enc q"] Cons.prems unfolding p'
    by (simp add: q question_enc_def add.assoc)
  ultimately show ?case using r by (simp add: q question_enc_def)
qed simp

lemma parse_answers_enc:
  assumes "list_all wf_answer as"
  shows "parse_answers (length as) (pre @ concat (map answer_enc as) @ post) (length pre) = Some (Inr as)"
  using assms
proof (induction as arbitrary: pre)
  case (Cons a as)
  obtain n t c ttl d where a: "a = (n, t, c, ttl, d)" by (cases a)
  have wf: "wf_name n" "0 \<le> t" "t < 65536" "0 \<le> c" "c < 65536" "0 \<le> ttl" "ttl < 4294967296" "length d < 65536"
    using Cons.prems by (simp_all add: a wf_answer_def)
  let ?rest = "concat (map answer_enc as) @ post"
  let ?p = "pre @ concat (map answer_enc (a # as)) @ post"
  let ?o = "length pre + length (write_dns_name n)"
  have p: "?p = pre @ write_dns_name n @
      (be_bytes 2 t @ be_bytes 2 c @ be_bytes 4 ttl @ be_bytes 2 (int (length d)) @ d @ ?rest)"
    by (simp add: a answer_enc_def)
  have p': "?p = (pre @ answer_enc a) @ ?rest" by simp
  have r: "read_dns_name ?p (length pre) = Some (Inr (n, ?o))" unfolding p using wf by (intro read_written_name)
  have "length (slice ?o (?o + 10) ?p) = 10" "u16_at ?o ?p = t" "u16_at (?o + 2) ?p = c"
    "u32_at (?o + 4) ?p = ttl" "u16_at (?o + 8) ?p = int (length d)"
    "slice (?o + 10) (?o + 10 + length d) ?p = d"
    unfolding p using wf by (simp_all add: reads)
  moreover have "parse_answers (length as) ?p (?o + 10 + length d) = Some (Inr as)"
    using Cons.IH [of "pre @ answer_enc a"] Cons.prems unfolding p'
    by (simp add: a answer_enc_def add.assoc)
  ultimately show ?case using r by (simp add: a Let_def)
qed simp

lemma dns_parse_enc:
  assumes wf: "wf_dns m" and bs: "dns_to_bytes m = Inr bs"
  shows "dns_parse bs = Some (Inr m)"
proof -
  let ?q = "concat (map question_enc (qd m))" and ?a = "concat (map answer_enc (an m))"
  have b: "bs = dns_head m @ ?q @ ?a" using dns_encode [OF wf] bs by simp
  have h: "length (dns_head m) = 12" by (simp add: dns_head_def)
  have "u16_at 0 bs = txid m" "u16_at 2 bs = dns_flags m" "u16_at 4 bs = int (length (qd m))"
    "u16_at 6 bs = int (length (an m))"
    using wf by (simp_all add: b dns_head_def reads wf_dns_def)
  moreover have "parse_questions (length (qd m)) bs 12 = Some (Inr (qd m, 12 + length ?q))"
    using parse_questions_enc [of "qd m" "dns_head m" ?a] wf h unfolding b by (simp add: wf_dns_def)
  moreover have "parse_answers (length (an m)) bs (12 + length ?q) = Some (Inr (an m))"
    using parse_answers_enc [of "an m" "dns_head m @ ?q" "[]"] wf h unfolding b by (simp add: wf_dns_def)
  ultimately show ?thesis by (simp add: dns_parse_def b h)
qed

interpretation dns: codec dns_to_bytes "\<lambda>bs. the (dns_parse bs)" wf_dns "\<lambda>m. m"
  by unfold_locales (simp_all add: dns_encode dns_parse_enc)

section \<open>Properties of the codec\<close>

text \<open>A query whose only name is a pointer to itself.\<close>

definition looping_query :: bytes where
  "looping_query = [0, 7, 1, 0, 0, 1, 0, 0, 0, 0, 0, 0, 192, 12, 0, 1, 0, 1]"

text \<open>C33: Reading a name returns exactly when it has finished after at most as many rounds as the
  message has bytes; any longer run never ends. In particular a message that announces a
  question and whose first name is a compression pointer to itself is never parsed: the
  parser loops on it for ever.\<close>

theorem dns_name_ends:
  "(read_dns_name p off \<noteq> None \<longleftrightarrow> stops p (length p) off) \<and>
   (12 < length p \<and> 0 < u16_at 4 p \<and> slice 12 14 p = [192, 12] \<longrightarrow> dns_parse p = None)"
proof -
  have "dns_parse p = None" if l: "12 < length p" and n: "0 < u16_at 4 p" and s: "slice 12 14 p = [192, 12]"
  proof -
    have "length (slice 12 14 p) = 2" using s by simp
    then have l: "14 \<le> length p" by simp
    then have "slice 12 14 p = [p ! 12, p ! 13]"
      by (simp add: slice_def numeral_2_eq_2 Cons_nth_drop_Suc [symmetric])
    then have b: "byte_at p 12 = 192" "byte_at p 13 = 12" using s by (simp_all add: byte_at_def)
    then have "next_offset p 12 = Some 12"
      using l by (simp add: next_offset_def pointer_target_def mask_192)
    then have "\<not> stops p k 12" for k by (induction k) simp_all
    then have "read_dns_name p 12 = None" using read_dns_name_returns by blast
    moreover obtain k where "nat (u16_at 4 p) = Suc k" using n by (metis not0_implies_Suc zero_less_nat_eq less_numeral_extra(3))
    ultimately show ?thesis using l by (simp add: dns_parse_def)
  qed
  then show ?thesis using read_dns_name_returns by blast
qed

theorem dns_name_ends_witness: "dns_parse looping_query = None"
proof -
  have "u16_at 4 looping_query = 1" by (simp add: looping_query_def u16_at_def slice_def be_int_def)
  moreover have "slice 12 14 looping_query = [192, 12]" by (simp add: looping_query_def slice_def)
  ultimately show ?thesis using dns_name_ends [of looping_query] by (simp add: looping_query_def)
qed

text \<open>C34: Encoding a message whose names are ASCII labels of at most 63 characters and whose
  fields fit never raises, and the bytes parse back to the same message, with every
  question and answer in order.\<close>

theorem dns_round_trip:
  assumes "wf_dns m"
  shows "\<exists>bs. dns_to_bytes m = Inr bs \<and> dns_parse bs = Some (Inr m)"
  using dns.enc_ok [OF assms] dns_parse_enc [OF assms] by blast

text \<open>A query for the A record of \<^verbatim>\<open>a.b\<close>.\<close>

definition sample_query :: dns where
  "sample_query = \<lparr>txid = 7, dns_flags = 256, qd = [(str_of ''a.b'', 1, 1)], an = []\<rparr>"

lemma wf_sample_query: "wf_dns sample_query"
  by (simp add: wf_dns_def sample_query_def wf_question_def wf_name_def wf_label_def str_of_def)

theorem dns_round_trip_witness:
  "\<exists>bs. dns_to_bytes sample_query = Inr bs \<and> dns_parse bs = Some (Inr sample_query)"
  using dns_round_trip [OF wf_sample_query] .

end
