(* ===== verification/Dns.thy ===== *)
theory Dns
  imports Dns_Codec Transport Egress Machine
begin

text \<open>
  The DNS proxy of \<^verbatim>\<open>velxiogw/net/dns.py\<close>: the cache and the table of running lookups that all
  resolvers of the process share, and \<^verbatim>\<open>DnsResolver\<close>. \<^verbatim>\<open>handle\<close> is cut where it waits for a
  lookup; the lookup is cut where it waits for \<^verbatim>\<open>getaddrinfo\<close>, whose answer is an argument, as
  is the clock. Parsing a query may not return (\<open>Dns_Codec\<close>), so \<open>dns_handle\<close> is an option.
\<close>

definition DNS_FLAG_QR :: int where "DNS_FLAG_QR = 0x8000"
definition DNS_FLAG_RA :: int where "DNS_FLAG_RA = 0x0080"
definition DNS_FLAG_RD :: int where "DNS_FLAG_RD = 0x0100"
definition DNS_FLAG_RCODE_NXDOMAIN :: int where "DNS_FLAG_RCODE_NXDOMAIN = 3"
definition DNS_TYPE_A :: int where "DNS_TYPE_A = 1"
definition DNS_TYPE_AAAA :: int where "DNS_TYPE_AAAA = 28"
definition DNS_CLASS_IN :: int where "DNS_CLASS_IN = 1"
definition CACHE_TTL_S :: real where "CACHE_TTL_S = 60"
definition CACHE_MAX :: nat where "CACHE_MAX = 512"

lemmas dns_consts = DNS_FLAG_QR_def DNS_FLAG_RA_def DNS_FLAG_RD_def DNS_FLAG_RCODE_NXDOMAIN_def
  DNS_TYPE_A_def DNS_TYPE_AAAA_def DNS_CLASS_IN_def

section \<open>State\<close>

text \<open>
  A lookup is a task, named by a number: \<open>task_host\<close> is its argument, \<open>task_result\<close> its result
  once it is over. Resolvers are named by numbers too; each has its own \<^verbatim>\<open>_cache\<close>. \<open>asked\<close> holds
  the calls of \<^verbatim>\<open>handle\<close> that wait for a task: resolver, task, chip address, datagram, request.
  \<open>dns_log\<close> records the egress records and what the host's resolver answered, and when.
\<close>

type_synonym dns_call = "nat \<times> nat \<times> bytes \<times> udp \<times> dns"

datatype dns_record =
    Dns_egress string pystr "pystr option" string
  | Dns_lookup pystr real "bytes list"

record dns_state =
  shared_cache :: "(pystr, real \<times> bytes list) dict"
  inflight :: "(pystr, nat) dict"
  task_host :: "nat \<Rightarrow> pystr option"
  task_result :: "nat \<Rightarrow> bytes list res option"
  next_task :: nat
  own_cache :: "nat \<Rightarrow> (pystr, bytes list) dict"
  asked :: "nat \<Rightarrow> dns_call option"
  dns_log :: "dns_record list"

definition dns_emit :: "dns_record \<Rightarrow> dns_state \<Rightarrow> dns_state" where
  "dns_emit a s = s\<lparr>dns_log := dns_log s @ [a]\<rparr>"

section \<open>The shared cache\<close>

definition cache_get :: "real \<Rightarrow> pystr \<Rightarrow> dns_state \<Rightarrow> bytes list option \<times> dns_state" where
  "cache_get now h s =
     (case dict_get (shared_cache s) h of
        None \<Rightarrow> (None, s)
      | Some (expires, addrs) \<Rightarrow>
          if expires < now then (None, s\<lparr>shared_cache := dict_pop h (shared_cache s)\<rparr>)
          else (Some addrs, s))"

text \<open>\<^verbatim>\<open>min(d, key=...)\<close>: the first key, in insertion order, with the least expiry.\<close>

fun oldest_from :: "pystr \<times> real \<Rightarrow> (pystr, real \<times> bytes list) dict \<Rightarrow> pystr" where
  "oldest_from best [] = fst best"
| "oldest_from best ((k, e, a) # d) = oldest_from (if e < snd best then (k, e) else best) d"

definition evict :: "(pystr, real \<times> bytes list) dict \<Rightarrow> (pystr, real \<times> bytes list) dict" where
  "evict d = (case d of [] \<Rightarrow> [] | (k, e, a) # d' \<Rightarrow> dict_pop (oldest_from (k, e) d') d)"

definition cache_put :: "real \<Rightarrow> pystr \<Rightarrow> bytes list \<Rightarrow> dns_state \<Rightarrow> dns_state" where
  "cache_put now h addrs s =
     (let d = (if CACHE_MAX \<le> length (shared_cache s) then evict (shared_cache s) else shared_cache s)
      in s\<lparr>shared_cache := dict_set h (now + CACHE_TTL_S, addrs) d\<rparr>)"

section \<open>Lookups\<close>

text \<open>
  \<^verbatim>\<open>socket.inet_aton\<close> on what \<^verbatim>\<open>getaddrinfo\<close> returns for \<^verbatim>\<open>AF_INET\<close>: a dotted quad; any other
  text raises \<^verbatim>\<open>OSError\<close> and is skipped.
\<close>

definition inet_aton :: "pystr \<Rightarrow> bytes option" where
  "inet_aton s = map_option (be_bytes 4) (ipv4_of_text s)"

fun dedup :: "bytes list \<Rightarrow> bytes list \<Rightarrow> bytes list" where
  "dedup seen [] = seen"
| "dedup seen (a # as) = dedup (if a \<in> set seen then seen else seen @ [a]) as"

text \<open>
  The end of a lookup: \<open>answers\<close> is what \<^verbatim>\<open>getaddrinfo\<close> gave, the address texts or an exception.
  An \<^verbatim>\<open>OSError\<close> (and \<^verbatim>\<open>gaierror\<close>) is cached as "no address", any other ends the task. The done
  callback drops the name from \<^verbatim>\<open>_inflight\<close>.
\<close>

definition lookup_done :: "real \<Rightarrow> nat \<Rightarrow> pystr \<Rightarrow> pystr list res \<Rightarrow> dns_state \<Rightarrow> dns_state" where
  "lookup_done now tid h answers s =
     (let result =
        (case answers of
           Inl e \<Rightarrow> if e = OSError then Inr [] else Inl e
         | Inr texts \<Rightarrow> Inr (dedup [] (List.map_filter inet_aton texts)));
          s1 = (case result of
             Inl _ \<Rightarrow> s
           | Inr addrs \<Rightarrow> dns_emit (Dns_lookup h now addrs) (cache_put now h addrs s))
      in s1\<lparr>task_result := (task_result s1)(tid := Some result), inflight := dict_pop h (inflight s1)\<rparr>)"

section \<open>The resolver\<close>

text \<open>A task for \<^verbatim>\<open>_lookup\<close>, filed in \<^verbatim>\<open>_inflight\<close>.\<close>

definition start_task :: "pystr \<Rightarrow> dns_state \<Rightarrow> dns_state" where
  "start_task h s = s\<lparr>next_task := next_task s + 1, inflight := dict_set h (next_task s) (inflight s),
     task_host := (task_host s)(next_task s := Some h)\<rparr>"

text \<open>\<^verbatim>\<open>_resolve_a\<close> up to its wait: an answer from a cache, or the task to wait for.\<close>

definition resolve_start ::
  "egress_env \<Rightarrow> real \<Rightarrow> nat \<Rightarrow> pystr \<Rightarrow> dns_state \<Rightarrow> (bytes list + nat) \<times> dns_state" where
  "resolve_start env now r h s =
     (case dict_get (own_cache s r) h of
        Some addrs \<Rightarrow> (Inl (filter_resolved_ips env addrs), s)
      | None \<Rightarrow>
          case cache_get now h s of
            (Some addrs, s1) \<Rightarrow>
              (Inl (filter_resolved_ips env addrs),
               s1\<lparr>own_cache := (own_cache s1)(r := dict_set h addrs (own_cache s1 r))\<rparr>)
          | (None, s1) \<Rightarrow>
              case dict_get (inflight s1) h of
                Some tid \<Rightarrow> (Inr tid, s1)
              | None \<Rightarrow> (Inr (next_task s1), start_task h s1))"

text \<open>The rest: the task is over (\<open>Some\<close> result), or the client has waited too long (\<open>None\<close>).\<close>

definition resolve_end ::
  "egress_env \<Rightarrow> nat \<Rightarrow> pystr \<Rightarrow> bytes list res option \<Rightarrow> dns_state \<Rightarrow> bytes list option res \<times> dns_state" where
  "resolve_end env r h outcome s =
     (case outcome of
        None \<Rightarrow> (Inr None, s)
      | Some (Inl e) \<Rightarrow> (if e = OSError then Inr (Some []) else Inl e, s)
      | Some (Inr addrs) \<Rightarrow>
          (Inr (Some (filter_resolved_ips env addrs)),
           s\<lparr>own_cache := (own_cache s)(r := dict_set h addrs (own_cache s r))\<rparr>))"

type_synonym dns_reply = "(bytes \<times> bytes \<times> udp) option"

definition wrap :: "bytes \<Rightarrow> udp \<Rightarrow> dns \<Rightarrow> dns_reply res" where
  "wrap chip_src u resp =
     bindr (dns_to_bytes resp) (\<lambda>p. bindr (ip_to_bytes DNS_IP) (\<lambda>dns_ip.
       Inr (Some (chip_src, dns_ip,
         udp_default\<lparr>udp_src_port := 53, udp_dst_port := udp_src_port u, udp_payload := p\<rparr>))))"

definition response :: "dns \<Rightarrow> int \<Rightarrow> (pystr \<times> int \<times> int \<times> int \<times> bytes) list \<Rightarrow> dns" where
  "response req rcode answers =
     \<lparr>txid = txid req, dns_flags = DNS_FLAG_QR OR DNS_FLAG_RA OR (dns_flags req AND DNS_FLAG_RD) OR rcode,
      qd = qd req, an = answers\<rparr>"

definition a_record :: "pystr \<Rightarrow> bytes \<Rightarrow> pystr \<times> int \<times> int \<times> int \<times> bytes" where
  "a_record qname ip4 = (qname, DNS_TYPE_A, DNS_CLASS_IN, 60, ip4)"

text \<open>\<^verbatim>\<open>handle\<close> from the point where the name is resolved.\<close>

definition answer_query ::
  "bytes \<Rightarrow> udp \<Rightarrow> dns \<Rightarrow> pystr \<Rightarrow> bytes list option \<Rightarrow> dns_state \<Rightarrow> dns_reply res \<times> dns_state" where
  "answer_query chip_src u req qname addrs s =
     (case addrs of
        None \<Rightarrow> (Inr None, s)
      | Some [] \<Rightarrow> (wrap chip_src u (response req DNS_FLAG_RCODE_NXDOMAIN []),
                   dns_emit (Dns_egress ''blocked'' qname None ''no_answer'') s)
      | Some (a # as) \<Rightarrow> (wrap chip_src u (response req 0 (map (a_record qname) (a # as))),
                   dns_emit (Dns_egress ''allowed'' qname (Some (bytes_to_ip a)) ''resolved'') s))"

definition is_host_alias :: "pystr \<Rightarrow> bool" where
  "is_host_alias qname \<longleftrightarrow> rstrip (\<lambda>c. c = 46) (lower qname) = HOST_ALIAS_HOSTNAME"

text \<open>
  \<^verbatim>\<open>handle\<close> up to its wait, as the call number \<open>c\<close> of resolver \<open>r\<close>: \<open>Inl\<close> its result (a reply, silence or
  an exception), \<open>Inr\<close> the task it waits for.
\<close>

definition dns_handle ::
  "egress_env \<Rightarrow> real \<Rightarrow> nat \<Rightarrow> nat \<Rightarrow> bytes \<Rightarrow> udp \<Rightarrow> dns_state \<Rightarrow> ((dns_reply res + nat) \<times> dns_state) option" where
  "dns_handle env now r c chip_src u s =
     (case dns_parse (udp_payload u) of
        None \<Rightarrow> None
      | Some (Inl e) \<Rightarrow> Some (Inl (if e = ValueError then Inr None else Inl e), s)
      | Some (Inr req) \<Rightarrow>
          (case qd req of
             [] \<Rightarrow> Some (Inl (Inr None), s)
           | (qname, qtype, qclass) # _ \<Rightarrow>
               if qclass \<noteq> DNS_CLASS_IN \<or> qtype \<notin> {DNS_TYPE_A, DNS_TYPE_AAAA}
               then Some (Inl (wrap chip_src u (response req 0 [])), s)
               else if qtype = DNS_TYPE_AAAA
               then Some (Inl (wrap chip_src u (response req 0 [])), s)
               else if is_host_alias qname
               then Some (Inl (wrap chip_src u (response req 0 [a_record qname (ip_const HOST_ALIAS_IP)])),
                      dns_emit (Dns_egress ''allowed'' qname (Some HOST_ALIAS_IP) ''host_alias'') s)
               else (case resolve_start env now r qname s of
                   (Inl addrs, s1) \<Rightarrow>
                     let (reply, s2) = answer_query chip_src u req qname (Some addrs) s1
                     in Some (Inl reply, s2)
                 | (Inr tid, s1) \<Rightarrow>
                     Some (Inr tid, s1\<lparr>asked := (asked s1)(c := Some (r, tid, chip_src, u, req))\<rparr>))))"

definition dns_resume ::
  "egress_env \<Rightarrow> nat \<Rightarrow> dns_call \<Rightarrow> bool \<Rightarrow> dns_state \<Rightarrow> dns_reply res \<times> dns_state" where
  "dns_resume env c call timeout s =
     (let (r, tid, chip_src, u, req) = call; qname = fst (hd (qd req));
          s1 = s\<lparr>asked := (asked s)(c := None)\<rparr>
      in case resolve_end env r qname (if timeout then None else task_result s tid) s1 of
           (Inl e, s2) \<Rightarrow> (Inl e, s2)
         | (Inr addrs, s2) \<Rightarrow> answer_query chip_src u req qname addrs s2)"

definition is_dns_traffic :: "udp \<Rightarrow> bool" where
  "is_dns_traffic u \<longleftrightarrow> udp_dst_port u = 53"

definition make_dns_frame :: "bytes \<Rightarrow> bytes \<Rightarrow> bytes \<Rightarrow> udp \<Rightarrow> bytes res" where
  "make_dns_frame chip_mac src_ip dst_ip u =
     bindr (udp_to_bytes u src_ip dst_ip) (\<lambda>l4.
       make_frame_ipv4 chip_mac GATEWAY_MAC src_ip dst_ip 17 l4)"

end
