(* ===== verification/Dns_Machine.thy ===== *)
theory Dns_Machine
  imports Dns
begin

text \<open>
  The DNS proxy as a machine: queries of any number of resolvers, lookups that end and calls
  that resume, in any order. The invariant ties the shared cache to the last answer of the
  host's resolver for each name and the table of running lookups to the tasks.
\<close>

section \<open>Steps\<close>

datatype dns_event =
    Dns_asked nat nat real bytes udp
  | Dns_answered nat real "pystr list res"
  | Dns_resumed nat bool

inductive dns_step :: "egress_env \<Rightarrow> dns_state \<Rightarrow> dns_event \<Rightarrow> dns_state \<Rightarrow> bool" for env where
  dns_step_asked:
    "asked s c = None \<Longrightarrow> dns_handle env now r c chip_src u s = Some (x, t) \<Longrightarrow>
     dns_step env s (Dns_asked r c now chip_src u) t"
| dns_step_answered:
    "task_host s tid = Some h \<Longrightarrow> task_result s tid = None \<Longrightarrow>
     dns_step env s (Dns_answered tid now answers) (lookup_done now tid h answers s)"
| dns_step_resumed:
    "asked s c = Some call \<Longrightarrow> timeout \<or> task_result s (fst (snd call)) \<noteq> None \<Longrightarrow>
     dns_step env s (Dns_resumed c timeout) (snd (dns_resume env c call timeout s))"

definition dns_new :: dns_state where
  "dns_new = \<lparr>shared_cache = [], inflight = [], task_host = (\<lambda>_. None), task_result = (\<lambda>_. None),
     next_task = 0, own_cache = (\<lambda>_. []), asked = (\<lambda>_. None), dns_log = []\<rparr>"

section \<open>What the resolver of the host last said\<close>

fun last_lookup :: "dns_record list \<Rightarrow> pystr \<Rightarrow> (real \<times> bytes list) option" where
  "last_lookup [] h = None"
| "last_lookup (Dns_lookup h' t as # lg) h =
     (case last_lookup lg h of Some x \<Rightarrow> Some x | None \<Rightarrow> if h' = h then Some (t, as) else None)"
| "last_lookup (Dns_egress v n i r # lg) h = last_lookup lg h"

lemma last_lookup_snoc [simp]:
  "last_lookup (lg @ [Dns_lookup h' t as]) h = (if h' = h then Some (t, as) else last_lookup lg h)"
  "last_lookup (lg @ [Dns_egress v n i r]) h = last_lookup lg h"
  by (induction lg h rule: last_lookup.induct) (auto split: option.split)

lemma last_lookup_in: "last_lookup lg h = Some (t, as) \<Longrightarrow> Dns_lookup h t as \<in> set lg"
  by (induction lg h rule: last_lookup.induct) (auto split: option.splits if_splits)

section \<open>Invariant\<close>

text \<open>An answer that was given for the name at some time.\<close>

definition answered :: "dns_record list \<Rightarrow> pystr \<Rightarrow> bytes list \<Rightarrow> bool" where
  "answered lg h as \<longleftrightarrow> (\<exists>t. Dns_lookup h t as \<in> set lg)"

definition log_ok :: "dns_record list \<Rightarrow> bool" where
  "log_ok lg \<longleftrightarrow> (\<forall>h t as. Dns_lookup h t as \<in> set lg \<longrightarrow> distinct as \<and> list_all (\<lambda>a. length a = 4) as)"

definition entry_ok :: "dns_record list \<Rightarrow> pystr \<Rightarrow> real \<times> bytes list \<Rightarrow> bool" where
  "entry_ok lg h v \<longleftrightarrow> last_lookup lg h = Some (fst v - CACHE_TTL_S, snd v)"

definition cache_ok :: "dns_state \<Rightarrow> bool" where
  "cache_ok s \<longleftrightarrow> dict_ok (shared_cache s) \<and> length (shared_cache s) \<le> CACHE_MAX \<and>
     dict_all (entry_ok (dns_log s)) (shared_cache s) \<and>
     (\<forall>r. dict_all (answered (dns_log s)) (own_cache s r)) \<and> log_ok (dns_log s)"

definition running :: "dns_state \<Rightarrow> pystr \<Rightarrow> nat \<Rightarrow> bool" where
  "running s h tid \<longleftrightarrow> task_host s tid = Some h \<and> task_result s tid = None"

definition tasks_ok :: "dns_state \<Rightarrow> bool" where
  "tasks_ok s \<longleftrightarrow> dict_ok (inflight s) \<and> (\<forall>h tid. dict_get (inflight s) h = Some tid \<longleftrightarrow> running s h tid) \<and>
     (\<forall>tid \<ge> next_task s. task_host s tid = None \<and> task_result s tid = None) \<and>
     (\<forall>tid as. task_result s tid = Some (Inr as) \<longrightarrow>
        (\<exists>h. task_host s tid = Some h \<and> answered (dns_log s) h as))"

definition call_ok :: "dns_state \<Rightarrow> dns_call \<Rightarrow> bool" where
  "call_ok s = (\<lambda>(r, tid, chip_src, u, req). qd req \<noteq> [] \<and> task_host s tid = Some (fst (hd (qd req))))"

definition dns_inv :: "dns_state \<Rightarrow> bool" where
  "dns_inv s \<longleftrightarrow> cache_ok s \<and> tasks_ok s \<and> map_all (\<lambda>c. call_ok s) (asked s)"

lemma dns_inv_new: "dns_inv dns_new"
  by (simp add: dns_inv_def dns_new_def cache_ok_def tasks_ok_def dict_ok_def dict_keys_def dict_get_def
      log_ok_def running_def)

lemma answered_snoc: "answered lg h as \<Longrightarrow> answered (lg @ l) h as"
  by (auto simp: answered_def)

lemma tasks_get: "tasks_ok s \<Longrightarrow> dict_get (inflight s) h = Some tid \<longleftrightarrow> running s h tid"
  by (simp add: tasks_ok_def)

lemma tasks_fresh: "tasks_ok s \<Longrightarrow> next_task s \<le> tid \<Longrightarrow> task_host s tid = None \<and> task_result s tid = None"
  by (simp add: tasks_ok_def)

lemma tasks_result: "tasks_ok s \<Longrightarrow> task_result s tid = Some (Inr as) \<Longrightarrow>
    \<exists>h. task_host s tid = Some h \<and> answered (dns_log s) h as"
  unfolding tasks_ok_def by blast

lemma calls_ok: "dns_inv s \<Longrightarrow> asked s c = Some call \<Longrightarrow> call_ok s call"
  by (auto simp: dns_inv_def intro: map_all_get)

subsection \<open>The shared cache\<close>

lemma dict_keys_Cons [simp]: "dict_keys [] = []" "dict_keys ((k, v) # d) = k # dict_keys d"
  by (simp_all add: dict_keys_def)

lemma oldest_from_in: "oldest_from best d \<in> insert (fst best) (set (dict_keys d))"
proof (induction best d rule: oldest_from.induct)
  case (2 best k e a d)
  then show ?case by (cases "e < snd best") (simp_all, blast+)
qed simp

text \<open>The key that goes is one with the least expiry.\<close>

lemma oldest_from_least:
  "\<exists>e. (oldest_from best d, e) \<in> insert best ((\<lambda>(k, e, a). (k, e)) ` set d) \<and>
    e \<le> snd best \<and> (\<forall>(k', e', a') \<in> set d. e \<le> e')"
proof (induction best d rule: oldest_from.induct)
  case (2 best k e a d)
  then show ?case by (cases "e < snd best") (auto, force+)
qed auto

lemma length_pop: "k \<in> set (dict_keys d) \<Longrightarrow> length (dict_pop k d) < length d"
  by (induction d) (auto simp: dict_pop_def dict_keys_def le_imp_less_Suc AList.delete_eq)

lemma length_pop_le: "length (dict_pop k d) \<le> length d"
  by (simp add: dict_pop_def AList.delete_eq)

lemma length_set: "length (dict_set k v d) \<le> Suc (length d)"
  by (induction d) (auto simp: dict_set_def)

lemma length_evict:
  assumes "d \<noteq> []"
  shows "length (evict d) < length d"
proof -
  obtain k e a d' where d: "d = (k, e, a) # d'" using assms by (cases d) auto
  have "oldest_from (k, e) d' \<in> set (dict_keys d)" using oldest_from_in [of "(k, e)" d'] by (simp add: d)
  then have "length (dict_pop (oldest_from (k, e) d') d) < length d" by (rule length_pop)
  then show ?thesis by (simp add: evict_def d)
qed

lemma evict_pop: "\<exists>k. evict d = dict_pop k d"
  by (cases d) (auto simp: evict_def dict_pop_def)

lemma dict_all_subset:
  assumes "dict_all P d" "\<And>k v. dict_get d' k = Some v \<Longrightarrow> dict_get d k = Some v"
  shows "dict_all P d'"
  using assms by (auto intro!: dict_allI dest: dict_all_get)

lemma cache_get_ok:
  assumes "cache_ok s"
  shows "\<exists>d. snd (cache_get now h s) = s\<lparr>shared_cache := d\<rparr> \<and> cache_ok (s\<lparr>shared_cache := d\<rparr>)"
proof -
  let ?d = "dict_pop h (shared_cache s)"
  have "dict_all (entry_ok (dns_log s)) ?d"
    using assms by (intro dict_all_pop) (auto simp: cache_ok_def intro: dict_all_get)
  moreover have "length ?d \<le> CACHE_MAX"
    using assms length_pop_le [of h "shared_cache s"] by (simp add: cache_ok_def)
  ultimately have "cache_ok (s\<lparr>shared_cache := ?d\<rparr>)" using assms by (simp add: cache_ok_def py_dict.ok_pop)
  moreover have "snd (cache_get now h s) \<in> {s\<lparr>shared_cache := shared_cache s\<rparr>, s\<lparr>shared_cache := ?d\<rparr>}"
    by (auto simp: cache_get_def split: option.split)
  moreover have "cache_ok (s\<lparr>shared_cache := shared_cache s\<rparr>)" using assms by simp
  ultimately show ?thesis by blast
qed

lemma cache_get_some:
  assumes "cache_ok s" "fst (cache_get now h s) = Some as"
  shows "\<exists>t. last_lookup (dns_log s) h = Some (t, as) \<and> now \<le> t + CACHE_TTL_S"
proof -
  obtain e where e: "dict_get (shared_cache s) h = Some (e, as)" "now \<le> e"
    using assms(2) by (auto simp: cache_get_def split: option.splits if_splits)
  have "entry_ok (dns_log s) h (e, as)" using assms(1) e(1) by (auto simp: cache_ok_def intro: dict_all_get)
  then show ?thesis using e(2) by (simp add: entry_ok_def)
qed

lemma cache_put_ok:
  assumes ok: "cache_ok s" and as: "distinct as" "list_all (\<lambda>a. length a = 4) as"
  shows "cache_ok (dns_emit (Dns_lookup h now as) (cache_put now h as s))"
proof -
  let ?c = "shared_cache s"
  let ?d = "if CACHE_MAX \<le> length ?c then evict ?c else ?c"
  obtain k where k: "evict ?c = dict_pop k ?c" using evict_pop by blast
  have d: "dict_ok ?d" using ok k by (simp add: cache_ok_def py_dict.ok_pop)
  have "length ?d < CACHE_MAX"
    using ok length_evict [of ?c] by (cases "?c = []") (auto simp: cache_ok_def CACHE_MAX_def)
  then have len: "length (dict_set h (now + CACHE_TTL_S, as) ?d) \<le> CACHE_MAX"
    using length_set [of h "(now + CACHE_TTL_S, as)" ?d] by linarith
  have entries: "dict_all (entry_ok (dns_log s @ [Dns_lookup h now as]))
      (dict_set h (now + CACHE_TTL_S, as) ?d)"
  proof (rule dict_all_set)
    show "entry_ok (dns_log s @ [Dns_lookup h now as]) h (now + CACHE_TTL_S, as)" by (simp add: entry_ok_def)
    fix h' v assume h': "h' \<noteq> h" "dict_get ?d h' = Some v"
    then have "dict_get ?c h' = Some v" using k by (auto simp: py_dict.get_pop split: if_splits)
    then have "entry_ok (dns_log s) h' v" using ok by (auto simp: cache_ok_def intro: dict_all_get)
    then show "entry_ok (dns_log s @ [Dns_lookup h now as]) h' v" using h'(1) by (simp add: entry_ok_def)
  qed
  have "\<forall>r. dict_all (answered (dns_log s @ [Dns_lookup h now as])) (own_cache s r)"
    using ok by (auto simp: cache_ok_def intro!: dict_allI answered_snoc dest: dict_all_get)
  moreover have "log_ok (dns_log s @ [Dns_lookup h now as])"
    using ok as by (auto simp: cache_ok_def log_ok_def)
  ultimately show ?thesis
    using d len entries by (simp add: cache_ok_def dns_emit_def cache_put_def Let_def py_dict.ok_put)
qed

subsection \<open>Lookups\<close>

lemma dedup_props:
  assumes "distinct seen" "list_all P seen" "list_all P as"
  shows "distinct (dedup seen as)" "list_all P (dedup seen as)" "set (dedup seen as) = set seen \<union> set as"
  using assms by (induction seen as rule: dedup.induct) (auto split: if_splits)

lemma length_inet_aton: "inet_aton t = Some a \<Longrightarrow> length a = 4"
  by (auto simp: inet_aton_def)

lemma lookup_answer_ok:
  "distinct (dedup [] (List.map_filter inet_aton texts))"
  "list_all (\<lambda>a. length a = 4) (dedup [] (List.map_filter inet_aton texts))"
proof -
  have "list_all (\<lambda>a. length a = 4) (List.map_filter inet_aton texts)"
    using length_inet_aton by (induction texts) (simp_all add: map_filter_simps split: option.split)
  then show "distinct (dedup [] (List.map_filter inet_aton texts))"
    "list_all (\<lambda>a. length a = 4) (dedup [] (List.map_filter inet_aton texts))"
    using dedup_props [of "[]" "\<lambda>a. length a = 4"] by simp_all
qed

subsection \<open>Steps keep the invariant\<close>

lemma dns_emit_simps [simp]:
  "shared_cache (dns_emit a s) = shared_cache s" "inflight (dns_emit a s) = inflight s"
  "task_host (dns_emit a s) = task_host s" "task_result (dns_emit a s) = task_result s"
  "next_task (dns_emit a s) = next_task s" "own_cache (dns_emit a s) = own_cache s"
  "asked (dns_emit a s) = asked s" "dns_log (dns_emit a s) = dns_log s @ [a]"
  by (simp_all add: dns_emit_def)

lemma cache_put_simps [simp]:
  "inflight (cache_put now h as s) = inflight s" "task_host (cache_put now h as s) = task_host s"
  "task_result (cache_put now h as s) = task_result s" "next_task (cache_put now h as s) = next_task s"
  "own_cache (cache_put now h as s) = own_cache s" "asked (cache_put now h as s) = asked s"
  "dns_log (cache_put now h as s) = dns_log s"
  by (simp_all add: cache_put_def Let_def)

lemma cache_ok_cong:
  assumes "shared_cache t = shared_cache s" "own_cache t = own_cache s" "dns_log t = dns_log s"
  shows "cache_ok t = cache_ok s"
  using assms by (simp add: cache_ok_def)

lemma cache_ok_egress: "cache_ok s \<Longrightarrow> cache_ok (dns_emit (Dns_egress v n i r) s)"
  by (auto simp: cache_ok_def log_ok_def entry_ok_def dict_all_def intro: answered_snoc)

lemma tasks_ok_log:
  assumes "tasks_ok s" "inflight t = inflight s" "task_host t = task_host s"
    "task_result t = task_result s" "next_task t = next_task s" "dns_log t = dns_log s @ l"
  shows "tasks_ok t"
proof -
  have "\<exists>h. task_host t tid = Some h \<and> answered (dns_log t) h as"
    if r: "task_result t tid = Some (Inr as)" for tid as
  proof -
    obtain h where "task_host s tid = Some h" "answered (dns_log s) h as"
      using tasks_result [OF assms(1)] assms(4) r by metis
    then show ?thesis using assms(3,6) answered_snoc by auto
  qed
  then show ?thesis using assms by (simp add: tasks_ok_def running_def)
qed

lemma dns_inv_egress: "dns_inv s \<Longrightarrow> dns_inv (dns_emit (Dns_egress v n i r) s)"
  using cache_ok_egress [of s v n i r] tasks_ok_log [of s "dns_emit (Dns_egress v n i r) s" "[Dns_egress v n i r]"]
  by (simp add: dns_inv_def call_ok_def)

lemma tasks_ok_finish:
  assumes ok: "tasks_ok s" and run: "running s h tid"
    and res: "\<And>as. result = Inr as \<Longrightarrow> answered (dns_log s) h as"
  shows "tasks_ok (s\<lparr>task_result := (task_result s)(tid := Some result), inflight := dict_pop h (inflight s)\<rparr>)"
    (is "tasks_ok ?t")
proof -
  have cur: "dict_get (inflight s) h = Some tid" using ok run by (simp add: tasks_ok_def)
  have "dict_get (inflight ?t) h' = Some tid' \<longleftrightarrow> running ?t h' tid'" for h' tid'
  proof (cases "tid' = tid")
    case True
    have "h' = h" if "running s h' tid" using that run by (simp add: running_def)
    then show ?thesis using True tasks_get [OF ok, of h' tid] by (auto simp: running_def py_dict.get_pop)
  next
    case False
    have "h' \<noteq> h" if "running s h' tid'" using tasks_get [OF ok, of h' tid'] cur False that by auto
    then show ?thesis using False tasks_get [OF ok, of h' tid'] by (auto simp: running_def py_dict.get_pop)
  qed
  moreover have "task_host ?t t' = None \<and> task_result ?t t' = None" if "next_task s \<le> t'" for t'
    using tasks_fresh [OF ok that] run by (auto simp: running_def)
  moreover have "\<exists>h. task_host ?t t' = Some h \<and> answered (dns_log ?t) h as"
    if r: "task_result ?t t' = Some (Inr as)" for t' as
  proof (cases "t' = tid")
    case True
    then show ?thesis using r run res by (simp add: running_def)
  next
    case False
    then show ?thesis using r tasks_result [OF ok, of t' as] by simp
  qed
  ultimately show ?thesis using ok by (simp add: tasks_ok_def py_dict.ok_pop)
qed

lemma dns_inv_lookup:
  assumes inv: "dns_inv s" and run: "running s h tid"
  shows "dns_inv (lookup_done now tid h answers s)"
proof -
  define result where "result = (case answers of
      Inl e \<Rightarrow> if e = OSError then Inr [] else Inl e
    | Inr texts \<Rightarrow> Inr (dedup [] (List.map_filter inet_aton texts)))"
  define u where "u = (case result of Inl _ \<Rightarrow> s
    | Inr addrs \<Rightarrow> dns_emit (Dns_lookup h now addrs) (cache_put now h addrs s))"
  let ?t = "u\<lparr>task_result := (task_result u)(tid := Some result), inflight := dict_pop h (inflight u)\<rparr>"
  have t: "lookup_done now tid h answers s = ?t"
    by (simp only: lookup_done_def Let_def result_def u_def)
  have res: "distinct as \<and> list_all (\<lambda>a. length a = 4) as" if "result = Inr as" for as
    using that lookup_answer_ok by (auto simp: result_def split: sum.splits if_splits)
  have "cache_ok u \<and> tasks_ok u \<and> task_host u = task_host s \<and> asked u = asked s \<and> running u h tid \<and>
      (\<forall>as. result = Inr as \<longrightarrow> answered (dns_log u) h as)"
  proof (cases result)
    case (Inl e)
    then show ?thesis using inv run by (simp add: u_def dns_inv_def)
  next
    case (Inr as)
    then have u: "u = dns_emit (Dns_lookup h now as) (cache_put now h as s)" by (simp add: u_def)
    have "cache_ok u" unfolding u using inv res [OF Inr] by (intro cache_put_ok) (simp_all add: dns_inv_def)
    moreover have "tasks_ok u"
      using inv by (intro tasks_ok_log [of s u "[Dns_lookup h now as]"]) (simp_all add: dns_inv_def u)
    ultimately show ?thesis using run Inr by (simp add: u running_def answered_def) blast
  qed
  then show ?thesis
    using tasks_ok_finish [of u h tid result] inv cache_ok_cong [of ?t u] unfolding t
    by (simp add: dns_inv_def call_ok_def)
qed

lemma dns_inv_own:
  assumes "dns_inv s" "answered (dns_log s) h as"
  shows "dns_inv (s\<lparr>own_cache := (own_cache s)(r := dict_set h as (own_cache s r))\<rparr>)"
  using assms by (auto simp: dns_inv_def cache_ok_def tasks_ok_def call_ok_def running_def
      intro!: dict_all_set dest: dict_all_get)

lemma start_task_inv:
  assumes inv: "dns_inv s" and none: "dict_get (inflight s) h = None"
  shows "dns_inv (start_task h s)" "running (start_task h s) h (next_task s)"
proof -
  let ?n = "next_task s" and ?t = "start_task h s"
  have ok: "tasks_ok s" using inv by (simp add: dns_inv_def)
  have n: "task_host s ?n = None" "task_result s ?n = None" using tasks_fresh [OF ok, of ?n] by simp_all
  show "running ?t h ?n" using n by (simp add: running_def start_task_def)
  have "dict_get (inflight ?t) h' = Some tid' \<longleftrightarrow> running ?t h' tid'" for h' tid'
  proof -
    have "\<not> running s h t'" for t' using tasks_get [OF ok, of h t'] none by simp
    then show ?thesis using tasks_get [OF ok, of h' tid'] n
      by (cases "tid' = ?n"; cases "h' = h") (simp_all add: running_def py_dict.get_put start_task_def)
  qed
  moreover have "task_host ?t t' = None \<and> task_result ?t t' = None" if "next_task ?t \<le> t'" for t'
    using tasks_fresh [OF ok, of t'] that by (simp add: start_task_def)
  moreover have "\<exists>h. task_host ?t t' = Some h \<and> answered (dns_log ?t) h as"
    if r: "task_result ?t t' = Some (Inr as)" for t' as
    using tasks_result [OF ok, of t' as] r n by (cases "t' = ?n") (simp_all add: start_task_def)
  moreover have "dict_ok (inflight ?t)" using ok by (simp add: tasks_ok_def py_dict.ok_put start_task_def)
  ultimately have "tasks_ok ?t" unfolding tasks_ok_def by blast
  moreover have "map_all (\<lambda>c. call_ok ?t) (asked ?t)"
  proof (rule map_allI)
    fix c call assume "asked ?t c = Some call"
    then have "call_ok s call" using calls_ok [OF inv] by (simp add: start_task_def)
    then show "call_ok ?t call" using n by (cases call) (auto simp: call_ok_def start_task_def)
  qed
  moreover have "cache_ok ?t" using inv cache_ok_cong [of ?t s] by (simp add: dns_inv_def start_task_def)
  ultimately show "dns_inv ?t" by (simp add: dns_inv_def)
qed

text \<open>What starting to resolve a name can do.\<close>

lemma resolve_start_inv:
  assumes inv: "dns_inv s" and st: "resolve_start env now r h s = (x, t)"
  shows "dns_inv t \<and> asked t = asked s \<and>
    (case x of Inl as \<Rightarrow> \<exists>raw. as = filter_resolved_ips env raw \<and> answered (dns_log s) h raw
     | Inr tid \<Rightarrow> running t h tid)"
proof (cases "dict_get (own_cache s r) h")
  case (Some as)
  then have "answered (dns_log s) h as" using inv by (auto simp: dns_inv_def cache_ok_def intro: dict_all_get)
  then show ?thesis using Some st inv by (auto simp: resolve_start_def)
next
  case None
  note own = None
  obtain d where d: "snd (cache_get now h s) = s\<lparr>shared_cache := d\<rparr>" "cache_ok (s\<lparr>shared_cache := d\<rparr>)"
    using cache_get_ok [of s now h] inv by (auto simp: dns_inv_def)
  let ?s = "s\<lparr>shared_cache := d\<rparr>"
  have s: "dns_inv ?s" using inv d(2) by (simp add: dns_inv_def tasks_ok_def running_def call_ok_def)
  show ?thesis
  proof (cases "fst (cache_get now h s)")
    case (Some as)
    obtain e where "last_lookup (dns_log s) h = Some (e, as)"
      using cache_get_some [of s now h as] inv Some by (auto simp: dns_inv_def)
    then have a: "answered (dns_log s) h as" by (auto simp: answered_def dest: last_lookup_in)
    have "cache_get now h s = (Some as, ?s)" using Some d(1) by (metis prod.collapse)
    then show ?thesis using own st dns_inv_own [OF s, of h as r] a by (auto simp: resolve_start_def)
  next
    case None
    have c: "cache_get now h s = (None, ?s)" using None d(1) by (metis prod.collapse)
    show ?thesis
    proof (cases "dict_get (inflight s) h")
      case (Some tid)
      then have "running s h tid" using inv by (simp add: dns_inv_def tasks_ok_def)
      then show ?thesis using own c st s Some by (auto simp: resolve_start_def running_def)
    next
      case None
      then have "dns_inv (start_task h ?s)" "running (start_task h ?s) h (next_task s)"
        using start_task_inv [OF s, of h] by simp_all
      then show ?thesis using own c st None by (auto simp: resolve_start_def start_task_def)
    qed
  qed
qed

lemma answer_query_inv: "dns_inv s \<Longrightarrow> dns_inv (snd (answer_query src u req n as s))"
  by (cases as; cases "the as") (auto simp: answer_query_def dns_inv_egress)

lemma dns_handle_inv:
  assumes inv: "dns_inv s" and h: "dns_handle env now r c src u s = Some (x, t)"
  shows "dns_inv t"
proof -
  have resolved: "dns_inv t"
    if req: "qd req = (n, ty, cl) # qs" and
      t: "(case resolve_start env now r n s of
          (Inl as, s1) \<Rightarrow> let (reply, s2) = answer_query src u req n (Some as) s1 in Some (Inl reply, s2)
        | (Inr tid, s1) \<Rightarrow> Some (Inr tid, s1\<lparr>asked := (asked s1)(c := Some (r, tid, src, u, req))\<rparr>)) = Some (x, t)"
    for req n ty cl qs
  proof -
    obtain y s1 where y: "resolve_start env now r n s = (y, s1)" by (cases "resolve_start env now r n s")
    note st = resolve_start_inv [OF inv y]
    show ?thesis
    proof (cases y)
      case (Inl as)
      then have "t = snd (answer_query src u req n (Some as) s1)"
        using t y by (auto simp: Let_def split: prod.splits)
      then show ?thesis using st answer_query_inv by simp
    next
      case (Inr tid)
      then have t': "t = s1\<lparr>asked := (asked s1)(c := Some (r, tid, src, u, req))\<rparr>" using t y by simp
      have "map_all (\<lambda>c. call_ok t) (asked t)"
      proof (rule map_allI)
        fix c' call assume c': "asked t c' = Some call"
        show "call_ok t call"
        proof (cases "c' = c")
          case True
          then show ?thesis using c' st Inr req t' by (auto simp: call_ok_def running_def)
        next
          case False
          then have "call_ok s1 call" using c' st t' calls_ok [of s1 c' call] by simp
          then show ?thesis using t' by (simp add: call_ok_def)
        qed
      qed
      moreover have "cache_ok t" "tasks_ok t"
        using st cache_ok_cong [of t s1] tasks_ok_log [of s1 t "[]"] t' by (simp_all add: dns_inv_def)
      ultimately show ?thesis by (simp add: dns_inv_def)
    qed
  qed
  show ?thesis
  proof (cases "dns_parse (udp_payload u)")
    case None
    then show ?thesis using h by (simp add: dns_handle_def)
  next
    case (Some p)
    show ?thesis
    proof (cases p)
      case (Inl e)
      then show ?thesis using h Some inv by (simp add: dns_handle_def)
    next
      case (Inr req)
      show ?thesis
      proof (cases "qd req")
        case Nil
        then show ?thesis using h Some Inr inv by (simp add: dns_handle_def)
      next
        case (Cons q qs)
        obtain n ty cl where q: "q = (n, ty, cl)" by (cases q)
        note h' = h [unfolded dns_handle_def Some Inr option.case sum.case Cons list.case q prod.case]
        show ?thesis
        proof (cases "cl \<noteq> DNS_CLASS_IN \<or> ty \<notin> {DNS_TYPE_A, DNS_TYPE_AAAA} \<or> ty = DNS_TYPE_AAAA \<or> is_host_alias n")
          case True
          then show ?thesis using h' inv by (auto simp: dns_inv_egress split: if_splits)
        next
          case False
          then show ?thesis using h' Cons q by (intro resolved [of req n ty cl qs]) (auto split: if_splits)
        qed
      qed
    qed
  qed
qed

lemma dns_resume_inv:
  assumes inv: "dns_inv s" and c: "asked s c = Some call"
  shows "dns_inv (snd (dns_resume env c call timeout s))"
proof -
  obtain r tid src u req where call: "call = (r, tid, src, u, req)" by (cases call)
  let ?n = "fst (hd (qd req))" and ?s = "s\<lparr>asked := (asked s)(c := None)\<rparr>"
  have "map_all (\<lambda>c. call_ok ?s) (asked ?s)"
    using calls_ok [OF inv] by (intro map_allI) (auto simp: call_ok_def split: if_splits)
  then have s: "dns_inv ?s"
    using inv cache_ok_cong [of ?s s] tasks_ok_log [of s ?s "[]"] by (simp add: dns_inv_def)
  have "dns_inv (snd (resolve_end env r ?n (if timeout then None else task_result s tid) ?s))"
  proof (cases "\<exists>as. \<not> timeout \<and> task_result s tid = Some (Inr as)")
    case False
    then show ?thesis using s by (auto simp: resolve_end_def split: option.split sum.split)
  next
    case True
    then obtain as where as: "\<not> timeout" "task_result s tid = Some (Inr as)" by blast
    have "task_host s tid = Some ?n" using calls_ok [OF inv c] by (simp add: call call_ok_def)
    then have "answered (dns_log s) ?n as"
      using tasks_result [of s tid as] inv as by (auto simp: dns_inv_def)
    then show ?thesis using dns_inv_own [OF s, of ?n as r] as by (simp add: resolve_end_def)
  qed
  then show ?thesis
    using answer_query_inv by (auto simp: dns_resume_def call Let_def split: prod.split sum.split)
qed

lemma dns_inv_step: "dns_inv s \<Longrightarrow> dns_step env s e t \<Longrightarrow> dns_inv t"
  by (erule dns_step.cases) (auto simp: running_def intro: dns_handle_inv dns_inv_lookup dns_resume_inv)

interpretation dns_machine: machine "\<lambda>s. s = dns_new" "dns_step env" dns_inv for env
  by unfold_locales (auto intro: dns_inv_new dns_inv_step)

end
