(* ===== verification/Dns_Properties.thy ===== *)
theory Dns_Properties
  imports Dns_Machine
begin

text \<open>
  What the DNS proxy promises: the shared cache is a bounded memo of the host resolver's last
  answers, and every A query is answered from it, filtered by the egress policy, or waits for
  the one lookup of its name.
\<close>

section \<open>Sample run\<close>

definition sample_query_udp :: udp where
  "sample_query_udp = udp_default\<lparr>udp_src_port := 50000, udp_dst_port := 53,
     udp_payload := [0, 7, 1, 0, 0, 1, 0, 0, 0, 0, 0, 0, 1, 97, 1, 98, 0, 0, 1, 0, 1]\<rparr>"

lemma sample_query_parse: "dns_parse (udp_payload sample_query_udp) = Some (Inr sample_query)"
proof -
  have w: "write_dns_name (str_of ''a.b'') = [1, 97, 1, 98, 0]"
    by (simp add: write_dns_name_def str_of_def label_bytes_def encode_ascii_def)
  have be2: "be_bytes 2 x = [word_of_int (x div 256), word_of_int x]" for x by (simp add: numeral_2_eq_2)
  have "dns_to_bytes sample_query = Inr (udp_payload sample_query_udp)"
    unfolding dns_encode [OF wf_sample_query]
    by (simp add: sample_query_udp_def sample_query_def dns_head_def question_enc_def w be2)
  then show ?thesis by (rule dns_parse_enc [OF wf_sample_query])
qed

lemma sample_query_fields:
  "qd sample_query = [(str_of ''a.b'', 1, 1)]" "\<not> is_host_alias (str_of ''a.b'')"
  "\<forall>(n, t, c) \<in> set (qd sample_query). wf_name n"
proof -
  show "qd sample_query = [(str_of ''a.b'', 1, 1)]" by (simp add: sample_query_def)
  show "\<not> is_host_alias (str_of ''a.b'')" by code_simp
  show "\<forall>(n, t, c) \<in> set (qd sample_query). wf_name n"
    using wf_sample_query by (auto simp: wf_dns_def wf_question_def list_all_iff)
qed

text \<open>The chip asks for \<^verbatim>\<open>a.b\<close>; the host resolver answers with one public address.\<close>

definition dns_asking :: dns_state where
  "dns_asking = (start_task (str_of ''a.b'') dns_new)\<lparr>asked := (\<lambda>_. None)(0 := Some (0, 0, [10, 13, 37, 42],
     sample_query_udp, sample_query))\<rparr>"

definition dns_told :: dns_state where
  "dns_told = lookup_done 5 0 (str_of ''a.b'') (Inr [bytes_to_ip [93, 184, 216, 34]]) dns_asking"

lemma dns_asking_handle:
  "dns_handle public_env 0 0 0 [10, 13, 37, 42] sample_query_udp dns_new = Some (Inr 0, dns_asking)"
  using sample_query_fields
  by (simp add: dns_handle_def sample_query_parse dns_consts resolve_start_def cache_get_def dns_new_def
      dict_get_def dns_asking_def start_task_def)

lemma sample_inet: "inet_aton (bytes_to_ip [93, 184, 216, 34]) = Some [93, 184, 216, 34]"
proof -
  have "be_bytes 4 (be_int [93, 184, 216, 34]) = [93, 184, 216, 34]"
    using be_bytes_be_int [of "[93, 184, 216, 34]"] by (simp only: list.size) (simp add: eval_nat_numeral)
  then show ?thesis by (simp add: inet_aton_def ipv4_of_text_bytes)
qed

lemma dns_told_eq:
  "dns_told = \<lparr>shared_cache = [(str_of ''a.b'', 65, [[93, 184, 216, 34]])], inflight = [],
     task_host = (\<lambda>_. None)(0 := Some (str_of ''a.b'')),
     task_result = (\<lambda>_. None)(0 := Some (Inr [[93, 184, 216, 34]])), next_task = 1, own_cache = (\<lambda>_. []),
     asked = (\<lambda>_. None)(0 := Some (0, 0, [10, 13, 37, 42], sample_query_udp, sample_query)),
     dns_log = [Dns_lookup (str_of ''a.b'') 5 [[93, 184, 216, 34]]]\<rparr>"
  by (simp add: dns_told_def lookup_done_def map_filter_simps sample_inet cache_put_def dns_asking_def
      start_task_def dns_new_def CACHE_MAX_def CACHE_TTL_S_def dns_emit_def dict_set_def dict_pop_def)

lemma dns_told_run: "runs (dns_step public_env) dns_new dns_told"
proof -
  have "dns_step public_env dns_new (Dns_asked 0 0 0 [10, 13, 37, 42] sample_query_udp) dns_asking"
    by (rule dns_step_asked [OF _ dns_asking_handle]) (simp add: dns_new_def)
  moreover have "dns_step public_env dns_asking (Dns_answered 0 5 (Inr [bytes_to_ip [93, 184, 216, 34]])) dns_told"
    unfolding dns_told_def by (rule dns_step_answered) (simp_all add: dns_asking_def start_task_def dns_new_def)
  ultimately show ?thesis by (meson runs_refl runs_step)
qed

section \<open>The cache\<close>

text \<open>The specification of the cache: an unbounded memo of the last answers, each good for 60 seconds.\<close>

definition memo :: "dns_record list \<Rightarrow> real \<Rightarrow> pystr \<Rightarrow> bytes list option" where
  "memo lg now h = (case last_lookup lg h of
     None \<Rightarrow> None | Some (t, as) \<Rightarrow> if now \<le> t + 60 then Some as else None)"

text \<open>C31: In every reachable state the shared cache refines the memo of the host resolver's last
  answers: what it returns for a name is what the memo returns, or nothing (after an
  eviction), so an answer older than 60 seconds or superseded by a later one is never used.
  At most one lookup of a name is running at any time, however many resolvers ask for it.\<close>

theorem dns_cache_refines:
  assumes "runs (dns_step env) dns_new s"
  shows "(fst (cache_get now h s) = None \<or> fst (cache_get now h s) = memo (dns_log s) now h) \<and>
    (\<forall>tid tid'. running s h tid \<longrightarrow> running s h tid' \<longrightarrow> tid = tid')"
proof -
  have inv: "dns_inv s" using dns_machine.inv_reachable [OF refl assms] .
  then have ok: "cache_ok s" "tasks_ok s" by (simp_all add: dns_inv_def)
  have "fst (cache_get now h s) = memo (dns_log s) now h" if "fst (cache_get now h s) = Some as" for as
    using cache_get_some [OF ok(1) that] that by (auto simp: memo_def CACHE_TTL_S_def)
  moreover have "tid = tid'" if "running s h tid" "running s h tid'" for tid tid'
    using that tasks_get [OF ok(2), of h tid] tasks_get [OF ok(2), of h tid'] by simp
  ultimately show ?thesis by (cases "fst (cache_get now h s)") auto
qed

theorem dns_cache_refines_witness:
  "memo (dns_log dns_told) 30 (str_of ''a.b'') = Some [[93, 184, 216, 34]] \<and>
   fst (cache_get 30 (str_of ''a.b'') dns_told) = memo (dns_log dns_told) 30 (str_of ''a.b'')"
proof -
  have "fst (cache_get 30 (str_of ''a.b'') dns_told) = Some [[93, 184, 216, 34]]"
    by (simp add: cache_get_def dns_told_eq dict_get_def)
  then show ?thesis using dns_cache_refines [OF dns_told_run, of 30 "str_of ''a.b''"] by simp
qed

lemma evict_least:
  assumes ok: "dict_ok d" and ne: "d \<noteq> []"
  shows "\<exists>k e a. evict d = dict_pop k d \<and> dict_get d k = Some (e, a) \<and>
    (\<forall>k' e' a'. dict_get d k' = Some (e', a') \<longrightarrow> e \<le> e')"
proof -
  obtain k0 e0 a0 d' where d: "d = (k0, e0, a0) # d'" using ne by (cases d) auto
  let ?k = "oldest_from (k0, e0) d'"
  obtain e where e: "(?k, e) \<in> insert (k0, e0) ((\<lambda>(k, e, a). (k, e)) ` set d')" "e \<le> e0"
    "\<forall>(k', e', a') \<in> set d'. e \<le> e'"
    using oldest_from_least [of "(k0, e0)" d', unfolded snd_conv] by blast
  then obtain a where "(?k, e, a) \<in> set d" unfolding d by auto
  then have "dict_get d ?k = Some (e, a)" using ok by (rule dict_entry [rotated])
  moreover have "e \<le> e'" if "dict_get d k' = Some (e', a')" for k' e' a'
  proof -
    have "(k', e', a') \<in> set d" using that by (simp add: dict_get_def map_of_SomeD)
    then show ?thesis using e(2,3) unfolding d by auto
  qed
  moreover have "evict d = dict_pop ?k d" by (simp add: evict_def d)
  ultimately show ?thesis by blast
qed

text \<open>C32: The shared cache never holds more than 512 names. Storing an answer makes it available
  for 60 seconds; below the limit no other name is touched, at the limit exactly one entry is
  given up for it, and it is one that would have expired first.\<close>

theorem dns_cache_bounded:
  assumes "runs (dns_step env) dns_new s"
  shows "let d = shared_cache s; s' = cache_put now h as s; d' = shared_cache s'
    in length d \<le> 512 \<and> length d' \<le> 512 \<and> (now' \<le> now + 60 \<longrightarrow> fst (cache_get now' h s') = Some as) \<and>
       (if length d < 512 then \<forall>k. k \<noteq> h \<longrightarrow> dict_get d' k = dict_get d k
        else \<exists>v e a. dict_get d v = Some (e, a) \<and> (\<forall>k e' a'. dict_get d k = Some (e', a') \<longrightarrow> e \<le> e') \<and>
          (\<forall>k. k \<noteq> h \<and> k \<noteq> v \<longrightarrow> dict_get d' k = dict_get d k))"
proof -
  let ?d = "shared_cache s"
  have ok: "cache_ok s" using dns_machine.inv_reachable [OF refl assms] by (simp add: dns_inv_def)
  then have len: "length ?d \<le> 512" "dict_ok ?d" by (simp_all add: cache_ok_def CACHE_MAX_def)
  have len': "length (shared_cache (cache_put now h as s)) \<le> 512"
  proof -
    have "length (if CACHE_MAX \<le> length ?d then evict ?d else ?d) < 512"
      using len(1) length_evict [of ?d] by (cases "?d = []") (auto simp: CACHE_MAX_def)
    then show ?thesis
      using length_set [of h "(now + CACHE_TTL_S, as)" "if CACHE_MAX \<le> length ?d then evict ?d else ?d"]
      by (simp add: cache_put_def Let_def)
  qed
  have get: "now' \<le> now + 60 \<longrightarrow> fst (cache_get now' h (cache_put now h as s)) = Some as"
    by (simp add: cache_get_def cache_put_def Let_def py_dict.get_put CACHE_TTL_S_def)
  show ?thesis
  proof (cases "length ?d < 512")
    case True
    then show ?thesis using len len' get by (simp add: Let_def cache_put_def CACHE_MAX_def py_dict.get_put)
  next
    case False
    then have "?d \<noteq> []" by auto
    then obtain v e a where v: "evict ?d = dict_pop v ?d" "dict_get ?d v = Some (e, a)"
      "\<forall>k e' a'. dict_get ?d k = Some (e', a') \<longrightarrow> e \<le> e'"
      using evict_least [OF len(2)] by blast
    have "\<forall>k. k \<noteq> h \<and> k \<noteq> v \<longrightarrow> dict_get (shared_cache (cache_put now h as s)) k = dict_get ?d k"
      using False v(1) by (simp add: cache_put_def CACHE_MAX_def Let_def py_dict.get_put py_dict.get_pop)
    then show ?thesis using len len' get False v(2,3) by (simp add: Let_def) blast
  qed
qed

theorem dns_cache_bounded_witness:
  "let s' = cache_put 0 (str_of ''c'') [] dns_told
   in length (shared_cache s') \<le> 512 \<and> fst (cache_get 60 (str_of ''c'') s') = Some [] \<and>
      dict_get (shared_cache s') (str_of ''a.b'') = Some (65, [[93, 184, 216, 34]])"
proof -
  have "length (shared_cache dns_told) < 512" "str_of ''a.b'' \<noteq> str_of ''c''"
    "dict_get (shared_cache dns_told) (str_of ''a.b'') = Some (65, [[93, 184, 216, 34]])"
    by (simp_all add: dns_told_eq dict_get_def str_of_def)
  then show ?thesis
    using dns_cache_bounded [OF dns_told_run, of 0 "str_of ''c''" "[]" 60] by (auto simp: Let_def)
qed

section \<open>Queries\<close>

definition question_fits :: "pystr \<times> int \<times> int \<Rightarrow> bool" where
  "question_fits = (\<lambda>(_, t, c). 0 \<le> t \<and> t < 65536 \<and> 0 \<le> c \<and> c < 65536)"

lemma question_fits_tuple [simp]:
  "question_fits (n, t, c) \<longleftrightarrow> 0 \<le> t \<and> t < 65536 \<and> 0 \<le> c \<and> c < 65536"
  by (simp add: question_fits_def)

lemma parse_questions_len:
  "parse_questions n p off = Some (Inr (qs, o')) \<Longrightarrow> length qs = n \<and>
    list_all question_fits qs"
proof (induction n arbitrary: off qs)
  case (Suc n)
  then show ?case
    by (auto simp: bindo_def split: option.splits sum.splits if_splits prod.splits)
qed simp

lemma dns_parse_ranges:
  assumes "dns_parse p = Some (Inr m)"
  shows "0 \<le> txid m \<and> txid m < 65536 \<and> 0 \<le> dns_flags m \<and> dns_flags m < 65536 \<and> length (qd m) < 65536 \<and>
    list_all question_fits (qd m)"
proof -
  obtain qs o' where q: "parse_questions (nat (u16_at 4 p)) p 12 = Some (Inr (qs, o'))"
    "txid m = u16_at 0 p" "dns_flags m = u16_at 2 p" "qd m = qs"
    using assms by (auto simp: dns_parse_def bindo_def split: option.splits sum.splits if_splits prod.splits)
  have "length qs < 65536"
    using parse_questions_len [OF q(1)] u16_at_bounds [of 4 p] by (simp add: nat_less_iff)
  then show ?thesis using parse_questions_len [OF q(1)] q(2-4) by simp
qed

lemma response_flags:
  assumes "0 \<le> f" "rcode \<in> {0, 3}"
  shows "0 \<le> DNS_FLAG_QR OR DNS_FLAG_RA OR (f AND DNS_FLAG_RD) OR rcode"
    "DNS_FLAG_QR OR DNS_FLAG_RA OR (f AND DNS_FLAG_RD) OR rcode < 65536"
proof -
  have f: "0 \<le> f AND DNS_FLAG_RD" "f AND DNS_FLAG_RD < 2 ^ 16"
    by (simp_all add: DNS_FLAG_RD_def AND_upper2' le_less_trans [OF AND_upper2'])
  then have "DNS_FLAG_RA OR (f AND DNS_FLAG_RD) OR rcode < 2 ^ 16"
    using assms by (intro OR_upper) (auto simp: DNS_FLAG_RA_def)
  then have "DNS_FLAG_QR OR DNS_FLAG_RA OR (f AND DNS_FLAG_RD) OR rcode < 2 ^ 16"
    using f assms by (intro OR_upper) (auto simp: dns_consts)
  then show "DNS_FLAG_QR OR DNS_FLAG_RA OR (f AND DNS_FLAG_RD) OR rcode < 65536" by simp
  show "0 \<le> DNS_FLAG_QR OR DNS_FLAG_RA OR (f AND DNS_FLAG_RD) OR rcode"
    using f assms by (auto simp: dns_consts)
qed

text \<open>A reply from the gateway's port 53 whose payload parses to the message.\<close>

definition is_reply :: "bytes \<Rightarrow> udp \<Rightarrow> dns \<Rightarrow> dns_reply res \<Rightarrow> bool" where
  "is_reply src u m rep \<longleftrightarrow> (\<exists>p. dns_parse p = Some (Inr m) \<and>
     rep = Inr (Some (src, [10, 13, 37, 1],
       udp_default\<lparr>udp_src_port := 53, udp_dst_port := udp_src_port u, udp_payload := p\<rparr>)))"

lemma wrap_reply:
  assumes req: "dns_parse p = Some (Inr req)" and names: "\<forall>(n, t, c) \<in> set (qd req). wf_name n"
    and rcode: "rcode \<in> {0, 3}" and n: "wf_name n"
    and ips: "list_all (\<lambda>a. length a = 4) ips" "length ips < 65536"
  shows "is_reply src u (response req rcode (map (a_record n) ips)) (wrap src u (response req rcode (map (a_record n) ips)))"
proof -
  let ?m = "response req rcode (map (a_record n) ips)"
  note r = dns_parse_ranges [OF req]
  have "list_all wf_question (qd req)"
    using r names by (auto simp: list_all_iff wf_question_def)
  moreover have "list_all wf_answer (map (a_record n) ips)"
    using n ips by (auto simp: list_all_iff wf_answer_def a_record_def dns_consts)
  ultimately have "wf_dns ?m"
    using r response_flags [OF _ rcode, of "dns_flags req"] ips(2) by (simp add: wf_dns_def response_def)
  then obtain bs where "dns_to_bytes ?m = Inr bs" "dns_parse bs = Some (Inr ?m)"
    using dns.enc_ok dns_parse_enc by blast
  then show ?thesis by (auto simp: is_reply_def wrap_def ip_constants)
qed

lemma filter_resolved_sub: "set (filter_resolved_ips env ips) \<subseteq> set ips"
  by (auto simp: filter_resolved_ips_def)

text \<open>The reply to an A query once the host resolver's answer is known.\<close>

definition answers_with :: "egress_env \<Rightarrow> bytes \<Rightarrow> udp \<Rightarrow> dns \<Rightarrow> pystr \<Rightarrow> bytes list \<Rightarrow> dns_reply res \<Rightarrow> bool" where
  "answers_with env src u req n as rep \<longleftrightarrow>
     (let ok = filter_resolved_ips env as
      in is_reply src u (if ok = [] then response req 3 [] else response req 0 (map (a_record n) ok)) rep)"

lemma answer_query_reply:
  assumes req: "dns_parse p = Some (Inr req)" and names: "\<forall>(n, t, c) \<in> set (qd req). wf_name n"
    and n: "wf_name n" and as: "list_all (\<lambda>a. length a = 4) as" "length as < 65536"
  shows "answers_with env src u req n as
    (fst (answer_query src u req n (Some (filter_resolved_ips env as)) s))"
proof -
  let ?ok = "filter_resolved_ips env as"
  have "length ?ok \<le> length as" by (simp add: filter_resolved_ips_def)
  then have "length ?ok < 65536" using as(2) by simp
  moreover have "list_all (\<lambda>a. length a = 4) ?ok"
    using as(1) filter_resolved_sub [of env as] by (auto simp: list_all_iff)
  ultimately show ?thesis
    using wrap_reply [OF req names _ n, of 0 ?ok src u] wrap_reply [OF req names _ n, of 3 "[]" src u]
    by (cases ?ok) (simp_all add: answers_with_def answer_query_def DNS_FLAG_RCODE_NXDOMAIN_def)
qed

lemma answered_short:
  assumes "cache_ok s" "answered (dns_log s) h as"
  shows "list_all (\<lambda>a. length a = 4) as" "distinct as"
  using assms by (auto simp: cache_ok_def log_ok_def answered_def)

text \<open>C30: A query whose names are well formed is always parsed and never raises before its name is
  resolved. A question that is not for an A record in class IN gets an empty answer; the
  host alias is answered with its own address; any other name is either answered at once,
  from an answer the host resolver has given for it, or waits for the running lookup of that
  name. Replies repeat the transaction id and the questions, and an A reply carries exactly
  the addresses the egress policy lets through, or NXDOMAIN when none is left.\<close>

theorem dns_query_answered:
  assumes "runs (dns_step env) dns_new s" "dns_parse (udp_payload u) = Some (Inr req)"
    "qd req = (n, t, c) # qs" "\<forall>(n, t, c) \<in> set (qd req). wf_name n"
    "\<forall>h ti as. Dns_lookup h ti as \<in> set (dns_log s) \<longrightarrow> length as < 65536"
  shows "\<exists>x s'. dns_handle env now r k src u s = Some (x, s') \<and>
    (if c \<noteq> 1 \<or> t \<noteq> 1 then s' = s \<and> (\<exists>rep. x = Inl rep \<and> is_reply src u (response req 0 []) rep)
     else if is_host_alias n
     then \<exists>rep. x = Inl rep \<and> is_reply src u (response req 0 [a_record n [192, 0, 2, 1]]) rep
     else case x of
         Inl rep \<Rightarrow> \<exists>as. answered (dns_log s) n as \<and> answers_with env src u req n as rep
       | Inr tid \<Rightarrow> running s' n tid \<and> asked s' k = Some (r, tid, src, u, req))"
proof -
  have inv: "dns_inv s" using dns_machine.inv_reachable [OF refl assms(1)] .
  have n: "wf_name n" using assms(3,4) by simp
  note reply = wrap_reply [OF assms(2,4) _ n]
  have empty: "is_reply src u (response req 0 []) (wrap src u (response req 0 []))"
    using reply [of 0 "[]"] by simp
  have local_name: "is_reply src u (response req 0 [a_record n [192, 0, 2, 1]])
      (wrap src u (response req 0 [a_record n [192, 0, 2, 1]]))"
    using reply [of 0 "[[192, 0, 2, 1]]"] by simp
  obtain y s1 where y: "resolve_start env now r n s = (y, s1)" by (cases "resolve_start env now r n s")
  note st = resolve_start_inv [OF inv y]
  note h = dns_handle_def assms(2,3)
  show ?thesis
  proof (cases "c \<noteq> 1 \<or> t \<noteq> 1 \<or> is_host_alias n")
    case True
    then show ?thesis using empty local_name by (auto simp: h dns_consts)
  next
    case False
    then have ct: "c = 1" "t = 1" "\<not> is_host_alias n" by simp_all
    show ?thesis
    proof (cases y)
      case (Inl as)
      then obtain raw where raw: "as = filter_resolved_ips env raw" "answered (dns_log s) n raw" using st by auto
      have "length raw < 65536" using raw(2) assms(5) by (auto simp: answered_def)
      moreover have "list_all (\<lambda>a. length a = 4) raw"
        using answered_short [OF _ raw(2)] inv by (simp add: dns_inv_def)
      ultimately have "answers_with env src u req n raw (fst (answer_query src u req n (Some as) s1))"
        unfolding raw(1) using answer_query_reply [OF assms(2,4) n] by blast
      then show ?thesis
        using raw(2) ct y Inl by (auto simp: h dns_consts Let_def split: prod.split)
    next
      case (Inr tid)
      then show ?thesis using st ct y by (auto simp: h dns_consts running_def)
    qed
  qed
qed

theorem dns_query_answered_witness:
  "\<exists>s'. dns_handle public_env 0 0 0 [10, 13, 37, 42] sample_query_udp dns_new = Some (Inr 0, s') \<and>
     running s' (str_of ''a.b'') 0"
proof -
  have "\<forall>h ti as. Dns_lookup h ti as \<in> set (dns_log dns_new) \<longrightarrow> length as < 65536" by (simp add: dns_new_def)
  from dns_query_answered [OF runs_refl [of "dns_step public_env"] sample_query_parse sample_query_fields(1,3) this,
      where now = 0 and r = 0 and k = 0 and src = "[10, 13, 37, 42]"]
  show ?thesis unfolding dns_asking_handle using sample_query_fields(2) by auto
qed

lemma dns_call_resumed:
  assumes "runs (dns_step env) dns_new s" "asked s k = Some (r, tid, src, u, req)"
    "dns_parse p = Some (Inr req)" "\<forall>(n, t, c) \<in> set (qd req). wf_name n"
    "task_result s tid = Some result" "\<forall>as. result = Inr as \<longrightarrow> length as < 65536"
  shows "let n = fst (hd (qd req));
             (rep, s') = dns_resume env k (r, tid, src, u, req) False s;
             (rep', s'') = dns_resume env k (r, tid, src, u, req) True s
    in (case result of
          Inr as \<Rightarrow> answered (dns_log s) n as \<and> answers_with env src u req n as rep \<and>
            dict_get (own_cache s' r) n = Some as
        | Inl e \<Rightarrow> if e = OSError then answers_with env src u req n [] rep else rep = Inl e) \<and>
       asked s' k = None \<and> rep' = Inr None \<and> task_result s'' tid = Some result"
proof -
  have inv: "dns_inv s" using dns_machine.inv_reachable [OF refl assms(1)] .
  have call: "qd req \<noteq> []" "task_host s tid = Some (fst (hd (qd req)))"
    using calls_ok [OF inv assms(2)] by (simp_all add: call_ok_def)
  let ?n = "fst (hd (qd req))"
  have n: "wf_name ?n" using assms(4) call(1) by (cases "qd req") auto
  show ?thesis
  proof (cases result)
    case (Inl e)
    then show ?thesis
      using answer_query_reply [OF assms(3,4) n, of "[]" env src u "s\<lparr>asked := (asked s)(k := None)\<rparr>"] assms(5)
      by (auto simp: dns_resume_def resolve_end_def Let_def answer_query_def filter_resolved_ips_def
          split: prod.splits if_splits)
  next
    case (Inr as)
    have a: "answered (dns_log s) ?n as"
      using tasks_result [of s tid as] inv assms(5) Inr call(2) by (auto simp: dns_inv_def)
    then have "list_all (\<lambda>a. length a = 4) as" using answered_short [OF _ a] inv by (simp add: dns_inv_def)
    then have r: "answers_with env src u req ?n as
        (fst (answer_query src u req ?n (Some (filter_resolved_ips env as)) s'))" for s'
      using answer_query_reply [OF assms(3,4) n] assms(6) Inr by blast
    have own: "own_cache (snd (answer_query src u req ?n x s')) = own_cache s'"
      "asked (snd (answer_query src u req ?n x s')) = asked s'" for x s'
      by (auto simp: answer_query_def split: option.split list.split)
    let ?s = "s\<lparr>asked := (asked s)(k := None)\<rparr>"
    let ?s' = "?s\<lparr>own_cache := (own_cache s)(r := dict_set ?n as (own_cache s r))\<rparr>"
    have "dns_resume env k (r, tid, src, u, req) False s =
        answer_query src u req ?n (Some (filter_resolved_ips env as)) ?s'"
      "dns_resume env k (r, tid, src, u, req) True s = (Inr None, ?s)"
      using assms(5) Inr
      by (simp_all add: dns_resume_def resolve_end_def answer_query_def Let_def)
    then show ?thesis
      using a r [of ?s'] own [of _ ?s'] assms(5) Inr by (simp add: Let_def split_beta py_dict.get_put)
  qed
qed

end
