(* ===== verification/Http.thy ===== *)
theory Http
  imports Py_Str
begin

text \<open>
  The HTTP framing helpers of \<^verbatim>\<open>velxiogw/net/tcp_inbound.py\<close>, which decide when a response is
  complete. A buffer is read as the list of its byte values.
\<close>

definition vals :: "bytes \<Rightarrow> nat list" where
  "vals = map unat"

definition http_headers_complete :: "bytes \<Rightarrow> bool" where
  "http_headers_complete buf \<longleftrightarrow>
     find_sub [13, 10, 13, 10] (vals buf) \<noteq> None \<or> find_sub [10, 10] (vals buf) \<noteq> None"

definition CONTENT_LENGTH :: "nat list" where
  "CONTENT_LENGTH = str_of ''content-length:''"

text \<open>The end of the header block and the length of its separator.\<close>

definition header_end :: "nat list \<Rightarrow> (nat \<times> nat) option" where
  "header_end buf =
     (case find_sub [13, 10, 13, 10] buf of
        Some i \<Rightarrow> Some (i, 4)
      | None \<Rightarrow> map_option (\<lambda>i. (i, 2)) (find_sub [10, 10] buf))"

text \<open>
  The declared length: \<^verbatim>\<open>None\<close> where the code returns \<^verbatim>\<open>False\<close>, because there is no such header or
  its value is not an integer. What follows the first colon of the line is taken; the
  line starts with the header name, so there is one and \<^verbatim>\<open>IndexError\<close> cannot occur.
\<close>

definition content_length :: "nat list \<Rightarrow> int option" where
  "content_length header_blob =
     (case find_sub CONTENT_LENGTH header_blob of
        None \<Rightarrow> None
      | Some idx \<Rightarrow>
          let line = hd (split_on 10 (drop idx header_blob));
              value = strip is_ascii_space (drop 1 (dropWhile (\<lambda>c. c \<noteq> 58) line))
          in case py_int value of Inl _ \<Rightarrow> None | Inr n \<Rightarrow> Some n)"

definition http_response_complete :: "bytes \<Rightarrow> bool" where
  "http_response_complete buf =
     (case header_end (vals buf) of
        None \<Rightarrow> False
      | Some (sep, sep_len) \<Rightarrow>
          (case content_length (lower (take sep (vals buf))) of
             None \<Rightarrow> False
           | Some n \<Rightarrow> n \<le> int (length buf) - int (sep + sep_len)))"

section \<open>When a response is complete\<close>

text \<open>The first occurrence of a substring is found.\<close>

lemma find_sub_prefix: "take (length sub) xs = sub \<Longrightarrow> find_sub sub xs = Some 0"
  by (cases xs) auto

lemma find_sub_None_prefix:
  assumes "find_sub sub (xs @ butlast sub) = None" "sub \<noteq> []"
  shows "find_sub sub (xs @ sub @ ys) = Some (length xs)"
  using assms
proof (induction xs)
  case Nil
  then show ?case by (simp add: find_sub_prefix)
next
  case (Cons x xs)
  have ne: "take (length sub) (x # xs @ butlast sub) \<noteq> sub" and
    tl: "find_sub sub (xs @ butlast sub) = None"
    using Cons.prems by (auto split: if_splits)
  have "length sub \<le> length (x # xs @ butlast sub)" using Cons.prems(2) by (cases sub) simp_all
  moreover have "x # xs @ sub @ ys = (x # xs @ butlast sub) @ [last sub] @ ys"
    using Cons.prems(2) by (metis append.assoc append_Cons append_butlast_last_id)
  ultimately have "take (length sub) (x # xs @ sub @ ys) = take (length sub) (x # xs @ butlast sub)"
    by (metis append.assoc append_eq_append_conv2 take_append diff_is_0_eq take0 append_Nil2)
  then show ?case using ne Cons.IH [OF tl Cons.prems(2)] by simp
qed

lemma find_sub_None_shorter: "find_sub sub (xs @ ys) = None \<Longrightarrow> find_sub sub xs = None"
proof (induction xs)
  case Nil
  then show ?case by (cases ys) (auto split: if_splits)
next
  case (Cons x xs)
  have "take (length sub) (x # xs) \<noteq> sub"
  proof
    assume t: "take (length sub) (x # xs) = sub"
    then have "length sub \<le> length (x # xs)" by (metis length_take min.cobounded1)
    then have "take (length sub) ((x # xs) @ ys) = sub" using t by (simp only: take_append) simp
    then show False using Cons.prems by simp
  qed
  then show ?case using Cons by (auto split: if_splits)
qed

lemma strip_pad:
  assumes "\<forall>x\<in>set pre. p x" "\<forall>x\<in>set xs. \<not> p x" "xs \<noteq> []" "\<forall>x\<in>set suf. p x"
  shows "strip p (pre @ xs @ suf) = xs"
proof -
  obtain y ys where xs: "xs = y # ys" using assms(3) by (cases xs) auto
  have "dropWhile p (pre @ xs @ suf) = xs @ suf"
    using assms(1,2) by (subst dropWhile_append2) (auto simp: xs)
  moreover have "dropWhile p (rev suf @ rev xs) = rev xs"
    using assms(2,4) by (subst dropWhile_append2) (auto intro: dropWhile_free)
  ultimately show ?thesis by (simp add: strip_def rstrip_def)
qed

lemma content_length_chars: "CONTENT_LENGTH = str_of ''content-length'' @ [58]"
  "58 \<notin> set (str_of ''content-length'')" "10 \<notin> set (str_of ''content-length'')"
  by (simp_all add: CONTENT_LENGTH_def) code_simp+

lemma split_on_line:
  "c \<notin> set xs \<Longrightarrow> rest = [] \<or> (\<exists>r. rest = c # r) \<Longrightarrow> hd (split_on c (xs @ rest)) = xs"
  by (auto simp: split_on_free split_on_append)

text \<open>The header line that declares the length, as it stands in the lowered header block.\<close>

definition declares_length :: "nat list \<Rightarrow> nat \<Rightarrow> bool" where
  "declares_length header n \<longleftrightarrow> (\<exists>pre sp cr rest.
     header = pre @ CONTENT_LENGTH @ sp @ decimal n @ cr @ rest \<and>
     find_sub CONTENT_LENGTH (pre @ butlast CONTENT_LENGTH) = None \<and>
     set sp \<subseteq> {32} \<and> (cr = [] \<or> cr = [13]) \<and> (rest = [] \<or> (\<exists>r. rest = 10 # r)))"

lemma content_length_declared:
  assumes "declares_length header n" "n < 10 ^ 18"
  shows "content_length header = Some (int n)"
proof -
  obtain pre sp cr rest where h: "header = pre @ CONTENT_LENGTH @ sp @ decimal n @ cr @ rest"
    and first: "find_sub CONTENT_LENGTH (pre @ butlast CONTENT_LENGTH) = None"
    and sp: "set sp \<subseteq> {32}" and cr: "cr = [] \<or> cr = [13]" and rest: "rest = [] \<or> (\<exists>r. rest = 10 # r)"
    using assms(1) unfolding declares_length_def by blast
  have digits: "\<forall>c\<in>set (decimal n). \<not> is_ascii_space c" "10 \<notin> set (decimal n)"
    using decimal_digits [of _ n] by (force simp: is_digit_def is_ascii_space_def)+
  have "CONTENT_LENGTH \<noteq> []" by (simp add: content_length_chars(1))
  then have idx: "find_sub CONTENT_LENGTH header = Some (length pre)"
    using find_sub_None_prefix [OF first] h by simp
  have nl: "10 \<notin> set (CONTENT_LENGTH @ sp @ decimal n @ cr)"
    using content_length_chars(3) digits(2) sp cr by (auto simp: content_length_chars(1))
  have line: "hd (split_on 10 (drop (length pre) header)) = CONTENT_LENGTH @ sp @ decimal n @ cr"
    using split_on_line [OF nl rest] h by simp
  have colon: "drop 1 (dropWhile (\<lambda>c. c \<noteq> 58) (CONTENT_LENGTH @ sp @ decimal n @ cr)) = sp @ decimal n @ cr"
    using content_length_chars(2) by (subst content_length_chars(1), subst append_assoc, subst dropWhile_append2) auto
  have "strip is_ascii_space (sp @ decimal n @ cr) = decimal n"
    using digits(1) sp cr by (intro strip_pad) (auto simp: is_ascii_space_def)
  then show ?thesis
    using py_int_decimal [of n 18] assms(2) by (simp add: content_length_def idx line colon [simplified] Let_def)
qed


text \<open>\<^verbatim>\<open>OK\<close> and, on the next line, \<^verbatim>\<open>Content-Length: 2\<close>.\<close>

definition sample_head :: bytes where
  "sample_head = map of_nat (str_of ''OK'' @ [13, 10] @ str_of ''Content-Length: 2'')"


end
