(* ===== verification/Tcp_Inbound.thy ===== *)
theory Tcp_Inbound
  imports Tcp_Conn Http Py_Dict
begin

text \<open>
  The host's one-shot HTTP client into the chip, \<^verbatim>\<open>velxiogw/net/tcp_inbound.py\<close> (class
  \<^verbatim>\<open>TcpInbound\<close>). \<^verbatim>\<open>request\<close> is cut at its two waits: for the handshake, bounded by 4 s, and for
  data, bounded by the poll interval. An \<^verbatim>\<open>asyncio.Event\<close> is a boolean. Random ports, the
  random sequence number, the clock and the chip's MAC are arguments; injecting a frame
  belongs to the step that does it.
\<close>

section \<open>State\<close>

datatype in_state = In_SYN_SENT | In_ESTABLISHED | In_CLOSED

record in_conn =
  in_chip_port :: int
  in_our_port :: int
  in_state :: in_state
  in_our_isn :: int
  in_our_seq :: int
  in_chip_seq :: int
  rx :: bytes
  established :: bool
  finished :: bool
  data_event :: bool
  reset :: bool

text \<open>Where a \<^verbatim>\<open>request\<close> is suspended: with its arguments, or with its deadline.\<close>

datatype in_wait = Wait_established bytes real | Wait_data real

datatype in_action =
    In_inject bytes
  | In_return nat "bytes option"
  | In_raise nat exn

text \<open>
  Connection objects live in a store, because the table and the suspended request share
  them; a request has the number of its object. \<open>in_timers\<close> holds the objects whose \<^verbatim>\<open>finally\<close>
  clause has scheduled the removal of their port.
\<close>

record tcp_inbound =
  in_objs :: "nat \<Rightarrow> in_conn"
  in_next :: nat
  in_conns :: "(int, nat) dict"
  in_waits :: "nat \<Rightarrow> in_wait option"
  in_timers :: "nat set"
  in_trace :: "in_action list"

definition in_emit :: "in_action \<Rightarrow> tcp_inbound \<Rightarrow> tcp_inbound" where
  "in_emit a s = s\<lparr>in_trace := in_trace s @ [a]\<rparr>"

definition in_upd :: "nat \<Rightarrow> (in_conn \<Rightarrow> in_conn) \<Rightarrow> tcp_inbound \<Rightarrow> tcp_inbound" where
  "in_upd i f s = s\<lparr>in_objs := (in_objs s)(i := f (in_objs s i))\<rparr>"

definition in_wait_at :: "nat \<Rightarrow> in_wait option \<Rightarrow> tcp_inbound \<Rightarrow> tcp_inbound" where
  "in_wait_at i w s = s\<lparr>in_waits := (in_waits s)(i := w)\<rparr>"

section \<open>Frame emission\<close>

text \<open>The module constants \<^verbatim>\<open>_GW_IP\<close> and \<^verbatim>\<open>_STA_IP\<close>.\<close>

definition GW_ADDR :: bytes where "GW_ADDR = ip_const GATEWAY_IP"

definition STA_ADDR :: bytes where "STA_ADDR = ip_const STA_IP"

lemma in_addr [simp]: "GW_ADDR = [10, 13, 37, 1]" "STA_ADDR = [10, 13, 37, 42]"
  by (simp_all add: GW_ADDR_def STA_ADDR_def)

definition in_segment :: "in_conn \<Rightarrow> int \<Rightarrow> int option \<Rightarrow> bytes \<Rightarrow> bytes \<Rightarrow> tcp" where
  "in_segment c flags seq opts payload = tcp_default
     \<lparr>src_port := in_our_port c, dst_port := in_chip_port c,
      seq_no := (case seq of None \<Rightarrow> in_our_seq c | Some q \<Rightarrow> q) AND 4294967295,
      ack_no := in_chip_seq c, tcp_flags := flags, window := TCP_WINDOW,
      tcp_options := opts, tcp_payload := payload\<rparr>"

definition in_send ::
  "bytes \<Rightarrow> nat \<Rightarrow> int \<Rightarrow> int option \<Rightarrow> bytes \<Rightarrow> bytes \<Rightarrow> tcp_inbound \<Rightarrow> tcp_inbound run" where
  "in_send mac i flags seq opts payload s =
     (case segment_frame mac GW_ADDR STA_ADDR (in_segment (in_objs s i) flags seq opts payload) of
        Inl e \<Rightarrow> (Some e, s) | Inr f \<Rightarrow> (None, in_emit (In_inject f) s))"

definition in_ack :: "bytes \<Rightarrow> nat \<Rightarrow> tcp_inbound \<Rightarrow> tcp_inbound run" where
  "in_ack mac i s = in_send mac i TCP_ACK None [] [] s"

section \<open>Ports\<close>

text \<open>\<open>draws\<close> are the 64 results of \<^verbatim>\<open>random.randint\<close>; the scan goes through every port.\<close>

definition scanned_ports :: "int list" where
  "scanned_ports = [49152..65535]"

definition alloc_port :: "int list \<Rightarrow> (int, nat) dict \<Rightarrow> int res" where
  "alloc_port draws d =
     (case find (\<lambda>p. dict_get d p = None) draws of
        Some p \<Rightarrow> Inr p
      | None \<Rightarrow>
          (case find (\<lambda>p. dict_get d p = None) scanned_ports of
             Some p \<Rightarrow> Inr p
           | None \<Rightarrow> Inl RuntimeError))"

definition matches :: "ipv4 \<Rightarrow> tcp \<Rightarrow> tcp_inbound \<Rightarrow> bool" where
  "matches ip t s =
     (case dict_get (in_conns s) (dst_port t) of
        None \<Rightarrow> False
      | Some i \<Rightarrow> src_port t = in_chip_port (in_objs s i) \<and> ip_src ip = STA_ADDR \<and> ip_dst ip = GW_ADDR)"

section \<open>Segments from the chip's server\<close>

definition in_fin :: "bytes \<Rightarrow> nat \<Rightarrow> tcp \<Rightarrow> tcp_inbound \<Rightarrow> tcp_inbound run" where
  "in_fin mac i t s =
     (if has_flag (tcp_flags t) TCP_FIN
      then let s1 = in_upd i (\<lambda>c. c\<lparr>in_chip_seq := seq_add (in_chip_seq c) 1\<rparr>) s
           in andthen (in_ack mac i s1) (\<lambda>s2.
                andthen (in_send mac i (TCP_FIN OR TCP_ACK) None [] [] s2) (\<lambda>s3.
                  (None, in_upd i (\<lambda>c. c\<lparr>in_our_seq := seq_add (in_our_seq c) 1,
                                         in_state := In_CLOSED, finished := True\<rparr>) s3)))
      else (None, s))"

definition in_handshake :: "bytes \<Rightarrow> nat \<Rightarrow> tcp \<Rightarrow> tcp_inbound \<Rightarrow> tcp_inbound run" where
  "in_handshake mac i t s =
     (if has_flag (tcp_flags t) TCP_SYN \<and> has_flag (tcp_flags t) TCP_ACK
      then andthen
             (in_ack mac i
               (in_upd i (\<lambda>c. c\<lparr>in_chip_seq := seq_add (seq_no t) 1, in_state := In_ESTABLISHED\<rparr>) s))
             (\<lambda>s'. (None, in_upd i (established_update (\<lambda>_. True)) s'))
      else (None, s))"

definition in_data :: "bytes \<Rightarrow> nat \<Rightarrow> tcp \<Rightarrow> tcp_inbound \<Rightarrow> tcp_inbound run" where
  "in_data mac i t s =
     (if tcp_payload t \<noteq> [] then
        if seq_no t = in_chip_seq (in_objs s i)
        then andthen
               (in_ack mac i
                 (in_upd i (\<lambda>c. c\<lparr>rx := rx c @ tcp_payload t,
                    in_chip_seq := seq_add (in_chip_seq c) (int (length (tcp_payload t)))\<rparr>) s))
               (\<lambda>s'. in_fin mac i t (in_upd i (data_event_update (\<lambda>_. True)) s'))
        else in_ack mac i s
      else in_fin mac i t s)"

definition in_reset :: "nat \<Rightarrow> tcp_inbound \<Rightarrow> tcp_inbound" where
  "in_reset i s = in_upd i (\<lambda>c. c\<lparr>reset := True, in_state := In_CLOSED, established := True,
     finished := True\<rparr>) s"

definition in_handle_segment :: "bytes \<Rightarrow> tcp \<Rightarrow> tcp_inbound \<Rightarrow> tcp_inbound run" where
  "in_handle_segment mac t s =
     (case dict_get (in_conns s) (dst_port t) of
        None \<Rightarrow> (None, s)
      | Some i \<Rightarrow>
          if has_flag (tcp_flags t) TCP_RST then (None, in_reset i s)
          else if in_state (in_objs s i) = In_SYN_SENT then in_handshake mac i t s
          else if in_state (in_objs s i) \<noteq> In_ESTABLISHED
          then if tcp_payload t \<noteq> [] \<or> has_flag (tcp_flags t) (TCP_FIN OR TCP_SYN)
               then in_ack mac i s else (None, s)
          else in_data mac i t s)"

section \<open>The one-shot request\<close>

text \<open>The \<^verbatim>\<open>finally\<close> clause, and the two ways a request ends.\<close>

definition in_finally :: "nat \<Rightarrow> tcp_inbound \<Rightarrow> tcp_inbound" where
  "in_finally i s =
     (let s1 = in_upd i (in_state_update (\<lambda>_. In_CLOSED)) (in_wait_at i None s)
      in s1\<lparr>in_timers := insert i (in_timers s1)\<rparr>)"

definition in_result :: "nat \<Rightarrow> bytes option \<Rightarrow> tcp_inbound \<Rightarrow> tcp_inbound" where
  "in_result i r s = in_emit (In_return i r) (in_finally i s)"

definition in_failed :: "nat \<Rightarrow> exn \<Rightarrow> tcp_inbound \<Rightarrow> tcp_inbound" where
  "in_failed i e s = in_emit (In_raise i e) (in_finally i s)"

definition rx_result :: "nat \<Rightarrow> tcp_inbound \<Rightarrow> tcp_inbound" where
  "rx_result i s =
     in_result i (if rx (in_objs s i) \<noteq> [] then Some (rx (in_objs s i)) else None) s"

text \<open>\<^verbatim>\<open>request\<close> up to its wait for the handshake.\<close>

definition new_in_conn :: "int \<Rightarrow> int \<Rightarrow> in_conn" where
  "new_in_conn port isn =
     \<lparr>in_chip_port = 80, in_our_port = port, in_state = In_SYN_SENT, in_our_isn = isn,
      in_our_seq = seq_add isn 1, in_chip_seq = 0, rx = [], established = False,
      finished = False, data_event = False, reset = False\<rparr>"

definition request_start ::
  "bytes \<Rightarrow> int list \<Rightarrow> int \<Rightarrow> bytes \<Rightarrow> real \<Rightarrow> tcp_inbound \<Rightarrow> tcp_inbound" where
  "request_start mac draws isn raw timeout s =
     (let i = in_next s; s0 = s\<lparr>in_next := i + 1\<rparr>
      in case alloc_port draws (in_conns s0) of
           Inl e \<Rightarrow> in_emit (In_raise i e) s0
         | Inr port \<Rightarrow>
             let s1 = s0\<lparr>in_objs := (in_objs s0)(i := new_in_conn port isn),
                         in_conns := dict_set port i (in_conns s0)\<rparr>
             in case mss_option TCP_MSS of
                  Inl e \<Rightarrow> in_failed i e s1
                | Inr opts \<Rightarrow>
                    (case in_send mac i TCP_SYN (Some isn) opts [] s1 of
                       (Some e, s2) \<Rightarrow> in_failed i e s2
                     | (None, s2) \<Rightarrow> in_wait_at i (Some (Wait_established raw timeout)) s2))"

text \<open>The loop from its condition to its next wait; \<open>now\<close> is the clock.\<close>

definition read_loop :: "real \<Rightarrow> nat \<Rightarrow> real \<Rightarrow> tcp_inbound \<Rightarrow> tcp_inbound" where
  "read_loop now i deadline s =
     (let c = in_objs s i
      in if finished c \<or> http_response_complete (rx c) \<or> deadline - now \<le> 0 then rx_result i s
         else in_wait_at i (Some (Wait_data deadline)) (in_upd i (data_event_update (\<lambda>_. False)) s))"

text \<open>The wait for the handshake returned, because the event was set or because of the timeout.\<close>

definition request_connected ::
  "bytes \<Rightarrow> real \<Rightarrow> nat \<Rightarrow> bytes \<Rightarrow> real \<Rightarrow> tcp_inbound \<Rightarrow> tcp_inbound" where
  "request_connected mac now i raw timeout s =
     (if reset (in_objs s i) \<or> in_state (in_objs s i) \<noteq> In_ESTABLISHED then in_result i None s
      else case in_send mac i (TCP_PSH OR TCP_ACK) None [] raw s of
             (Some e, s1) \<Rightarrow> in_failed i e s1
           | (None, s1) \<Rightarrow>
               read_loop now i (now + timeout)
                 (in_upd i (\<lambda>c. c\<lparr>in_our_seq := seq_add (in_our_seq c) (int (length raw))\<rparr>) s1))"

definition request_timeout :: "nat \<Rightarrow> tcp_inbound \<Rightarrow> tcp_inbound" where
  "request_timeout i s = in_result i None s"

text \<open>The wait for data ran out.\<close>

definition request_poll :: "real \<Rightarrow> nat \<Rightarrow> real \<Rightarrow> tcp_inbound \<Rightarrow> tcp_inbound" where
  "request_poll now i deadline s =
     (if rx (in_objs s i) \<noteq> [] \<and> http_headers_complete (rx (in_objs s i)) then rx_result i s
      else read_loop now i deadline s)"

text \<open>The timer of the \<^verbatim>\<open>finally\<close> clause.\<close>

definition port_expired :: "nat \<Rightarrow> tcp_inbound \<Rightarrow> tcp_inbound" where
  "port_expired i s =
     s\<lparr>in_timers := in_timers s - {i}, in_conns := dict_pop (in_our_port (in_objs s i)) (in_conns s)\<rparr>"

text \<open>\<^verbatim>\<open>shutdown\<close> marks every object of the table.\<close>

definition in_marked :: "in_conn \<Rightarrow> in_conn" where
  "in_marked c = c\<lparr>reset := True, finished := True, established := True\<rparr>"

definition in_shutdown :: "tcp_inbound \<Rightarrow> tcp_inbound" where
  "in_shutdown s = (fold (\<lambda>i. in_upd i in_marked) (map snd (in_conns s)) s)\<lparr>in_conns := []\<rparr>"

end
