(* ===== verification/Inbound_Machine.thy ===== *)
theory Inbound_Machine
  imports Tcp_Inbound
begin

text \<open>
  The inbound client as a machine: its events, its step relation, and the invariant of its
  reachable states. Every operation touches one connection object, so the invariant is
  stated per object.
\<close>

section \<open>Events and steps\<close>

datatype in_event =
    In_packet bytes ipv4 tcp
  | In_request bytes "int list" int bytes real
  | In_connected nat bytes real
  | In_timeout nat
  | In_ready nat real
  | In_poll nat real
  | In_expire nat
  | In_shutdown

text \<open>
  The bridge hands over a parsed segment when \<open>matches\<close> holds. A wait returns when its event
  is set, or at any time by its timeout, since the clock is not modelled.
\<close>

inductive in_step :: "tcp_inbound \<Rightarrow> in_event \<Rightarrow> tcp_inbound \<Rightarrow> bool" where
  in_step_packet:
    "length mac = 6 \<Longrightarrow> parsed_tcp t \<Longrightarrow> matches ip t s \<Longrightarrow>
     in_step s (In_packet mac ip t) (snd (in_handle_segment mac t s))"
| in_step_request:
    "length mac = 6 \<Longrightarrow> length draws = 64 \<Longrightarrow> set draws \<subseteq> {49152..65535} \<Longrightarrow>
     0 \<le> isn \<Longrightarrow> isn < 4294967296 \<Longrightarrow>
     in_step s (In_request mac draws isn raw timeout) (request_start mac draws isn raw timeout s)"
| in_step_connected:
    "length mac = 6 \<Longrightarrow> in_waits s i = Some (Wait_established raw timeout) \<Longrightarrow>
     established (in_objs s i) \<Longrightarrow>
     in_step s (In_connected i mac now) (request_connected mac now i raw timeout s)"
| in_step_timeout:
    "in_waits s i = Some (Wait_established raw timeout) \<Longrightarrow>
     in_step s (In_timeout i) (request_timeout i s)"
| in_step_ready:
    "in_waits s i = Some (Wait_data deadline) \<Longrightarrow> data_event (in_objs s i) \<Longrightarrow>
     in_step s (In_ready i now) (read_loop now i deadline s)"
| in_step_poll:
    "in_waits s i = Some (Wait_data deadline) \<Longrightarrow>
     in_step s (In_poll i now) (request_poll now i deadline s)"
| in_step_expire: "i \<in> in_timers s \<Longrightarrow> in_step s (In_expire i) (port_expired i s)"
| in_step_shutdown: "in_step s In_shutdown (in_shutdown s)"

inductive_cases in_stepE: "in_step s e t"

definition in_new :: tcp_inbound where
  "in_new = \<lparr>in_objs = (\<lambda>_. new_in_conn 0 0), in_next = 0, in_conns = [], in_waits = (\<lambda>_. None),
     in_timers = {}, in_trace = []\<rparr>"

section \<open>Frames\<close>

definition wf_in :: "in_conn \<Rightarrow> bool" where
  "wf_in c \<longleftrightarrow> in_chip_port c = 80 \<and> 49152 \<le> in_our_port c \<and> in_our_port c \<le> 65535 \<and>
     0 \<le> in_our_seq c \<and> in_our_seq c < 4294967296 \<and> 0 \<le> in_chip_seq c \<and> in_chip_seq c < 4294967296"

text \<open>What the chip reads from a frame the client sends.\<close>

definition in_sent :: "in_conn \<Rightarrow> int \<Rightarrow> int option \<Rightarrow> bytes \<Rightarrow> bytes \<Rightarrow> tcp" where
  "in_sent c flags seq opts payload = tcp_norm GW_ADDR STA_ADDR (in_segment c flags seq opts payload)"

definition reads_as :: "bytes \<Rightarrow> bytes \<Rightarrow> tcp \<Rightarrow> bool" where
  "reads_as f mac t \<longleftrightarrow> tcp_frame_view f = Inr (mac, GATEWAY_MAC, GW_ADDR, STA_ADDR, t)"

lemma in_sent_simps [simp]:
  "src_port (in_sent c fl sq opts payload) = in_our_port c"
  "dst_port (in_sent c fl sq opts payload) = in_chip_port c"
  "seq_no (in_sent c fl sq opts payload) =
     (case sq of None \<Rightarrow> in_our_seq c | Some q \<Rightarrow> q) mod 4294967296"
  "ack_no (in_sent c fl sq opts payload) = in_chip_seq c mod 4294967296"
  "tcp_flags (in_sent c fl sq opts payload) = fl mod 512"
  "tcp_options (in_sent c fl sq opts payload) = pad4 opts"
  "tcp_payload (in_sent c fl sq opts payload) = payload"
  by (simp_all add: in_sent_def tcp_norm_def in_segment_def and_masks tcp_default_def)

lemma in_send_ok:
  assumes "wf_in (in_objs s i)" "length mac = 6" "length opts \<le> 40"
    "length (pad4 opts) + length payload \<le> 65495"
  shows "\<exists>f. in_send mac i fl sq opts payload s = (None, in_emit (In_inject f) s) \<and>
    reads_as f mac (in_sent (in_objs s i) fl sq opts payload)"
proof -
  let ?t = "in_segment (in_objs s i) fl sq opts payload"
  have "wf_tcp ?t"
    using assms pad4_length(3) [of opts]
    by (auto simp: wf_in_def wf_tcp_def in_segment_def tcp_default_def TCP_WINDOW_def)
  moreover have "tcp_options ?t = opts" "tcp_payload ?t = payload"
    by (simp_all add: in_segment_def)
  ultimately obtain f where "segment_frame mac GW_ADDR STA_ADDR ?t = Inr f"
    "tcp_frame_view f = Inr (mac, GATEWAY_MAC, GW_ADDR, STA_ADDR, in_sent (in_objs s i) fl sq opts payload)"
    unfolding in_sent_def
    using segment_frame_view [of mac GW_ADDR STA_ADDR ?t] assms by auto
  then show ?thesis by (intro exI [of _ f]) (simp add: in_send_def reads_as_def)
qed

lemma in_ack_ok:
  assumes "wf_in (in_objs s i)" "length mac = 6"
  shows "\<exists>f. in_ack mac i s = (None, in_emit (In_inject f) s) \<and>
    reads_as f mac (in_sent (in_objs s i) TCP_ACK None [] [])"
  unfolding in_ack_def using assms by (intro in_send_ok) (simp_all add: pad4_def)

text \<open>Whatever is sent, only frames are appended to the trace.\<close>

lemma in_send_cases:
  "in_send mac i fl sq opts payload s \<in> {(Some e, s) | e. True} \<union> {(None, in_emit (In_inject f) s) | f. True}"
  by (auto simp: in_send_def split: sum.split)

section \<open>Changes to one connection\<close>

text \<open>The outcomes a request has had: a returned value or an exception.\<close>

fun outcome :: "nat \<Rightarrow> in_action \<Rightarrow> bool" where
  "outcome i (In_inject f) \<longleftrightarrow> False"
| "outcome i (In_return j r) \<longleftrightarrow> j = i"
| "outcome i (In_raise j e) \<longleftrightarrow> j = i"

definition outcomes :: "nat \<Rightarrow> in_action list \<Rightarrow> nat" where
  "outcomes i tr = length (filter (outcome i) tr)"

lemma outcomes_simps [simp]:
  "outcomes i [] = 0" "outcomes i (tr @ tr') = outcomes i tr + outcomes i tr'"
  "outcomes i (In_inject f # tr) = outcomes i tr"
  "outcomes i (In_return j r # tr) = (if j = i then 1 else 0) + outcomes i tr"
  "outcomes i (In_raise j e # tr) = (if j = i then 1 else 0) + outcomes i tr"
  by (simp_all add: outcomes_def)

definition in_local :: "nat \<Rightarrow> tcp_inbound \<Rightarrow> tcp_inbound \<Rightarrow> bool" where
  "in_local i s s' \<longleftrightarrow> in_next s' = in_next s \<and> in_conns s' = in_conns s \<and> in_waits s' = in_waits s \<and>
     in_timers s' = in_timers s \<and> (\<forall>j. outcomes j (in_trace s') = outcomes j (in_trace s)) \<and>
     (\<forall>j. j \<noteq> i \<longrightarrow> in_objs s' j = in_objs s j) \<and>
     in_our_port (in_objs s' i) = in_our_port (in_objs s i) \<and>
     (wf_in (in_objs s i) \<longrightarrow> wf_in (in_objs s' i))"

lemma in_local_refl: "in_local i s s"
  by (simp add: in_local_def)

lemma in_local_trans: "in_local i s t \<Longrightarrow> in_local i t u \<Longrightarrow> in_local i s u"
  by (simp add: in_local_def)

lemma in_local_upd:
  "(\<And>c. in_our_port (f c) = in_our_port c) \<Longrightarrow> (\<And>c. wf_in c \<Longrightarrow> wf_in (f c)) \<Longrightarrow> in_local i s (in_upd i f s)"
  by (simp add: in_local_def in_upd_def)

lemma in_local_send: "in_local i s (snd (in_send mac i fl sq opts payload s))"
  by (auto simp: in_send_def in_local_def in_emit_def split: sum.split)

lemma in_local_andthen:
  "in_local i s (snd m) \<Longrightarrow> (\<And>s'. in_local i s' (snd (f s'))) \<Longrightarrow> in_local i s (snd (andthen m f))"
  by (cases m) (auto simp: andthen_def split: option.split intro: in_local_trans)

lemma wf_in_updates [simp]:
  "wf_in c \<Longrightarrow> wf_in (c\<lparr>in_chip_seq := seq_add a b\<rparr>)"
  "wf_in c \<Longrightarrow> wf_in (c\<lparr>in_our_seq := seq_add a b\<rparr>)"
  "wf_in (c\<lparr>in_state := st\<rparr>) = wf_in c" "wf_in (c\<lparr>established := bl\<rparr>) = wf_in c"
  "wf_in (c\<lparr>finished := bl\<rparr>) = wf_in c" "wf_in (c\<lparr>data_event := bl\<rparr>) = wf_in c"
  "wf_in (c\<lparr>reset := bl\<rparr>) = wf_in c" "wf_in (c\<lparr>rx := bs\<rparr>) = wf_in c"
  by (simp_all add: wf_in_def order_less_imp_le)

lemma in_local_then:
  "in_local i (in_upd i f s) t \<Longrightarrow> (\<And>c. in_our_port (f c) = in_our_port c) \<Longrightarrow>
   (\<And>c. wf_in c \<Longrightarrow> wf_in (f c)) \<Longrightarrow> in_local i s t"
  using in_local_trans [OF in_local_upd] by blast

lemma in_local_ack: "in_local i s (snd (in_ack mac i s))"
  by (simp add: in_ack_def in_local_send)

lemma in_local_fin: "in_local i s (snd (in_fin mac i t s))"
  unfolding in_fin_def Let_def
  by (auto intro!: in_local_andthen in_local_send in_local_upd in_local_refl
      in_local_then [OF in_local_ack])

lemma in_local_data: "in_local i s (snd (in_data mac i t s))"
  unfolding in_data_def
  by (auto intro!: in_local_andthen in_local_ack in_local_fin in_local_then [OF in_local_fin]
      in_local_then [OF in_local_ack])

lemma in_local_handshake: "in_local i s (snd (in_handshake mac i t s))"
  unfolding in_handshake_def
  by (auto intro!: in_local_andthen in_local_refl in_local_upd in_local_then [OF in_local_ack])

lemma in_local_handle:
  "dict_get (in_conns s) (dst_port t) = Some i \<Longrightarrow> in_local i s (snd (in_handle_segment mac t s))"
  by (auto simp: in_handle_segment_def in_reset_def
      intro!: in_local_refl in_local_ack in_local_data in_local_handshake in_local_upd)

section \<open>The invariant\<close>

definition port_entry_ok :: "tcp_inbound \<Rightarrow> int \<Rightarrow> nat \<Rightarrow> bool" where
  "port_entry_ok s p i \<longleftrightarrow> i < in_next s \<and> in_our_port (in_objs s i) = p \<and> wf_in (in_objs s i) \<and>
     (in_waits s i \<noteq> None \<or> i \<in> in_timers s)"

definition wait_ok :: "tcp_inbound \<Rightarrow> nat \<Rightarrow> in_wait \<Rightarrow> bool" where
  "wait_ok s i w \<longleftrightarrow> i < in_next s \<and> i \<notin> in_timers s \<and> wf_in (in_objs s i)"

text \<open>
  Every table entry is filed under the port of its object and belongs to a request that
  waits or has its removal scheduled; every request has had exactly one outcome, unless it
  waits.
\<close>

definition in_inv :: "tcp_inbound \<Rightarrow> bool" where
  "in_inv s \<longleftrightarrow> dict_ok (in_conns s) \<and> dict_all (port_entry_ok s) (in_conns s) \<and>
     map_all (wait_ok s) (in_waits s) \<and> in_timers s \<subseteq> {..<in_next s} \<and>
     (\<forall>i. outcomes i (in_trace s) = (if i < in_next s \<and> in_waits s i = None then 1 else 0))"

lemma in_inv_new: "in_inv in_new"
  by (simp add: in_inv_def in_new_def py_dict.ok_empty)

lemma in_inv_entry: "in_inv s \<Longrightarrow> dict_get (in_conns s) p = Some i \<Longrightarrow> port_entry_ok s p i"
  by (auto simp: in_inv_def intro: dict_all_get)

lemma in_inv_wait: "in_inv s \<Longrightarrow> in_waits s i = Some w \<Longrightarrow> wait_ok s i w"
  by (auto simp: in_inv_def intro: map_all_get)

lemma in_local_inv:
  assumes inv: "in_inv s" and loc: "in_local i s s'"
  shows "in_inv s'"
proof -
  have "port_entry_ok s' p j" if "port_entry_ok s p j" for p j
    using that loc by (cases "j = i") (auto simp: port_entry_ok_def in_local_def)
  moreover have "wait_ok s' j w" if "wait_ok s j w" for j w
    using that loc by (cases "j = i") (auto simp: wait_ok_def in_local_def)
  ultimately show ?thesis
    using inv loc by (auto simp: in_inv_def in_local_def dict_all_def map_all_def)
qed

text \<open>A request ends: its \<^verbatim>\<open>finally\<close> clause and its outcome.\<close>

lemma in_inv_end:
  assumes inv: "in_inv s" and w: "in_waits s i = Some w" and a: "outcome i a" "\<And>j. j \<noteq> i \<Longrightarrow> \<not> outcome j a"
  shows "in_inv (in_emit a (in_finally i s))"
proof -
  let ?s = "in_emit a (in_finally i s)"
  have s: "in_next ?s = in_next s" "in_conns ?s = in_conns s" "in_waits ?s = (in_waits s)(i := None)"
    "in_timers ?s = insert i (in_timers s)" "in_trace ?s = in_trace s @ [a]"
    "in_objs ?s = (in_objs s)(i := (in_objs s i)\<lparr>in_state := In_CLOSED\<rparr>)"
    by (simp_all add: in_emit_def in_finally_def Let_def in_upd_def in_wait_at_def)
  have "port_entry_ok ?s p j" if "port_entry_ok s p j" for p j
    using that by (auto simp: port_entry_ok_def s)
  moreover have "wait_ok ?s j w'" if "wait_ok s j w'" "j \<noteq> i" for j w'
    using that by (auto simp: wait_ok_def s)
  moreover have "outcomes j [a] = (if j = i then 1 else 0)" for j
    using a by (auto simp: outcomes_def)
  ultimately show ?thesis
    using inv in_inv_wait [OF inv w] w
    by (auto simp: in_inv_def s dict_all_def map_all_def wait_ok_def)
qed

lemmas in_ends = in_result_def in_failed_def

lemma in_inv_result: "in_inv s \<Longrightarrow> in_waits s i = Some w \<Longrightarrow> in_inv (in_result i r s)"
  unfolding in_ends by (rule in_inv_end) auto

lemma in_inv_failed: "in_inv s \<Longrightarrow> in_waits s i = Some w \<Longrightarrow> in_inv (in_failed i e s)"
  unfolding in_ends by (rule in_inv_end) auto

lemma in_inv_rewait:
  assumes "in_inv s" "in_waits s i = Some w"
  shows "in_inv (in_wait_at i (Some w') s)"
proof -
  have "port_entry_ok (in_wait_at i (Some w') s) p j" if "port_entry_ok s p j" for p j
    using that by (auto simp: port_entry_ok_def in_wait_at_def)
  then show ?thesis
    using assms in_inv_wait [OF assms]
    by (auto simp: in_inv_def dict_all_def map_all_def in_wait_at_def wait_ok_def)
qed

lemma in_inv_upd:
  "in_inv s \<Longrightarrow> (\<And>c. in_our_port (f c) = in_our_port c) \<Longrightarrow> (\<And>c. wf_in c \<Longrightarrow> wf_in (f c)) \<Longrightarrow>
   in_inv (in_upd i f s)"
  using in_local_inv [OF _ in_local_upd] by blast

lemma in_upd_simps [simp]:
  "in_waits (in_upd i f s) = in_waits s" "in_conns (in_upd i f s) = in_conns s"
  "in_timers (in_upd i f s) = in_timers s" "in_next (in_upd i f s) = in_next s"
  "in_trace (in_upd i f s) = in_trace s" "in_objs (in_upd i f s) i = f (in_objs s i)"
  by (simp_all add: in_upd_def)

lemma in_inv_read_loop:
  "in_inv s \<Longrightarrow> in_waits s i = Some w \<Longrightarrow> in_inv (read_loop now i deadline s)"
  by (auto simp: read_loop_def Let_def rx_result_def intro: in_inv_result
      intro!: in_inv_rewait [where w = w] in_inv_upd)

lemma in_inv_poll:
  "in_inv s \<Longrightarrow> in_waits s i = Some w \<Longrightarrow> in_inv (request_poll now i deadline s)"
  by (auto simp: request_poll_def rx_result_def intro: in_inv_result in_inv_read_loop)

lemma in_inv_connected:
  assumes "in_inv s" "in_waits s i = Some w"
  shows "in_inv (request_connected mac now i raw timeout s)"
proof -
  obtain r s1 where sent: "in_send mac i (TCP_PSH OR TCP_ACK) None [] raw s = (r, s1)" by fastforce
  then have loc: "in_local i s s1" using in_local_send [of i s mac "TCP_PSH OR TCP_ACK" None "[]" raw] by simp
  then have "in_inv s1" "in_waits s1 i = Some w"
    using assms in_local_inv by (auto simp: in_local_def)
  then show ?thesis
    using assms sent unfolding request_connected_def
    by (auto split: option.split intro: in_inv_result in_inv_failed
        intro!: in_inv_read_loop [where w = w] in_inv_upd)
qed

lemma in_inv_expire:
  assumes "in_inv s"
  shows "in_inv (port_expired i s)"
proof -
  have "port_entry_ok (port_expired i s) p j"
    if "port_entry_ok s p j" "p \<noteq> in_our_port (in_objs s i)" for p j
    using that by (auto simp: port_entry_ok_def port_expired_def)
  then have "dict_all (port_entry_ok (port_expired i s)) (in_conns (port_expired i s))"
    using assms by (auto simp: port_expired_def in_inv_def dict_all_def py_dict.get_pop split: if_splits)
  then show ?thesis
    using assms by (auto simp: in_inv_def port_expired_def py_dict.ok_pop map_all_def wait_ok_def)
qed

lemma fold_marked:
  "fold (\<lambda>i. in_upd i in_marked) is s =
     s\<lparr>in_objs := \<lambda>i. if i \<in> set is then in_marked (in_objs s i) else in_objs s i\<rparr>"
proof (induction "is" arbitrary: s)
  case (Cons i "is")
  have "in_marked (in_marked c) = in_marked c" for c by (simp add: in_marked_def)
  then show ?case by (simp add: Cons.IH) (simp add: in_upd_def fun_eq_iff)
qed simp

lemma in_shutdown_eq:
  "in_shutdown s = s\<lparr>in_conns := [],
     in_objs := \<lambda>i. if i \<in> snd ` set (in_conns s) then in_marked (in_objs s i) else in_objs s i\<rparr>"
  using fold_marked [of "map snd (in_conns s)" s] by (simp add: in_shutdown_def)

lemma in_inv_shutdown: "in_inv s \<Longrightarrow> in_inv (in_shutdown s)"
  by (auto simp: in_shutdown_eq in_inv_def map_all_def wait_ok_def in_marked_def py_dict.ok_empty)

section \<open>Ports\<close>

lemma find_SomeD: "find P xs = Some x \<Longrightarrow> P x \<and> x \<in> set xs"
  by (auto simp: find_Some_iff)

lemma set_scanned_ports [simp]: "set scanned_ports = {49152..65535}"
  unfolding scanned_ports_def set_upto ..

lemma alloc_port_Inr:
  "alloc_port draws d = Inr p \<Longrightarrow> set draws \<subseteq> {49152..65535} \<Longrightarrow>
   49152 \<le> p \<and> p \<le> 65535 \<and> dict_get d p = None"
  by (auto simp: alloc_port_def split: option.splits dest!: find_SomeD)

lemma alloc_port_Inl:
  "alloc_port draws d = Inl e \<Longrightarrow> e = RuntimeError \<and> {49152..65535} \<subseteq> set (dict_keys d)"
  by (auto simp: alloc_port_def py_dict.in_keys find_None_iff split: option.splits)

lemma alloc_port_full:
  "{49152..65535} \<subseteq> set (dict_keys d) \<Longrightarrow> set draws \<subseteq> {49152..65535} \<Longrightarrow>
   alloc_port draws d = Inl RuntimeError"
  using alloc_port_Inr [of draws d] alloc_port_Inl [of draws d]
  by (cases "alloc_port draws d") (fastforce simp: py_dict.in_keys)+

section \<open>Every step keeps the invariant\<close>

lemma in_mss_option: "mss_option TCP_MSS = Inr [2, 4, 5, 180]"
  by code_simp

text \<open>The object of a new request, before its SYN is sent.\<close>

definition in_opened :: "int \<Rightarrow> int \<Rightarrow> tcp_inbound \<Rightarrow> tcp_inbound" where
  "in_opened port isn s = s\<lparr>in_next := in_next s + 1,
     in_objs := (in_objs s)(in_next s := new_in_conn port isn),
     in_conns := dict_set port (in_next s) (in_conns s)\<rparr>"

lemma request_start_eq:
  assumes "alloc_port draws (in_conns s) = Inr port" "length mac = 6" "set draws \<subseteq> {49152..65535}"
  shows "\<exists>f. request_start mac draws isn raw timeout s =
      in_wait_at (in_next s) (Some (Wait_established raw timeout))
        (in_emit (In_inject f) (in_opened port isn s)) \<and>
    reads_as f mac (in_sent (new_in_conn port isn) TCP_SYN (Some isn) [2, 4, 5, 180] [])"
proof -
  have "wf_in (new_in_conn port isn)"
    using alloc_port_Inr [OF assms(1,3)] by (simp add: wf_in_def new_in_conn_def order_less_imp_le)
  then obtain f where "in_send mac (in_next s) TCP_SYN (Some isn) [2, 4, 5, 180] [] (in_opened port isn s) =
      (None, in_emit (In_inject f) (in_opened port isn s))"
    "reads_as f mac (in_sent (new_in_conn port isn) TCP_SYN (Some isn) [2, 4, 5, 180] [])"
    using in_send_ok [of "in_opened port isn s" "in_next s" mac "[2, 4, 5, 180]" "[]" TCP_SYN "Some isn"] assms(2)
    by (auto simp: in_opened_def pad4_def)
  then show ?thesis
    using assms(1) by (intro exI [of _ f]) (simp add: request_start_def in_mss_option in_opened_def Let_def)
qed

lemma in_inv_opened:
  assumes inv: "in_inv s" and port: "49152 \<le> port" "port \<le> 65535"
  shows "in_inv (in_wait_at (in_next s) (Some w) (in_emit (In_inject f) (in_opened port isn s)))"
    (is "in_inv ?s")
proof -
  let ?i = "in_next s"
  have wf: "wf_in (new_in_conn port isn)"
    using port by (simp add: wf_in_def new_in_conn_def order_less_imp_le)
  have fields: "in_next ?s = ?i + 1" "in_conns ?s = dict_set port ?i (in_conns s)"
    "in_waits ?s = (in_waits s)(?i := Some w)" "in_timers ?s = in_timers s"
    "in_trace ?s = in_trace s @ [In_inject f]" "in_objs ?s = (in_objs s)(?i := new_in_conn port isn)"
    by (simp_all add: in_wait_at_def in_emit_def in_opened_def)
  have "dict_all (port_entry_ok ?s) (in_conns ?s)"
    unfolding fields(2)
  proof (rule dict_all_set)
    show "port_entry_ok ?s port ?i"
      using wf by (simp add: port_entry_ok_def fields new_in_conn_def)
    fix p j assume "dict_get (in_conns s) p = Some j"
    then show "port_entry_ok ?s p j"
      using in_inv_entry [OF inv] by (force simp: port_entry_ok_def fields)
  qed
  moreover have "map_all (wait_ok ?s) (in_waits ?s)"
    using inv wf by (auto simp: map_all_def wait_ok_def fields in_inv_def less_Suc_eq)
  moreover have "outcomes ?i (in_trace s) = 0" using inv by (simp add: in_inv_def)
  ultimately show ?thesis
    using inv by (auto simp: in_inv_def fields py_dict.ok_put less_Suc_eq)
qed

lemma in_inv_start:
  assumes inv: "in_inv s" and "length mac = 6" "set draws \<subseteq> {49152..65535}"
  shows "in_inv (request_start mac draws isn raw timeout s)"
proof (cases "alloc_port draws (in_conns s)")
  case (Inl e)
  have "in_waits s (in_next s) = None" "outcomes (in_next s) (in_trace s) = 0"
    using inv in_inv_wait [OF inv, of "in_next s"]
    by (cases "in_waits s (in_next s)"; force simp: in_inv_def wait_ok_def)+
  then show ?thesis
    using inv Inl
    by (auto simp: request_start_def Let_def in_inv_def in_emit_def dict_all_def map_all_def
        port_entry_ok_def wait_ok_def less_Suc_eq split: if_splits)
next
  case (Inr port)
  then show ?thesis
    using request_start_eq [OF Inr assms(2,3), of isn raw timeout] alloc_port_Inr [OF Inr assms(3)]
      in_inv_opened [OF inv] by auto
qed

lemma in_inv_step: "in_inv s \<Longrightarrow> in_step s e t \<Longrightarrow> in_inv t"
  by (erule in_stepE)
    (auto simp: request_timeout_def matches_def split: option.splits
      intro: in_local_inv [OF _ in_local_handle] in_inv_start in_inv_connected in_inv_result
        in_inv_read_loop in_inv_poll in_inv_expire in_inv_shutdown)

interpretation inbound: machine "\<lambda>s. s = in_new" in_step in_inv
  by unfold_locales (auto simp: in_inv_new intro: in_inv_step)

section \<open>What a step adds to the trace\<close>

fun in_entry :: "in_action \<Rightarrow> bool" where
  "in_entry (In_inject f) \<longleftrightarrow> frame_ok f"
| "in_entry _ \<longleftrightarrow> True"

definition in_adds :: "tcp_inbound \<Rightarrow> tcp_inbound \<Rightarrow> bool" where
  "in_adds s t \<longleftrightarrow> extends in_entry (in_trace s) (in_trace t)"

lemma in_adds_simps [simp]:
  "in_adds s s" "in_adds s (in_upd i f t) = in_adds s t" "in_adds s (in_wait_at i w t) = in_adds s t"
  "in_adds (in_upd i f s) t = in_adds s t"
  by (simp_all add: in_adds_def in_upd_def in_wait_at_def)

lemma in_adds_trans: "in_adds s t \<Longrightarrow> in_adds t u \<Longrightarrow> in_adds s u"
  unfolding in_adds_def by (rule extends_trans)

lemma in_adds_send: "length mac = 6 \<Longrightarrow> in_adds s (snd (in_send mac i fl sq opts payload s))"
  by (auto simp: in_adds_def in_send_def in_emit_def split: sum.split intro: segment_frame_ok)

lemma in_adds_ack: "length mac = 6 \<Longrightarrow> in_adds s (snd (in_ack mac i s))"
  by (simp add: in_ack_def in_adds_send)

lemma in_adds_then: "in_adds s (snd m) \<Longrightarrow> (\<And>s'. in_adds s' (snd (f s'))) \<Longrightarrow> in_adds s (snd (andthen m f))"
  by (cases m) (auto simp: andthen_def split: option.split intro: in_adds_trans)

lemma in_adds_finally: "in_adds s (in_finally i s)"
  by (simp add: in_adds_def in_finally_def Let_def in_upd_def in_wait_at_def)

lemma in_adds_end:
  "in_adds s (in_result i r s)" "in_adds s (in_failed i e s)" "in_adds s (rx_result i s)"
  by (simp_all add: in_result_def in_failed_def rx_result_def in_emit_def in_adds_def in_finally_def
      Let_def in_upd_def in_wait_at_def)

lemma in_adds_ack_upd:
  "length mac = 6 \<Longrightarrow> in_adds s (snd (in_ack mac i (in_upd i f s)))"
  using in_adds_ack [of mac "in_upd i f s" i] by simp

lemma in_adds_fin: "length mac = 6 \<Longrightarrow> in_adds s (snd (in_fin mac i t s))"
  unfolding in_fin_def Let_def by (auto intro!: in_adds_then in_adds_send in_adds_ack_upd)

lemma in_adds_data: "length mac = 6 \<Longrightarrow> in_adds s (snd (in_data mac i t s))"
proof -
  assume mac: "length mac = 6"
  have "in_adds u (snd (in_fin mac i t (in_upd i f u)))" for u f
    using in_adds_fin [OF mac, of "in_upd i f u"] by simp
  then show ?thesis
    unfolding in_data_def by (auto intro!: in_adds_then in_adds_ack in_adds_ack_upd in_adds_fin mac)
qed

lemma in_adds_handle: "length mac = 6 \<Longrightarrow> in_adds s (snd (in_handle_segment mac t s))"
  by (auto simp: in_handle_segment_def in_reset_def in_handshake_def in_adds_ack in_adds_data
      split: option.split intro!: in_adds_then in_adds_ack_upd)

lemma in_adds_read_loop: "in_adds s (read_loop now i deadline s)"
  by (simp add: read_loop_def Let_def in_adds_end)

lemma in_adds_poll: "in_adds s (request_poll now i deadline s)"
  by (simp add: request_poll_def in_adds_end in_adds_read_loop)

lemma in_adds_connected:
  assumes "length mac = 6"
  shows "in_adds s (request_connected mac now i raw timeout s)"
proof -
  have "in_adds s u \<Longrightarrow> in_adds s (in_failed i e u)" "in_adds s u \<Longrightarrow> in_adds s (read_loop now i d (in_upd i f u))"
    for e d f u
    using in_adds_trans [OF _ in_adds_end(2)] in_adds_trans [OF _ in_adds_read_loop [of "in_upd i f u"]]
    by simp_all
  then show ?thesis
    using in_adds_send [OF assms, of s i "TCP_PSH OR TCP_ACK" None "[]" raw]
    by (auto simp: request_connected_def in_adds_end split: prod.split option.split)
qed

lemma in_adds_request:
  assumes "length mac = 6"
  shows "in_adds s (request_start mac draws isn raw timeout s)"
proof -
  have e: "in_adds s u \<Longrightarrow> in_adds s (in_failed i e u)" for i e u
    using in_adds_trans in_adds_end(2) by blast
  have sent: "in_adds s v"
    if "in_send mac i fl sq opts payload u = (x, v)" "in_trace u = in_trace s" for i fl sq opts payload u x v
    using in_adds_send [OF assms, of u i fl sq opts payload] that by (simp add: in_adds_def)
  have "in_adds s u" if "in_trace u = in_trace s" for u using that by (simp add: in_adds_def)
  then show ?thesis
    unfolding request_start_def Let_def
    by (auto split: sum.split prod.split option.split intro!: e dest: sent) (auto simp: in_adds_def in_emit_def)
qed

lemma in_trace_shutdown: "in_trace (in_shutdown s) = in_trace s"
proof -
  have "in_trace (fold (\<lambda>i. in_upd i in_marked) is u) = in_trace u" for "is" u
    by (induction "is" arbitrary: u) (simp_all add: in_upd_def)
  then show ?thesis by (simp add: in_shutdown_def)
qed

lemma in_step_adds: "in_step s e t \<Longrightarrow> in_adds s t"
  by (induction rule: in_step.induct)
    (simp_all add: in_adds_handle in_adds_request in_adds_connected in_adds_read_loop in_adds_poll
      request_timeout_def in_adds_end port_expired_def, simp_all add: in_adds_def in_trace_shutdown)

interpretation in_log: logging_machine "\<lambda>s. s = in_new" in_step in_inv in_trace "list_all in_entry"
  by unfold_locales (simp_all, use in_step_adds in \<open>simp add: in_adds_def extends_def\<close>)

end
