(* ===== verification/Inbound_Properties.thy ===== *)
theory Inbound_Properties
  imports Inbound_Machine
begin

text \<open>
  Properties of the inbound client: what each segment of the chip does to a connection, in
  every reachable state; that a request has exactly one outcome and returns a part of the
  chip's response that starts at its beginning; when its loop ends; and the choice of ports.
\<close>

section \<open>The connection as an automaton\<close>

text \<open>
  The specification of the handler: the next connection object and the segments sent, with no
  frames, checksums or exceptions.
\<close>

definition acks :: "in_conn \<Rightarrow> tcp" where
  "acks c = in_sent c TCP_ACK None [] []"

definition fin_acks :: "in_conn \<Rightarrow> tcp" where
  "fin_acks c = in_sent c (TCP_FIN OR TCP_ACK) None [] []"

lemma acks_flags [simp]: "acks (c\<lparr>established := b\<rparr>) = acks c" "acks (c\<lparr>data_event := b\<rparr>) = acks c"
  by (simp_all add: acks_def in_sent_def in_segment_def)

definition take_data :: "in_conn \<Rightarrow> bytes \<Rightarrow> in_conn" where
  "take_data c bs = c\<lparr>rx := rx c @ bs, in_chip_seq := seq_add (in_chip_seq c) (int (length bs))\<rparr>"

definition take_fin :: "in_conn \<Rightarrow> in_conn" where
  "take_fin c = c\<lparr>in_chip_seq := seq_add (in_chip_seq c) 1\<rparr>"

definition end_conn :: "in_conn \<Rightarrow> in_conn" where
  "end_conn c = c\<lparr>in_our_seq := seq_add (in_our_seq c) 1, in_state := In_CLOSED, finished := True\<rparr>"

definition after_fin :: "tcp \<Rightarrow> in_conn \<Rightarrow> in_conn \<times> tcp list" where
  "after_fin t c =
     (if has_flag (tcp_flags t) TCP_FIN
      then (end_conn (take_fin c), [acks (take_fin c), fin_acks (take_fin c)]) else (c, []))"

definition reaction :: "tcp \<Rightarrow> in_conn \<Rightarrow> in_conn \<times> tcp list" where
  "reaction t c =
     (if has_flag (tcp_flags t) TCP_RST
      then (c\<lparr>reset := True, in_state := In_CLOSED, established := True, finished := True\<rparr>, [])
      else case in_state c of
        In_SYN_SENT \<Rightarrow>
          if has_flag (tcp_flags t) TCP_SYN \<and> has_flag (tcp_flags t) TCP_ACK
          then let c1 = c\<lparr>in_chip_seq := seq_add (seq_no t) 1, in_state := In_ESTABLISHED\<rparr>
               in (c1\<lparr>established := True\<rparr>, [acks c1])
          else (c, [])
      | In_CLOSED \<Rightarrow>
          (c, if tcp_payload t \<noteq> [] \<or> has_flag (tcp_flags t) (TCP_FIN OR TCP_SYN) then [acks c] else [])
      | In_ESTABLISHED \<Rightarrow>
          if tcp_payload t = [] then after_fin t c
          else if seq_no t \<noteq> in_chip_seq c then (c, [acks c])
          else let c1 = take_data c (tcp_payload t); (c2, ts) = after_fin t (c1\<lparr>data_event := True\<rparr>)
               in (c2, acks c1 # ts))"

text \<open>The frames a step sends, as the chip reads them; nothing else is appended.\<close>

definition sends :: "bytes \<Rightarrow> tcp list \<Rightarrow> tcp_inbound \<Rightarrow> tcp_inbound \<Rightarrow> bool" where
  "sends mac ts s s' \<longleftrightarrow> (\<exists>fs. in_trace s' = in_trace s @ map In_inject fs \<and>
     list_all2 (\<lambda>f t. reads_as f mac t) fs ts)"

definition reacts :: "bytes \<Rightarrow> nat \<Rightarrow> in_conn \<times> tcp list \<Rightarrow> tcp_inbound \<Rightarrow> tcp_inbound run \<Rightarrow> bool" where
  "reacts mac i = (\<lambda>(c, ts) s r. fst r = None \<and> sends mac ts s (snd r) \<and>
     in_objs (snd r) = (in_objs s)(i := c) \<and>
     snd r = s\<lparr>in_objs := in_objs (snd r), in_trace := in_trace (snd r)\<rparr>)"

lemma sends_nil: "sends mac [] s s"
  by (simp add: sends_def)

lemma reactsI [intro]: "reacts mac i (in_objs s i, []) s (None, s)"
  by (simp add: reacts_def sends_nil)

lemma reacts_ack:
  assumes "wf_in (in_objs s i)" "length mac = 6"
  shows "reacts mac i (in_objs s i, [acks (in_objs s i)]) s (in_ack mac i s)"
  using in_ack_ok [OF assms] unfolding reacts_def sends_def acks_def
  by (auto simp: in_emit_def intro!: exI [of _ "[_]"])

text \<open>Composition: an update before, a reaction, and an update after.\<close>

lemma reacts_upd:
  "reacts mac i p (in_upd i f s) r \<Longrightarrow> reacts mac i p s r"
  by (cases p) (auto simp: reacts_def sends_def in_upd_def)

lemma reacts_then:
  assumes "reacts mac i (c, ts) s m" "\<And>s'. in_objs s' i = c \<Longrightarrow> reacts mac i (c', ts') s' (f s')"
  shows "reacts mac i (c', ts @ ts') s (andthen m f)"
proof -
  obtain s' where m: "m = (None, s')" using assms(1) by (cases m) (auto simp: reacts_def)
  then have "in_objs s' i = c" using assms(1) by (simp add: reacts_def)
  then show ?thesis
    using assms(1) assms(2) [of s'] m
    by (auto simp: reacts_def sends_def intro!: list_all2_appendI exI [of _ "_ @ _"])
qed

lemma reacts_post: "reacts mac i (f (in_objs s i), []) s (None, in_upd i f s)"
  by (simp add: reacts_def sends_def in_upd_def)

lemma reacts_send_fin:
  assumes "wf_in (in_objs s i)" "length mac = 6"
  shows "reacts mac i (in_objs s i, [fin_acks (in_objs s i)]) s
    (in_send mac i (TCP_FIN OR TCP_ACK) None [] [] s)"
  using in_send_ok [OF assms, of "[]" "[]" "TCP_FIN OR TCP_ACK" None]
  unfolding reacts_def sends_def fin_acks_def
  by (auto simp: in_emit_def pad4_def intro!: exI [of _ "[_]"])

lemma in_fin_reacts:
  assumes wf: "wf_in (in_objs s i)" and mac: "length mac = 6"
  shows "reacts mac i (after_fin t (in_objs s i)) s (in_fin mac i t s)"
proof (cases "has_flag (tcp_flags t) TCP_FIN")
  case False
  then show ?thesis by (simp add: after_fin_def in_fin_def reactsI)
next
  case True
  define c where "c = take_fin (in_objs s i)"
  have wfc: "wf_in c" using wf by (simp add: c_def take_fin_def)
  let ?s = "in_upd i take_fin s"
  have "reacts mac i (c, [acks c]) ?s (in_ack mac i ?s)"
    using reacts_ack [of ?s i mac] wfc mac by (simp add: c_def)
  moreover have "reacts mac i (end_conn c, [fin_acks c]) s'
      (andthen (in_send mac i (TCP_FIN OR TCP_ACK) None [] [] s') (\<lambda>s3. (None, in_upd i end_conn s3)))"
    if "in_objs s' i = c" for s'
  proof -
    have "reacts mac i (c, [fin_acks c]) s' (in_send mac i (TCP_FIN OR TCP_ACK) None [] [] s')"
      using reacts_send_fin [of s' i mac] that wfc mac by simp
    moreover have "reacts mac i (end_conn c, []) s3 (None, in_upd i end_conn s3)" if "in_objs s3 i = c" for s3
      using reacts_post [of mac i end_conn s3] that by simp
    ultimately show ?thesis by (rule reacts_then [where ts' = "[]", simplified append_Nil2])
  qed
  ultimately have "reacts mac i (end_conn c, [acks c] @ [fin_acks c]) ?s
      (andthen (in_ack mac i ?s) (\<lambda>s2. andthen (in_send mac i (TCP_FIN OR TCP_ACK) None [] [] s2)
        (\<lambda>s3. (None, in_upd i end_conn s3))))"
    by (rule reacts_then)
  then show ?thesis
    using True unfolding after_fin_def in_fin_def c_def take_fin_def [abs_def] end_conn_def [abs_def] Let_def
    by (simp only: if_True append.simps) (rule reacts_upd)
qed

lemma in_data_reacts:
  assumes wf: "wf_in (in_objs s i)" and mac: "length mac = 6" and st: "in_state (in_objs s i) = In_ESTABLISHED"
    and rst: "\<not> has_flag (tcp_flags t) TCP_RST"
  shows "reacts mac i (reaction t (in_objs s i)) s (in_data mac i t s)"
proof -
  let ?c = "in_objs s i"
  consider "tcp_payload t = []" | "tcp_payload t \<noteq> []" "seq_no t \<noteq> in_chip_seq ?c"
    | "tcp_payload t \<noteq> []" "seq_no t = in_chip_seq ?c" by blast
  then show ?thesis
  proof cases
    case 1
    then show ?thesis
      using in_fin_reacts [OF wf mac] st rst by (simp add: reaction_def in_data_def)
  next
    case 2
    then show ?thesis
      using reacts_ack [OF wf mac] st rst by (simp add: reaction_def in_data_def)
  next
    case 3
    define c where "c = take_data ?c (tcp_payload t)"
    have wfc: "wf_in c" using wf by (simp add: c_def take_data_def)
    let ?s = "in_upd i (\<lambda>c. take_data c (tcp_payload t)) s"
    obtain c2 ts where c2: "after_fin t (c\<lparr>data_event := True\<rparr>) = (c2, ts)" by fastforce
    have "reacts mac i (c, [acks c]) ?s (in_ack mac i ?s)"
      using reacts_ack [of ?s i mac] wfc mac by (simp add: c_def)
    moreover have "reacts mac i (c2, ts) s' (in_fin mac i t (in_upd i (data_event_update (\<lambda>_. True)) s'))"
      if "in_objs s' i = c" for s'
      using in_fin_reacts [of "in_upd i (data_event_update (\<lambda>_. True)) s'" i mac t] that wfc mac c2
      by (intro reacts_upd [of mac i "(c2, ts)" "data_event_update (\<lambda>_. True)" s']) simp
    ultimately have "reacts mac i (c2, [acks c] @ ts) ?s
        (andthen (in_ack mac i ?s) (\<lambda>s'. in_fin mac i t (in_upd i (data_event_update (\<lambda>_. True)) s')))"
      by (rule reacts_then)
    moreover have "in_data mac i t s =
        andthen (in_ack mac i ?s) (\<lambda>s'. in_fin mac i t (in_upd i (data_event_update (\<lambda>_. True)) s'))"
      by (simp only: in_data_def take_data_def [abs_def] 3 if_True simp_thms not_False_eq_True)
    ultimately have "reacts mac i (c2, [acks c] @ ts) s (in_data mac i t s)"
      using reacts_upd by metis
    moreover have "reaction t ?c = (c2, [acks c] @ ts)"
      using 3 st rst c2 by (simp add: reaction_def c_def Let_def)
    ultimately show ?thesis by simp
  qed
qed

lemma in_handshake_reacts:
  assumes wf: "wf_in (in_objs s i)" and mac: "length mac = 6" and st: "in_state (in_objs s i) = In_SYN_SENT"
    and rst: "\<not> has_flag (tcp_flags t) TCP_RST"
  shows "reacts mac i (reaction t (in_objs s i)) s (in_handshake mac i t s)"
proof (cases "has_flag (tcp_flags t) TCP_SYN \<and> has_flag (tcp_flags t) TCP_ACK")
  case False
  then show ?thesis using st rst by (auto simp: reaction_def in_handshake_def)
next
  case True
  let ?f = "\<lambda>c. c\<lparr>in_chip_seq := seq_add (seq_no t) 1, in_state := In_ESTABLISHED\<rparr>"
  define c where "c = ?f (in_objs s i)"
  have "reacts mac i (c, [acks c]) (in_upd i ?f s) (in_ack mac i (in_upd i ?f s))"
    using reacts_ack [of "in_upd i ?f s" i mac] wf mac by (simp add: c_def)
  moreover have "reacts mac i (c\<lparr>established := True\<rparr>, []) s' (None, in_upd i (established_update (\<lambda>_. True)) s')"
    if "in_objs s' i = c" for s'
    using reacts_post [of mac i "established_update (\<lambda>_. True)" s'] that by simp
  ultimately have "reacts mac i (c\<lparr>established := True\<rparr>, [acks c] @ []) (in_upd i ?f s)
      (andthen (in_ack mac i (in_upd i ?f s)) (\<lambda>s'. (None, in_upd i (established_update (\<lambda>_. True)) s')))"
    by (rule reacts_then)
  then have "reacts mac i (c\<lparr>established := True\<rparr>, [acks c] @ []) s (in_handshake mac i t s)"
    using True unfolding in_handshake_def by (simp only: if_True simp_thms) (rule reacts_upd)
  moreover have "reaction t (in_objs s i) = (c\<lparr>established := True\<rparr>, [acks c] @ [])"
    using True st rst by (simp add: reaction_def c_def Let_def)
  ultimately show ?thesis by simp
qed

lemma segment_reacts:
  assumes inv: "in_inv s" and mac: "length mac = 6" and i: "dict_get (in_conns s) (dst_port t) = Some i"
  shows "reacts mac i (reaction t (in_objs s i)) s (in_handle_segment mac t s)"
proof -
  have wf: "wf_in (in_objs s i)" using in_inv_entry [OF inv i] by (simp add: port_entry_ok_def)
  show ?thesis
  proof (cases "has_flag (tcp_flags t) TCP_RST")
    case True
    then show ?thesis
      using i reacts_post [of mac i "\<lambda>c. c\<lparr>reset := True, in_state := In_CLOSED, established := True,
        finished := True\<rparr>" s]
      by (simp add: in_handle_segment_def in_reset_def reaction_def)
  next
    case False
    show ?thesis
    proof (cases "in_state (in_objs s i)")
      case In_SYN_SENT
      then show ?thesis
        using in_handshake_reacts [OF wf mac In_SYN_SENT False] False i by (simp add: in_handle_segment_def)
    next
      case In_ESTABLISHED
      then show ?thesis
        using in_data_reacts [OF wf mac In_ESTABLISHED False] False i by (simp add: in_handle_segment_def)
    next
      case In_CLOSED
      then show ?thesis
        using reacts_ack [OF wf mac] False i by (auto simp: in_handle_segment_def reaction_def)
    qed
  qed
qed

section \<open>The response in order\<close>

text \<open>
  The chip's side of a connection is a byte stream \<open>stream\<close> that starts after the SYN \<open>isn\<close>.
  The response read so far is a prefix of it, and the next sequence number accounts for it.
\<close>

definition rx_fits :: "bytes \<Rightarrow> int \<Rightarrow> in_conn \<Rightarrow> bool" where
  "rx_fits stream isn c \<longleftrightarrow> prefix (rx c) stream \<and>
     (in_state c = In_SYN_SENT \<longrightarrow> rx c = []) \<and>
     (in_state c = In_ESTABLISHED \<longrightarrow> in_chip_seq c = seq_add isn (1 + int (length (rx c))))"

definition honest_segment :: "bytes \<Rightarrow> int \<Rightarrow> tcp \<Rightarrow> bool" where
  "honest_segment stream isn t \<longleftrightarrow>
     (if has_flag (tcp_flags t) TCP_SYN then seq_no t = seq_add isn 0 else piece_of stream isn t)"

lemma seq_add_not_start: "j < 4294967295 \<Longrightarrow> seq_add isn 0 \<noteq> seq_add isn (1 + int j)"
proof
  assume b: "j < 4294967295" and s: "seq_add isn 0 = seq_add isn (1 + int j)"
  have "(4294967296::int) dvd 1 + int j"
    using s dvd_minus_iff [of "4294967296::int" "1 + int j"]
    unfolding seq_add_mod mod_eq_dvd_iff by (simp add: algebra_simps)
  then show False using b zdvd_imp_le [of 4294967296 "1 + int j"] by simp
qed

lemma reaction_fits:
  assumes fits: "rx_fits stream isn c" and seg: "honest_segment stream isn t"
    and len: "length stream < 4294967295"
  shows "rx_fits stream isn (fst (reaction t c))"
proof (cases "\<not> has_flag (tcp_flags t) TCP_RST \<and> in_state c = In_ESTABLISHED \<and>
    tcp_payload t \<noteq> [] \<and> seq_no t = in_chip_seq c")
  case False
  have syn: "has_flag (tcp_flags t) TCP_SYN \<Longrightarrow> seq_add (seq_no t) 1 = seq_add isn 1"
    using seg by (simp add: honest_segment_def seq_add_assoc)
  show ?thesis
  proof (cases "in_state c")
    case In_SYN_SENT
    then show ?thesis using fits syn by (simp add: reaction_def rx_fits_def Let_def)
  next
    case In_ESTABLISHED
    then show ?thesis
      using fits False by (auto simp: reaction_def rx_fits_def after_fin_def end_conn_def take_fin_def)
  next
    case In_CLOSED
    then show ?thesis using fits by (simp add: reaction_def rx_fits_def)
  qed
next
  case True
  have "length (rx c) \<le> length stream" using fits by (auto simp: rx_fits_def dest: prefix_length_le)
  then have "\<not> has_flag (tcp_flags t) TCP_SYN"
    using True fits seg seq_add_not_start [of "length (rx c)" isn] len
    by (auto simp: rx_fits_def honest_segment_def)
  then have "prefix (rx c @ tcp_payload t) stream"
    using True fits seg len by (intro piece_extends [where isn = isn]) (auto simp: rx_fits_def honest_segment_def)
  moreover have "fst (reaction t c) \<in> {c', end_conn (take_fin c')}"
    if "c' = (take_data c (tcp_payload t))\<lparr>data_event := True\<rparr>" for c'
    using True that by (simp add: reaction_def after_fin_def Let_def split: if_splits prod.splits)
  ultimately show ?thesis
    using True fits
    by (auto simp: rx_fits_def take_data_def end_conn_def take_fin_def seq_add_assoc add.assoc)
qed

text \<open>What the other steps do to the objects and to the outcomes.\<close>

definition quiet :: "tcp_inbound \<Rightarrow> tcp_inbound \<Rightarrow> bool" where
  "quiet s t \<longleftrightarrow>
     (\<forall>i. rx (in_objs t i) = rx (in_objs s i) \<and> in_chip_seq (in_objs t i) = in_chip_seq (in_objs s i) \<and>
        (in_state (in_objs t i) = in_state (in_objs s i) \<or> in_state (in_objs t i) = In_CLOSED)) \<and>
     (\<forall>i b. In_return i (Some b) \<in> set (in_trace t) \<longrightarrow>
        In_return i (Some b) \<in> set (in_trace s) \<or> b = rx (in_objs s i) \<and> b \<noteq> [])"

lemma quiet_trans: "quiet s t \<Longrightarrow> quiet t u \<Longrightarrow> quiet s u"
  unfolding quiet_def by metis

lemma quiet_upd:
  "(\<And>c. rx (f c) = rx c \<and> in_chip_seq (f c) = in_chip_seq c \<and> in_state (f c) = in_state c) \<Longrightarrow>
   quiet s (in_upd i f s)"
  by (simp add: quiet_def in_upd_def)

lemma quiet_send: "quiet s (snd (in_send mac i fl sq opts payload s))"
  by (auto simp: quiet_def in_send_def in_emit_def split: sum.split)

lemma quiet_wait: "quiet s (in_wait_at i w s)"
  by (simp add: quiet_def in_wait_at_def)

lemma quiet_finally: "quiet s (in_finally i s)"
  by (simp add: quiet_def in_finally_def Let_def in_upd_def in_wait_at_def)

lemma quiet_failed: "quiet s (in_failed i e s)"
  unfolding in_failed_def by (rule quiet_trans [OF quiet_finally [of s i]]) (simp add: quiet_def in_emit_def)

lemma quiet_none: "quiet s (in_result i None s)"
  unfolding in_result_def by (rule quiet_trans [OF quiet_finally [of s i]]) (simp add: quiet_def in_emit_def)

lemma quiet_rx_result: "quiet s (rx_result i s)"
  by (auto simp: quiet_def rx_result_def in_result_def in_emit_def in_finally_def Let_def in_upd_def
      in_wait_at_def)

lemma quiet_read_loop: "quiet s (read_loop now i deadline s)"
  unfolding read_loop_def Let_def
  by (auto intro: quiet_rx_result quiet_trans [OF quiet_upd quiet_wait])

lemma quiet_poll: "quiet s (request_poll now i deadline s)"
  by (simp add: request_poll_def quiet_rx_result quiet_read_loop)

lemma quiet_connected: "quiet s (request_connected mac now i raw timeout s)"
proof -
  obtain r s1 where sent: "in_send mac i (TCP_PSH OR TCP_ACK) None [] raw s = (r, s1)" by fastforce
  then have "quiet s s1" using quiet_send [of s mac i "TCP_PSH OR TCP_ACK" None "[]" raw] by simp
  then show ?thesis
    using sent unfolding request_connected_def
    by (auto split: option.split
        intro: quiet_none quiet_trans [OF _ quiet_failed] quiet_trans [OF quiet_trans [OF _ quiet_upd] quiet_read_loop])
qed

lemma quiet_expired: "quiet s (port_expired i s)"
  by (simp add: quiet_def port_expired_def)

lemma quiet_shutdown: "quiet s (in_shutdown s)"
  by (simp add: quiet_def in_shutdown_eq in_marked_def)

text \<open>A segment of an honest chip carries a piece of the stream of its connection.\<close>

fun honest_in :: "(nat \<Rightarrow> bytes) \<Rightarrow> (nat \<Rightarrow> int) \<Rightarrow> tcp_inbound \<Rightarrow> in_event \<Rightarrow> bool" where
  "honest_in streams isns s (In_packet mac ip t) \<longleftrightarrow>
     (case dict_get (in_conns s) (dst_port t) of
        None \<Rightarrow> True | Some i \<Rightarrow> honest_segment (streams i) (isns i) t)"
| "honest_in streams isns s _ \<longleftrightarrow> True"

definition honest_in_step ::
  "(nat \<Rightarrow> bytes) \<Rightarrow> (nat \<Rightarrow> int) \<Rightarrow> tcp_inbound \<Rightarrow> in_event \<Rightarrow> tcp_inbound \<Rightarrow> bool" where
  "honest_in_step streams isns s e t \<longleftrightarrow> in_step s e t \<and> honest_in streams isns s e"

definition part_of :: "bytes \<Rightarrow> bytes \<Rightarrow> bool" where
  "part_of stream b \<longleftrightarrow> b \<noteq> [] \<and> prefix b stream"

definition responses_ok :: "(nat \<Rightarrow> bytes) \<Rightarrow> (nat \<Rightarrow> int) \<Rightarrow> tcp_inbound \<Rightarrow> bool" where
  "responses_ok streams isns s \<longleftrightarrow> (\<forall>i. rx_fits (streams i) (isns i) (in_objs s i)) \<and>
     (\<forall>i b. In_return i (Some b) \<in> set (in_trace s) \<longrightarrow> part_of (streams i) b)"

lemma responses_new: "responses_ok streams isns in_new"
  by (simp add: responses_ok_def in_new_def new_in_conn_def rx_fits_def)

lemma responses_quiet: "responses_ok streams isns s \<Longrightarrow> quiet s t \<Longrightarrow> responses_ok streams isns t"
proof -
  assume ok: "responses_ok streams isns s" and q: "quiet s t"
  have "rx_fits (streams i) (isns i) (in_objs t i)" for i
    using ok q in_state.distinct unfolding responses_ok_def quiet_def rx_fits_def by metis
  moreover have "part_of (streams i) b" if "In_return i (Some b) \<in> set (in_trace t)" for i b
    using ok q that unfolding responses_ok_def quiet_def rx_fits_def part_of_def by metis
  ultimately show ?thesis by (simp add: responses_ok_def)
qed

lemma responses_packet:
  assumes "in_inv s" "responses_ok streams isns s" "length mac = 6" "matches ip t s"
    "honest_in streams isns s (In_packet mac ip t)" "\<forall>i. length (streams i) < 4294967295"
  shows "responses_ok streams isns (snd (in_handle_segment mac t s))"
proof -
  obtain i where i: "dict_get (in_conns s) (dst_port t) = Some i"
    using assms(4) by (auto simp: matches_def split: option.splits)
  let ?s = "snd (in_handle_segment mac t s)"
  have r: "reacts mac i (reaction t (in_objs s i)) s (in_handle_segment mac t s)"
    using assms(1,3) i by (rule segment_reacts)
  then have "in_objs ?s = (in_objs s)(i := fst (reaction t (in_objs s i)))"
    by (auto simp: reacts_def split: prod.splits)
  moreover have "In_return j (Some b) \<in> set (in_trace s)" if "In_return j (Some b) \<in> set (in_trace ?s)" for j b
    using r that by (auto simp: reacts_def sends_def split: prod.splits)
  ultimately show ?thesis
    using assms(2,5,6) i by (auto simp: responses_ok_def intro: reaction_fits)
qed

lemma responses_start:
  assumes "responses_ok streams isns s" "length mac = 6" "set draws \<subseteq> {49152..65535}"
  shows "responses_ok streams isns (request_start mac draws isn raw timeout s)"
proof (cases "alloc_port draws (in_conns s)")
  case (Inl e)
  then show ?thesis using assms(1) by (simp add: request_start_def Let_def responses_ok_def in_emit_def)
next
  case (Inr port)
  then show ?thesis
    using request_start_eq [OF Inr assms(2,3), of isn raw timeout] assms(1)
    by (auto simp: responses_ok_def in_wait_at_def in_emit_def in_opened_def rx_fits_def new_in_conn_def)
qed

lemma responses_step:
  assumes "in_inv s" "responses_ok streams isns s" "honest_in_step streams isns s e t"
    "\<forall>i. length (streams i) < 4294967295"
  shows "responses_ok streams isns t"
  using assms(3) unfolding honest_in_step_def
proof (elim conjE in_stepE)
qed (use assms in \<open>simp_all add: responses_packet responses_start request_timeout_def
    responses_quiet [OF _ quiet_connected] responses_quiet [OF _ quiet_none]
    responses_quiet [OF _ quiet_read_loop] responses_quiet [OF _ quiet_poll]
    responses_quiet [OF _ quiet_expired] responses_quiet [OF _ quiet_shutdown]\<close>)

interpretation responses: machine
  "\<lambda>s. s = in_new \<and> (\<forall>i. length (streams i) < 4294967295)" "honest_in_step streams isns"
  "\<lambda>s. in_inv s \<and> responses_ok streams isns s \<and> (\<forall>i. length (streams i) < 4294967295)" for streams isns
  by unfold_locales
    (auto simp: in_inv_new responses_new intro: responses_step in_inv_step simp: honest_in_step_def)

text \<open>C4: The response of the chip's server in order, exactly one outcome per request. If the
  segments that reach a connection carry pieces of the server's byte stream (shorter than
  \<open>2 ^ 32\<close>), in any order, with any losses and repetitions and interleaved with any other
  event, then what has been received is a prefix of that stream and what \<^verbatim>\<open>request\<close> returns is
  a non-empty prefix of it, never reordered, repeated or mixed with another connection's
  bytes; a request that no longer waits has returned or raised exactly once, and one that
  waits not at all.\<close>

theorem response_in_order:
  assumes "\<forall>i. length (streams i) < 4294967295" "runs (honest_in_step streams isns) in_new s"
  shows "prefix (rx (in_objs s i)) (streams i) \<and>
    (\<forall>b. In_return i (Some b) \<in> set (in_trace s) \<longrightarrow> b \<noteq> [] \<and> prefix b (streams i)) \<and>
    outcomes i (in_trace s) = (if i < in_next s \<and> in_waits s i = None then 1 else 0)"
proof -
  have "in_inv s \<and> responses_ok streams isns s"
    using responses.inv_reachable [of in_new streams isns s] assms by simp
  then show ?thesis by (auto simp: responses_ok_def rx_fits_def part_of_def in_inv_def)
qed

section \<open>Segments of the chip, branch by branch\<close>

lemma matches_entry: "matches ip t s \<longleftrightarrow>
    (\<exists>i. dict_get (in_conns s) (dst_port t) = Some i \<and> src_port t = in_chip_port (in_objs s i)) \<and>
    ip_src ip = STA_ADDR \<and> ip_dst ip = GW_ADDR"
  by (auto simp: matches_def split: option.splits)

lemma reacts_fields:
  assumes "reacts mac i p s r"
  shows "fst r = None" "sends mac (snd p) s (snd r)" "in_objs (snd r) = (in_objs s)(i := fst p)"
    "in_waits (snd r) = in_waits s" "in_conns (snd r) = in_conns s" "in_timers (snd r) = in_timers s"
    "in_next (snd r) = in_next s"
proof -
  obtain c ts e u where p: "p = (c, ts)" and r: "r = (e, u)" by fastforce
  have u: "u = s\<lparr>in_objs := in_objs u, in_trace := in_trace u\<rparr>"
    using assms unfolding reacts_def p r prod.case snd_conv by blast
  show "fst r = None" "sends mac (snd p) s (snd r)" "in_objs (snd r) = (in_objs s)(i := fst p)"
    using assms by (simp_all add: reacts_def p r)
  show "in_waits (snd r) = in_waits s" by (subst r, subst u) simp
  show "in_conns (snd r) = in_conns s" by (subst r, subst u) simp
  show "in_timers (snd r) = in_timers s" by (subst r, subst u) simp
  show "in_next (snd r) = in_next s" by (subst r, subst u) simp
qed

text \<open>C26: In every reachable state a segment that the bridge hands to the inbound client is handled
  without an exception and touches its own connection only. In SYN_SENT exactly a SYN+ACK
  establishes the connection and is acknowledged; in ESTABLISHED a segment with the next
  sequence number has its payload appended and acknowledged and wakes the request, one with
  another sequence number changes nothing and is answered by an ACK of what is still
  expected; a FIN is acknowledged, answered by a FIN and ends the response; an RST sends
  nothing and ends it too; and after the end a late payload, FIN or SYN gets one ACK and
  changes nothing, so that the chip is never reset.\<close>

theorem inbound_segment_handled:
  assumes "runs in_step in_new s" "length mac = 6" "dict_get (in_conns s) (dst_port t) = Some i"
    and "c = in_objs s i" "in_handle_segment mac t s = (e, s')" "c' = in_objs s' i"
    and "rst = has_flag (tcp_flags t) TCP_RST" "fin = has_flag (tcp_flags t) TCP_FIN"
    and "syn = has_flag (tcp_flags t) TCP_SYN" "ack = has_flag (tcp_flags t) TCP_ACK"
  shows "e = None \<and> (\<forall>j. j \<noteq> i \<longrightarrow> in_objs s' j = in_objs s j) \<and> in_conns s' = in_conns s \<and>
    (rst \<longrightarrow> c' = c\<lparr>reset := True, in_state := In_CLOSED, established := True, finished := True\<rparr> \<and>
       sends mac [] s s') \<and>
    (\<not> rst \<and> in_state c = In_SYN_SENT \<longrightarrow>
       (if syn \<and> ack
        then c' = c\<lparr>in_chip_seq := seq_add (seq_no t) 1, in_state := In_ESTABLISHED, established := True\<rparr> \<and>
             sends mac [acks c'] s s'
        else c' = c \<and> sends mac [] s s')) \<and>
    (\<not> rst \<and> in_state c = In_ESTABLISHED \<and> \<not> fin \<and> seq_no t = in_chip_seq c \<and> tcp_payload t \<noteq> [] \<longrightarrow>
       c' = (take_data c (tcp_payload t))\<lparr>data_event := True\<rparr> \<and>
       sends mac [acks (take_data c (tcp_payload t))] s s') \<and>
    (\<not> rst \<and> in_state c = In_ESTABLISHED \<and> seq_no t \<noteq> in_chip_seq c \<and> tcp_payload t \<noteq> [] \<longrightarrow>
       c' = c \<and> sends mac [acks c] s s') \<and>
    (\<not> rst \<and> in_state c = In_ESTABLISHED \<and> fin \<and> (seq_no t = in_chip_seq c \<or> tcp_payload t = []) \<longrightarrow>
       rx c' = rx c @ tcp_payload t \<and> in_state c' = In_CLOSED \<and> finished c' \<and>
       in_chip_seq c' = seq_add (in_chip_seq c) (int (length (tcp_payload t)) + 1) \<and>
       (\<exists>ts a. sends mac (ts @ [acks a, fin_acks a]) s s' \<and> in_chip_seq a = in_chip_seq c' \<and>
          in_our_seq c' = seq_add (in_our_seq a) 1)) \<and>
    (\<not> rst \<and> in_state c = In_CLOSED \<longrightarrow> c' = c \<and>
       (if tcp_payload t \<noteq> [] \<or> has_flag (tcp_flags t) (TCP_FIN OR TCP_SYN)
        then sends mac [acks c] s s' else sends mac [] s s'))"
proof -
  have inv: "in_inv s" using inbound.inv_reachable assms(1) by simp
  have r: "reacts mac i (reaction t c) s (e, s')"
    using segment_reacts [OF inv assms(2,3)] assms(4,5) by simp
  note f = reacts_fields [OF r, unfolded snd_conv fst_conv]
  have c': "c' = fst (reaction t c)" and o: "\<forall>j. j \<noteq> i \<longrightarrow> in_objs s' j = in_objs s j"
    using f(3) assms(6) by simp_all
  show ?thesis
  proof (intro conjI impI)
    assume a: "\<not> rst \<and> in_state c = In_ESTABLISHED \<and> fin \<and> (seq_no t = in_chip_seq c \<or> tcp_payload t = [])"
    define d where "d = (if tcp_payload t = [] then c else (take_data c (tcp_payload t))\<lparr>data_event := True\<rparr>)"
    have fin: "reaction t c = (end_conn (take_fin d),
        (if tcp_payload t = [] then [] else [acks (take_data c (tcp_payload t))]) @
        [acks (take_fin d), fin_acks (take_fin d)])"
      using a assms(7,8) by (auto simp: reaction_def d_def after_fin_def Let_def)
    have wf: "wf_in c" using in_inv_entry [OF inv assms(3)] assms(4) by (simp add: port_entry_ok_def)
    have q: "seq_add (seq_add (in_chip_seq c) n) 1 = seq_add (in_chip_seq c) (n + 1)" for n
      by (simp add: seq_add_assoc)
    show "rx c' = rx c @ tcp_payload t" "in_state c' = In_CLOSED" "finished c'"
      "in_chip_seq c' = seq_add (in_chip_seq c) (int (length (tcp_payload t)) + 1)"
      by (simp_all add: c' fin d_def end_conn_def take_fin_def take_data_def q)
    show "\<exists>ts a. sends mac (ts @ [acks a, fin_acks a]) s s' \<and> in_chip_seq a = in_chip_seq c' \<and>
        in_our_seq c' = seq_add (in_our_seq a) 1"
      using f(2) unfolding fin snd_conv
      by (intro exI conjI) (assumption, simp_all add: c' fin end_conn_def take_fin_def)
  qed (use f o c' assms(7-10) in \<open>auto simp: reaction_def after_fin_def Let_def split: if_splits\<close>)
qed

section \<open>A whole response\<close>

text \<open>Data segments in sequence, from sequence number \<open>q\<close>, and the ACKs they get.\<close>

fun in_sequence :: "int \<Rightarrow> tcp list \<Rightarrow> bool" where
  "in_sequence q [] \<longleftrightarrow> True"
| "in_sequence q (t # ts) \<longleftrightarrow> seq_no t = q \<and> tcp_payload t \<noteq> [] \<and>
     \<not> has_flag (tcp_flags t) TCP_RST \<and> \<not> has_flag (tcp_flags t) TCP_FIN \<and>
     in_sequence (seq_add q (int (length (tcp_payload t)))) ts"

fun ack_trail :: "int \<Rightarrow> tcp list \<Rightarrow> int list" where
  "ack_trail q [] = []"
| "ack_trail q (t # ts) = (let q' = seq_add q (int (length (tcp_payload t))) in q' # ack_trail q' ts)"

definition in_handle_all :: "bytes \<Rightarrow> tcp list \<Rightarrow> tcp_inbound \<Rightarrow> tcp_inbound" where
  "in_handle_all mac ts s = fold (\<lambda>t s. snd (in_handle_segment mac t s)) ts s"

lemma sends_trans: "sends mac ts s t \<Longrightarrow> sends mac us t u \<Longrightarrow> sends mac (ts @ us) s u"
  unfolding sends_def
  by (elim exE conjE, rule exI [of _ "_ @ _"]) (auto intro: list_all2_appendI)

lemma in_handle_all:
  assumes "in_inv s" "length mac = 6" "dict_get (in_conns s) p = Some i" "\<forall>t\<in>set ts. dst_port t = p"
    "in_state (in_objs s i) = In_ESTABLISHED" "\<not> finished (in_objs s i)"
    "in_sequence (in_chip_seq (in_objs s i)) ts" "s' = in_handle_all mac ts s"
  shows "in_inv s' \<and> rx (in_objs s' i) = rx (in_objs s i) @ concat (map tcp_payload ts) \<and>
    in_waits s' = in_waits s \<and> (ts \<noteq> [] \<longrightarrow> data_event (in_objs s' i)) \<and>
    (\<exists>us. sends mac us s s' \<and> map ack_no us = ack_trail (in_chip_seq (in_objs s i)) ts)"
  using assms
proof (induction ts arbitrary: s)
  case Nil
  then show ?case using sends_nil [of mac s] by (auto simp: in_handle_all_def)
next
  case (Cons t ts)
  let ?c = "in_objs s i" and ?u = "snd (in_handle_segment mac t s)"
  let ?d = "(take_data ?c (tcp_payload t))\<lparr>data_event := True\<rparr>"
  have re: "reaction t ?c = (?d, [acks (take_data ?c (tcp_payload t))])"
    using Cons.prems by (simp add: reaction_def after_fin_def Let_def)
  have i: "dict_get (in_conns s) (dst_port t) = Some i" using Cons.prems by simp
  note f = reacts_fields [OF segment_reacts [OF Cons.prems(1,2) i], unfolded re fst_conv snd_conv]
  have inv: "in_inv ?u" by (rule in_local_inv [OF Cons.prems(1) in_local_handle [OF i]])
  have s': "s' = in_handle_all mac ts ?u" using Cons.prems(8) by (simp add: in_handle_all_def)
  have conn: "dict_get (in_conns ?u) p = Some i" "\<forall>t\<in>set ts. dst_port t = p"
    "in_state (in_objs ?u i) = In_ESTABLISHED" "\<not> finished (in_objs ?u i)"
    "in_sequence (in_chip_seq (in_objs ?u i)) ts"
    using Cons.prems by (simp_all add: f(3,5) take_data_def)
  have next_step: "in_inv s' \<and> rx (in_objs s' i) = rx (in_objs ?u i) @ concat (map tcp_payload ts) \<and>
    in_waits s' = in_waits ?u \<and> (ts \<noteq> [] \<longrightarrow> data_event (in_objs s' i)) \<and>
    (\<exists>us. sends mac us ?u s' \<and> map ack_no us = ack_trail (in_chip_seq (in_objs ?u i)) ts)"
    by (rule Cons.IH [OF inv Cons.prems(2) conn s'])
  moreover have "data_event (in_objs s' i)" if "ts = []"
    using that s' by (simp add: in_handle_all_def f(3))
  moreover obtain us where "sends mac us ?u s'" "map ack_no us = ack_trail (in_chip_seq (in_objs ?u i)) ts"
    using next_step by blast
  then have "\<exists>us. sends mac us s s' \<and> map ack_no us = ack_trail (in_chip_seq ?c) (t # ts)"
    using sends_trans [OF f(2)] by (fastforce simp: f(3) take_data_def Let_def acks_def seq_add_idem)
  ultimately show ?case by (auto simp: f(3,4) take_data_def)
qed

text \<open>C27: A response that arrives is returned. If the chip's server sends it in segments in
  sequence to an established connection whose request waits for data, each segment is
  acknowledged by one frame, with the sequence number of the byte after it, and once the bytes form a complete response (by its
  \<^verbatim>\<open>Content-Length\<close>) the request wakes before its deadline and returns exactly those bytes,
  leaves the connection closed and schedules the release of its port.\<close>

theorem response_returned:
  assumes "runs in_step in_new s" "length mac = 6" "dict_get (in_conns s) p = Some i"
    "in_waits s i = Some (Wait_data deadline)" "in_state (in_objs s i) = In_ESTABLISHED"
    "\<not> finished (in_objs s i)" "rx (in_objs s i) = []"
    "ts \<noteq> []" "\<forall>t\<in>set ts. dst_port t = p" "in_sequence (in_chip_seq (in_objs s i)) ts"
    "response = concat (map tcp_payload ts)" "http_response_complete response"
  shows "\<exists>fs t. in_step (in_handle_all mac ts s) (In_ready i now) t \<and>
    list_all2 (\<lambda>f a. \<exists>u. reads_as f mac u \<and> ack_no u = a) fs (ack_trail (in_chip_seq (in_objs s i)) ts) \<and>
    in_trace t = in_trace s @ map In_inject fs @ [In_return i (Some response)] \<and>
    in_waits t i = None \<and> in_state (in_objs t i) = In_CLOSED \<and> i \<in> in_timers t"
proof -
  let ?s = "in_handle_all mac ts s"
  let ?t = "read_loop now i deadline ?s"
  have inv: "in_inv s" using inbound.inv_reachable assms(1) by simp
  note h = in_handle_all [OF inv assms(2,3,9,5,6,10) refl]
  then have w: "in_waits ?s i = Some (Wait_data deadline)" and rx: "rx (in_objs ?s i) = response"
    and ev: "data_event (in_objs ?s i)" using assms(4,7,8,11) by simp_all
  obtain fs us where fs: "in_trace ?s = in_trace s @ map In_inject fs" "list_all2 (\<lambda>f u. reads_as f mac u) fs us"
    and us: "map ack_no us = ack_trail (in_chip_seq (in_objs s i)) ts"
    using h unfolding sends_def by blast
  have trail: "list_all2 (\<lambda>f a. \<exists>u. reads_as f mac u \<and> ack_no u = a) fs (ack_trail (in_chip_seq (in_objs s i)) ts)"
    using fs(2) by (auto simp flip: us simp: list_all2_map2 elim!: list_all2_mono)
  have "response \<noteq> []" using assms(8,10,11) by (cases ts) auto
  then have "?t = in_result i (Some response) ?s"
    using assms(12) by (simp add: read_loop_def rx rx_result_def)
  then have "in_trace ?t = in_trace s @ map In_inject fs @ [In_return i (Some response)]"
    "in_waits ?t i = None" "in_state (in_objs ?t i) = In_CLOSED" "i \<in> in_timers ?t"
    by (simp_all add: in_result_def in_emit_def in_finally_def Let_def in_wait_at_def fs(1))
  then show ?thesis using in_step_ready [OF w ev] trail by blast
qed

section \<open>An example exchange\<close>

text \<open>A request from port 50000, the server's SYN+ACK, and a response in one segment.\<close>

definition server_seg :: "int \<Rightarrow> int \<Rightarrow> bytes \<Rightarrow> tcp" where
  "server_seg flags seq payload = tcp_default\<lparr>src_port := 80, dst_port := 50000, seq_no := seq,
     ack_no := 101, tcp_flags := flags, tcp_payload := payload\<rparr>"

definition server_ip :: ipv4 where
  "server_ip = ipv4_default\<lparr>ip_protocol := IPPROTO_TCP, ip_src := STA_ADDR, ip_dst := GW_ADDR\<rparr>"

text \<open>\<^verbatim>\<open>content-length:2\<close>, an empty line and \<^verbatim>\<open>ok\<close>.\<close>

definition sample_response :: bytes where
  "sample_response = [99, 111, 110, 116, 101, 110, 116, 45, 108, 101, 110, 103, 116, 104, 58, 50,
     10, 10, 111, 107]"

lemma sample_response_complete: "http_response_complete sample_response"
  by code_simp

lemma sample_response_ne: "sample_response \<noteq> []"
  by (simp add: sample_response_def)

definition sample_draws :: "int list" where
  "sample_draws = 50000 # replicate 63 50001"

definition in_requested :: tcp_inbound where
  "in_requested = request_start STA_MAC sample_draws 100 [71] 12 in_new"

definition in_open :: tcp_inbound where
  "in_open = snd (in_handle_segment STA_MAC (server_seg 18 5000 []) in_requested)"

definition in_waiting :: tcp_inbound where
  "in_waiting = request_connected STA_MAC 0 0 [71] 12 in_open"

lemma server_seg_simps [simp]:
  "dst_port (server_seg fl q b) = 50000" "src_port (server_seg fl q b) = 80"
  "seq_no (server_seg fl q b) = q" "tcp_flags (server_seg fl q b) = fl"
  "tcp_payload (server_seg fl q b) = b"
  by (simp_all add: server_seg_def)

lemma parsed_server_seg:
  "0 \<le> q \<Longrightarrow> q < 4294967296 \<Longrightarrow> 0 \<le> fl \<Longrightarrow> fl < 512 \<Longrightarrow> parsed_tcp (server_seg fl q b)"
  by (simp add: parsed_tcp_def server_seg_def tcp_default_def)

lemma server_flags:
  "has_flag 18 TCP_SYN" "has_flag 18 TCP_ACK" "\<not> has_flag 18 TCP_RST" "\<not> has_flag 16 TCP_SYN"
  "\<not> has_flag 16 TCP_RST" "\<not> has_flag 16 TCP_FIN" "has_flag 17 TCP_FIN" "\<not> has_flag 17 TCP_RST"
  by (simp_all add: has_flag_def tcp_flag_defs)

lemma requested_step: "in_step in_new (In_request STA_MAC sample_draws 100 [71] 12) in_requested"
  unfolding in_requested_def by (rule in_step_request) (auto simp: sample_draws_def)

lemma requested_state:
  "in_objs in_requested 0 = new_in_conn 50000 100" "in_conns in_requested = [(50000, 0)]"
  "in_waits in_requested 0 = Some (Wait_established [71] 12)" "in_next in_requested = 1"
proof -
  have port: "alloc_port sample_draws (in_conns in_new) = Inr 50000"
    by (simp add: alloc_port_def sample_draws_def in_new_def dict_get_def)
  obtain f where eq: "in_requested = in_wait_at 0 (Some (Wait_established [71] 12))
      (in_emit (In_inject f) (in_opened 50000 100 in_new))"
    using request_start_eq [OF port, of STA_MAC 100 "[71]" 12]
    by (auto simp: in_requested_def in_new_def sample_draws_def)
  show "in_objs in_requested 0 = new_in_conn 50000 100" "in_conns in_requested = [(50000, 0)]"
    "in_waits in_requested 0 = Some (Wait_established [71] 12)" "in_next in_requested = 1"
    by (simp_all add: eq in_wait_at_def in_emit_def in_opened_def in_new_def dict_set_def)
qed

lemma requested_inv: "in_inv in_requested"
  by (rule in_inv_step [OF in_inv_new requested_step])

lemma requested_entry: "dict_get (in_conns in_requested) 50000 = Some 0"
  by (simp add: requested_state dict_get_def)

lemma in_open_step: "in_step in_requested (In_packet STA_MAC server_ip (server_seg 18 5000 [])) in_open"
  unfolding in_open_def
  by (rule in_step_packet)
    (simp_all add: parsed_server_seg matches_entry requested_entry requested_state new_in_conn_def
      server_ip_def dict_get_def)

lemma open_state:
  "in_objs in_open 0 = (new_in_conn 50000 100)\<lparr>in_chip_seq := 5001, in_state := In_ESTABLISHED,
     established := True\<rparr>"
  "in_conns in_open = [(50000, 0)]" "in_waits in_open 0 = Some (Wait_established [71] 12)"
proof -
  have "dict_get (in_conns in_requested) (dst_port (server_seg 18 5000 [])) = Some 0"
    by (simp add: requested_entry)
  note f = reacts_fields [OF segment_reacts [OF requested_inv mac_lengths(1) this], folded in_open_def]
  have "reaction (server_seg 18 5000 []) (in_objs in_requested 0) =
      ((new_in_conn 50000 100)\<lparr>in_chip_seq := 5001, in_state := In_ESTABLISHED, established := True\<rparr>,
       [acks ((new_in_conn 50000 100)\<lparr>in_chip_seq := 5001, in_state := In_ESTABLISHED\<rparr>)])"
    by (simp add: reaction_def requested_state server_flags Let_def new_in_conn_def seq_add_mod)
  then show "in_objs in_open 0 = (new_in_conn 50000 100)\<lparr>in_chip_seq := 5001,
      in_state := In_ESTABLISHED, established := True\<rparr>"
    "in_conns in_open = [(50000, 0)]" "in_waits in_open 0 = Some (Wait_established [71] 12)"
    using f(3-5) by (simp_all add: requested_state)
qed

lemma waiting_step: "in_step in_open (In_connected 0 STA_MAC 0) in_waiting"
  unfolding in_waiting_def by (rule in_step_connected) (simp_all add: open_state)

lemma waiting_state:
  "in_conns in_waiting = [(50000, 0)]" "in_waits in_waiting 0 = Some (Wait_data 12)"
  "in_state (in_objs in_waiting 0) = In_ESTABLISHED" "\<not> finished (in_objs in_waiting 0)"
  "rx (in_objs in_waiting 0) = []" "in_chip_seq (in_objs in_waiting 0) = 5001"
proof -
  have "wf_in (in_objs in_open 0)" by (simp add: open_state wf_in_def new_in_conn_def)
  then obtain f where "in_send STA_MAC 0 (TCP_PSH OR TCP_ACK) None [] [71] in_open =
      (None, in_emit (In_inject f) in_open)"
    using in_send_ok [of in_open 0 STA_MAC "[]" "[71]" "TCP_PSH OR TCP_ACK" None] by (auto simp: pad4_def)
  moreover have "http_response_complete [] = False" by code_simp
  ultimately show "in_conns in_waiting = [(50000, 0)]" "in_waits in_waiting 0 = Some (Wait_data 12)"
    "in_state (in_objs in_waiting 0) = In_ESTABLISHED" "\<not> finished (in_objs in_waiting 0)"
    "rx (in_objs in_waiting 0) = []" "in_chip_seq (in_objs in_waiting 0) = 5001"
    by (simp_all add: in_waiting_def request_connected_def open_state new_in_conn_def read_loop_def
        in_emit_def Let_def in_wait_at_def)
qed

lemma waiting_run: "runs in_step in_new in_waiting"
  using requested_step in_open_step waiting_step by (metis runs_refl runs_step)

theorem response_returned_witness:
  "\<exists>fs (t :: tcp_inbound). in_trace t = in_trace in_waiting @ map In_inject fs @ [In_return 0 (Some sample_response)] \<and>
     in_waits t 0 = None"
  using response_returned [OF waiting_run, of STA_MAC 50000 0 12 "[server_seg 16 5001 sample_response]"
      sample_response 1]
  by (simp add: waiting_state dict_get_def server_flags sample_response_complete sample_response_ne) blast

theorem inbound_segment_handled_witness:
  "\<exists>s'. in_handle_segment STA_MAC (server_seg 16 5001 [104, 105]) in_waiting = (None, s') \<and>
     rx (in_objs s' 0) = [104, 105] \<and> in_chip_seq (in_objs s' 0) = 5003"
proof -
  obtain e s' where r: "in_handle_segment STA_MAC (server_seg 16 5001 [104, 105]) in_waiting = (e, s')"
    by fastforce
  have "seq_add 5001 2 = 5003" by (simp add: seq_add_mod)
  then show ?thesis
    using inbound_segment_handled [OF waiting_run mac_lengths(1) _ refl r refl refl refl refl refl, of 0] r
    by (simp add: waiting_state dict_get_def server_flags take_data_def)
qed

text \<open>The exchange is one with an honest chip.\<close>

lemma waiting_honest_run:
  "runs (honest_in_step (\<lambda>_. sample_response) (\<lambda>_. 5000)) in_new in_waiting"
proof -
  have "honest_in (\<lambda>_. sample_response) (\<lambda>_. 5000) in_requested
      (In_packet STA_MAC server_ip (server_seg 18 5000 []))"
    by (simp add: requested_entry honest_segment_def server_flags seq_add_mod)
  then show ?thesis
    using requested_step in_open_step waiting_step
    by (intro runs_step [OF runs_step [OF runs_step [OF runs_refl]]])
      (auto simp: honest_in_step_def)
qed

theorem response_in_order_witness:
  "outcomes 0 (in_trace in_waiting) = 0 \<and> prefix (rx (in_objs in_waiting 0)) sample_response"
proof -
  have "in_waits in_waiting 0 \<noteq> None" by (simp add: waiting_state)
  then show ?thesis
    using response_in_order [of "\<lambda>_. sample_response" "\<lambda>_. 5000" in_waiting 0] waiting_honest_run
    by (simp add: sample_response_def)
qed

section \<open>Ports\<close>

lemma alloc_port_free:
  assumes "set draws \<subseteq> {49152..65535}"
  shows "(case alloc_port draws d of
      Inr p \<Rightarrow> 49152 \<le> p \<and> p \<le> 65535 \<and> p \<notin> set (dict_keys d)
    | Inl e \<Rightarrow> e = RuntimeError \<and> 16384 \<le> length d) \<and>
    ((\<exists>e. alloc_port draws d = Inl e) \<longleftrightarrow> {49152..65535} \<subseteq> set (dict_keys d))"
proof (cases "alloc_port draws d")
  case (Inl e)
  then have e: "e = RuntimeError" and sub: "{49152..65535} \<subseteq> set (dict_keys d)"
    using alloc_port_Inl by blast+
  have "card {49152..65535::int} \<le> card (set (dict_keys d))"
    using sub by (intro card_mono) simp_all
  then have "16384 \<le> length d" using card_length [of "dict_keys d"] by (simp add: dict_keys_def)
  then show ?thesis using Inl e sub by simp
next
  case (Inr p)
  then have p: "49152 \<le> p" "p \<le> 65535" "p \<notin> set (dict_keys d)"
    using alloc_port_Inr [OF Inr assms] by (simp_all add: py_dict.in_keys)
  then have "\<not> {49152..65535} \<subseteq> set (dict_keys d)" by auto
  then show ?thesis using Inr p by simp
qed

end
