(* ===== verification/Bridge.thy ===== *)
theory Bridge
  imports Responders Dhcp Tcp_Machine Udp_Nat Dns_Machine Inbound_Machine
begin

text \<open>
  The bridge of one simulated chip, \<^verbatim>\<open>velxiogw/net/bridge.py\<close> (class \<^verbatim>\<open>PicowNetBridge\<close>): it learns
  the chip's MAC, demultiplexes its frames to the responders, the servers and the NATs, and
  hands their frames to the WebSocket while it runs. Everything a component injects during a
  step is emitted at the end of that step.
\<close>

section \<open>State\<close>

text \<open>
  \<open>br_res\<close> is the number of the bridge's resolver in the DNS proxy, whose cache and lookups the
  bridges of a process share. \<open>dns_macs\<close> is the \<^verbatim>\<open>chip_mac\<close> argument of each \<^verbatim>\<open>_handle_udp\<close> call that waits for a
  lookup, \<open>http_calls\<close> the \<^verbatim>\<open>http_into_chip\<close> calls in the sleep of \<^verbatim>\<open>ensure_chip_mac\<close>, \<open>emitted\<close> the
  frames sent as \<^verbatim>\<open>picow_packet_in\<close>, \<open>br_events\<close> the events handed to the egress log, which carry
  the identity \<open>br_ident\<close>, \<open>statuses\<close> the \<^verbatim>\<open>wifi_status\<close> messages.
\<close>

record wifi_status =
  ws_status :: string
  ws_ssid :: "string option"
  ws_ip :: "pystr option"

record bridge =
  br_ident :: bridge_identity
  br_running :: bool
  wifi_enabled :: bool
  br_mac :: bytes
  br_dhcp :: dhcp_server
  br_res :: nat
  br_dns :: dns_state
  dns_macs :: "nat \<Rightarrow> bytes option"
  br_tcp :: tcp_nat
  br_in :: tcp_inbound
  br_udp :: udp_nat
  http_calls :: "(bytes \<times> real) list"
  emitted :: "bytes list"
  br_events :: "egress_event list"
  statuses :: "wifi_status list"

definition bridge_new :: "bridge_identity \<Rightarrow> bool \<Rightarrow> nat \<Rightarrow> dns_state \<Rightarrow> bridge" where
  "bridge_new ident wifi res dns =
     \<lparr>br_ident = ident, br_running = True, wifi_enabled = wifi, br_mac = STA_MAC, br_dhcp = \<lparr>lease_active = False\<rparr>,
      br_res = res, br_dns = dns, dns_macs = (\<lambda>_. None), br_tcp = nat_new, br_in = in_new, br_udp = udp_new,
      http_calls = [], emitted = [], br_events = [], statuses = []\<rparr>"

text \<open>\<^verbatim>\<open>start\<close>: the status message that opens the session.\<close>

definition start_status :: "bool \<Rightarrow> wifi_status" where
  "start_status wifi =
     \<lparr>ws_status = ''started'', ws_ssid = (if wifi then Some ''Velxio-GUEST'' else None),
      ws_ip = (if wifi then Some STA_IP else None)\<rparr>"

definition start :: "bridge \<Rightarrow> bridge" where
  "start s = s\<lparr>statuses := statuses s @ [start_status (wifi_enabled s)]\<rparr>"

section \<open>Injecting frames\<close>

definition br_inject :: "bytes list \<Rightarrow> bridge \<Rightarrow> bridge" where
  "br_inject fs s = (if br_running s then s\<lparr>emitted := emitted s @ fs\<rparr> else s)"

definition br_reply :: "bytes option res \<Rightarrow> bridge \<Rightarrow> bridge run" where
  "br_reply r s =
     (case r of Inl e \<Rightarrow> (Some e, s) | Inr None \<Rightarrow> (None, s) | Inr (Some f) \<Rightarrow> (None, br_inject [f] s))"

text \<open>The frames of a component's trace, and a component's step with its new frames.\<close>

fun nat_frames :: "action list \<Rightarrow> bytes list" where
  "nat_frames [] = []"
| "nat_frames (Inject f # tr) = f # nat_frames tr"
| "nat_frames (_ # tr) = nat_frames tr"

fun in_frames :: "in_action list \<Rightarrow> bytes list" where
  "in_frames [] = []"
| "in_frames (In_inject f # tr) = f # in_frames tr"
| "in_frames (_ # tr) = in_frames tr"

fun udp_frames :: "udp_action list \<Rightarrow> bytes list" where
  "udp_frames [] = []"
| "udp_frames (Udp_inject f # tr) = f # udp_frames tr"
| "udp_frames (_ # tr) = udp_frames tr"

text \<open>What \<^verbatim>\<open>_emit_egress\<close> hands to the log for a record of a NAT or of the resolver.\<close>

definition br_log :: "egress_event list \<Rightarrow> bridge \<Rightarrow> bridge" where
  "br_log evs s = s\<lparr>br_events := br_events s @ evs\<rparr>"

definition nat_event :: "bridge_identity \<Rightarrow> string \<Rightarrow> nat_record \<Rightarrow> egress_event" where
  "nat_event self protocol =
     (\<lambda>(verdict, host, port, why). emit_egress self protocol verdict (Some host) (Some port) None why)"

fun dns_events :: "bridge_identity \<Rightarrow> dns_record list \<Rightarrow> egress_event list" where
  "dns_events self [] = []"
| "dns_events self (Dns_egress verdict host ip why # rs) =
     emit_egress self ''dns'' verdict ip None (Some host) why # dns_events self rs"
| "dns_events self (_ # rs) = dns_events self rs"

definition set_tcp :: "tcp_nat \<Rightarrow> bridge \<Rightarrow> bridge" where
  "set_tcp n s =
     (let new = drop (length (trace (br_tcp s))) (trace n)
      in br_log (map (nat_event (br_ident s) ''tcp'') (nat_records new))
           (br_inject (nat_frames new) (s\<lparr>br_tcp := n\<rparr>)))"

definition set_in :: "tcp_inbound \<Rightarrow> bridge \<Rightarrow> bridge" where
  "set_in n s =
     br_inject (in_frames (drop (length (in_trace (br_in s))) (in_trace n))) (s\<lparr>br_in := n\<rparr>)"

definition set_udp :: "udp_nat \<Rightarrow> bridge \<Rightarrow> bridge" where
  "set_udp n s =
     (let new = drop (length (udp_trace (br_udp s))) (udp_trace n)
      in br_log (map (nat_event (br_ident s) ''udp'') (udp_records new))
           (br_inject (udp_frames new) (s\<lparr>br_udp := n\<rparr>)))"

definition set_dns :: "dns_state \<Rightarrow> bridge \<Rightarrow> bridge" where
  "set_dns d s =
     br_log (dns_events (br_ident s) (drop (length (dns_log (br_dns s))) (dns_log d))) (s\<lparr>br_dns := d\<rparr>)"

section \<open>Frames from the chip\<close>

text \<open>What the environment decides while a frame is handled: the clock, a random sequence number,
  whether a write to a host socket returns, and a number for a call of the resolver.\<close>

record io =
  io_now :: real
  io_isn :: int
  io_ok :: bool
  io_call :: nat

text \<open>The frame of a DNS answer; silence and exceptions pass through.\<close>

definition dns_reply_frame :: "bytes \<Rightarrow> dns_reply res \<Rightarrow> bytes option res" where
  "dns_reply_frame mac r = bindr r (\<lambda>reply.
     case reply of None \<Rightarrow> Inr None
     | Some (dst, src, u) \<Rightarrow> bindr (make_dns_frame mac src dst u) (\<lambda>f. Inr (Some f)))"

definition handle_dhcp :: "bytes \<Rightarrow> udp \<Rightarrow> bridge \<Rightarrow> bridge run" where
  "handle_dhcp mac u s =
     (let (r, srv) = dhcp_handle (br_dhcp s) mac u; s1 = s\<lparr>br_dhcp := srv\<rparr>
      in br_reply (bindr r (\<lambda>reply.
           case reply of None \<Rightarrow> Inr None
           | Some (dst, src, out) \<Rightarrow> bindr (make_dhcp_frame mac src dst out True) (\<lambda>f. Inr (Some f)))) s1)"

definition handle_dns :: "egress_env \<Rightarrow> io \<Rightarrow> bytes \<Rightarrow> ipv4 \<Rightarrow> udp \<Rightarrow> bridge \<Rightarrow> bridge run option" where
  "handle_dns env w mac ip u s =
     (case dns_handle env (io_now w) (br_res s) (io_call w) (ip_src ip) u (br_dns s) of
        None \<Rightarrow> None
      | Some (x, d) \<Rightarrow>
          let s1 = set_dns d s
          in Some (case x of
               Inl r \<Rightarrow> br_reply (dns_reply_frame mac r) s1
             | Inr tid \<Rightarrow> (None, s1\<lparr>dns_macs := (dns_macs s1)(io_call w := Some mac)\<rparr>)))"

text \<open>\<open>None\<close> when the call never returns (a DNS name that points to itself).\<close>

definition handle_udp :: "egress_env \<Rightarrow> io \<Rightarrow> bytes \<Rightarrow> ipv4 \<Rightarrow> udp \<Rightarrow> bridge \<Rightarrow> bridge run option" where
  "handle_udp env w mac ip u s =
     (if is_dhcp_traffic u then Some (handle_dhcp mac u s)
      else if is_dns_traffic u \<and> ip_dst ip = ip_const GATEWAY_IP then handle_dns env w mac ip u s
      else Some (None, set_udp (handle_chip_datagram env (io_now w) (io_ok w) mac ip u (br_udp s)) s))"

definition handle_tcp :: "egress_env \<Rightarrow> io \<Rightarrow> bytes \<Rightarrow> ipv4 \<Rightarrow> tcp \<Rightarrow> bridge \<Rightarrow> bridge run" where
  "handle_tcp env w mac ip t s =
     (if matches ip t (br_in s)
      then let (e, n) = in_handle_segment mac t (br_in s) in (e, set_in n s)
      else let (e, n) = handle_chip_segment env (io_isn w) (io_now w) (io_ok w) mac ip t (br_tcp s)
           in (e, set_tcp n s))"

definition handle_ipv4 :: "egress_env \<Rightarrow> io \<Rightarrow> ipv4 \<Rightarrow> bridge \<Rightarrow> bridge run option" where
  "handle_ipv4 env w ip s =
     (if ip_protocol ip = IPPROTO_ICMP then Some (br_reply (icmp_handle (br_mac s) ip) s)
      else if ip_protocol ip = IPPROTO_UDP
      then (case udp_parse (ip_payload ip) of
              Inl e \<Rightarrow> Some (if e = ValueError then (None, s) else (Some e, s))
            | Inr u \<Rightarrow> handle_udp env w (br_mac s) ip u s)
      else if ip_protocol ip = IPPROTO_TCP
      then (case tcp_parse (ip_payload ip) of
              Inl e \<Rightarrow> Some (if e = ValueError then (None, s) else (Some e, s))
            | Inr t \<Rightarrow> Some (handle_tcp env w (br_mac s) ip t s))
      else Some (None, s))"

definition learn_mac :: "ethernet \<Rightarrow> bridge \<Rightarrow> bridge" where
  "learn_mac f s = (if \<exists>b \<in> set (eth_src f). b \<noteq> 0 then s\<lparr>br_mac := eth_src f\<rparr> else s)"

definition deliver_packet_out :: "egress_env \<Rightarrow> io \<Rightarrow> bytes \<Rightarrow> bridge \<Rightarrow> bridge run option" where
  "deliver_packet_out env w ether_bytes s =
     (if \<not> br_running s \<or> \<not> wifi_enabled s then Some (None, s)
      else case ethernet_parse ether_bytes of
        Inl e \<Rightarrow> Some (if e = ValueError then (None, s) else (Some e, s))
      | Inr f \<Rightarrow>
          let s1 = learn_mac f s
          in if eth_type f = ETHERTYPE_ARP then Some (br_reply (arp_handle f) s1)
             else if eth_type f \<noteq> ETHERTYPE_IPV4 then Some (None, s1)
             else case ipv4_parse (eth_payload f) of
                 Inl e \<Rightarrow> Some (if e = ValueError then (None, s1) else (Some e, s1))
               | Inr ip \<Rightarrow> handle_ipv4 env w ip s1)"

section \<open>The other entry points\<close>

text \<open>A waiting DNS query resumes in \<^verbatim>\<open>_handle_udp\<close>.\<close>

definition dns_return :: "egress_env \<Rightarrow> nat \<Rightarrow> dns_call \<Rightarrow> bool \<Rightarrow> bytes \<Rightarrow> bridge \<Rightarrow> bridge run" where
  "dns_return env c call timeout mac s =
     (let (r, d) = dns_resume env c call timeout (br_dns s)
      in br_reply (dns_reply_frame mac r) ((set_dns d s)\<lparr>dns_macs := (dns_macs s)(c := None)\<rparr>))"

text \<open>\<^verbatim>\<open>ensure_chip_mac\<close> up to its sleep.\<close>

definition chip_arp :: arp where
  "chip_arp = \<lparr>htype = 1, ptype = ETHERTYPE_IPV4, hlen = 6, plen = 4, opcode = ARP_REQUEST,
     sha = GATEWAY_MAC, spa = ip_const GATEWAY_IP, tha = replicate 6 0, tpa = ip_const STA_IP\<rparr>"

definition ensure_chip_mac :: "bridge \<Rightarrow> bridge run" where
  "ensure_chip_mac s =
     br_reply (bindr (make_frame_arp BROADCAST_MAC GATEWAY_MAC chip_arp) (\<lambda>f. Inr (Some f))) s"

text \<open>\<^verbatim>\<open>http_into_chip\<close>: refused (\<open>False\<close>, the call returns \<^verbatim>\<open>None\<close>) or in the sleep; then the request.\<close>

definition http_into_chip :: "bytes \<Rightarrow> real \<Rightarrow> bridge \<Rightarrow> bool \<times> bridge run" where
  "http_into_chip raw timeout s =
     (if \<not> br_running s \<or> \<not> wifi_enabled s then (False, (None, s))
      else (True, andthen (ensure_chip_mac s)
                    (\<lambda>s1. (None, s1\<lparr>http_calls := http_calls s1 @ [(raw, timeout)]\<rparr>))))"

definition http_request :: "nat \<Rightarrow> int list \<Rightarrow> int \<Rightarrow> bridge \<Rightarrow> bridge" where
  "http_request k draws isn s =
     (let (raw, timeout) = http_calls s ! k;
          s1 = s\<lparr>http_calls := take k (http_calls s) @ drop (Suc k) (http_calls s)\<rparr>
      in set_in (request_start (br_mac s1) draws isn raw timeout (br_in s1)) s1)"

definition stop :: "bridge \<Rightarrow> bridge" where
  "stop s =
     (let s1 = s\<lparr>br_running := False\<rparr>;
          s2 = set_tcp (shutdown (br_tcp s1)) s1;
          s3 = set_in (in_shutdown (br_in s2)) s2
      in set_udp (udp_shutdown (br_udp s3)) s3)"

end
