(* ===== verification/Bridge_Machine.thy ===== *)
theory Bridge_Machine
  imports Bridge Tcp_Steps
begin

text \<open>
  The bridge as a machine, and its components inside it: a step of the bridge is a step of at
  most one component, or of each in turn when it stops. By the locale \<open>simulation\<close> every theorem
  about the runs of a component holds of it in every run of the bridge.
\<close>

section \<open>Steps\<close>

datatype br_event =
    Br_packet io bytes
  | Br_tcp event
  | Br_in in_event
  | Br_udp udp_event
  | Br_dns dns_event
  | Br_dns_return nat bool
  | Br_http bytes real
  | Br_request nat "int list" int
  | Br_start
  | Br_stop

text \<open>
  The steps of a component that its tasks and sockets take on their own; the others are taken
  by the bridge for it. A step of the DNS proxy for another bridge leaves the waiting calls
  of this one alone.
\<close>

definition own_tcp :: "event \<Rightarrow> bool" where
  "own_tcp e \<longleftrightarrow> (case e of Segment _ _ _ _ _ _ \<Rightarrow> False | Shutdown \<Rightarrow> False | _ \<Rightarrow> True)"

definition own_in :: "in_event \<Rightarrow> bool" where
  "own_in e \<longleftrightarrow> (case e of In_packet _ _ _ \<Rightarrow> False | In_request _ _ _ _ _ \<Rightarrow> False | In_shutdown \<Rightarrow> False
     | _ \<Rightarrow> True)"

definition own_udp :: "udp_event \<Rightarrow> bool" where
  "own_udp e \<longleftrightarrow> (case e of Udp_datagram _ _ _ _ _ \<Rightarrow> False | Udp_shutdown \<Rightarrow> False | _ \<Rightarrow> True)"

definition other_dns :: "bridge \<Rightarrow> dns_event \<Rightarrow> bool" where
  "other_dns s e \<longleftrightarrow>
     (case e of Dns_asked r c _ _ _ \<Rightarrow> r \<noteq> br_res s | Dns_answered _ _ _ \<Rightarrow> True
      | Dns_resumed c _ \<Rightarrow> dns_macs s c = None)"

definition io_fits :: "io \<Rightarrow> bool" where
  "io_fits w \<longleftrightarrow> 0 \<le> io_isn w \<and> io_isn w < 4294967296"

inductive br_step :: "egress_env \<Rightarrow> bridge \<Rightarrow> br_event \<Rightarrow> bridge \<Rightarrow> bool" for env where
  br_step_packet:
    "io_fits w \<Longrightarrow> asked (br_dns s) (io_call w) = None \<Longrightarrow>
     deliver_packet_out env w bs s = Some (e, t) \<Longrightarrow> br_step env s (Br_packet w bs) t"
| br_step_tcp: "own_tcp e \<Longrightarrow> nat_step env (br_tcp s) e n \<Longrightarrow> br_step env s (Br_tcp e) (set_tcp n s)"
| br_step_in: "own_in e \<Longrightarrow> in_step (br_in s) e n \<Longrightarrow> br_step env s (Br_in e) (set_in n s)"
| br_step_udp: "own_udp e \<Longrightarrow> udp_step env (br_udp s) e n \<Longrightarrow> br_step env s (Br_udp e) (set_udp n s)"
| br_step_dns:
    "other_dns s e \<Longrightarrow> dns_step env (br_dns s) e d \<Longrightarrow>
     br_step env s (Br_dns e) (s\<lparr>br_dns := d\<rparr>)"
| br_step_dns_return:
    "dns_macs s c = Some mac \<Longrightarrow> asked (br_dns s) c = Some call \<Longrightarrow>
     timeout \<or> task_result (br_dns s) (fst (snd call)) \<noteq> None \<Longrightarrow>
     br_step env s (Br_dns_return c timeout) (snd (dns_return env c call timeout mac s))"
| br_step_http: "br_step env s (Br_http raw timeout) (snd (snd (http_into_chip raw timeout s)))"
| br_step_request:
    "k < length (http_calls s) \<Longrightarrow> length draws = 64 \<Longrightarrow> set draws \<subseteq> {49152..65535} \<Longrightarrow>
     0 \<le> isn \<Longrightarrow> isn < 4294967296 \<Longrightarrow>
     br_step env s (Br_request k draws isn) (http_request k draws isn s)"
| br_step_start: "br_step env s Br_start (start s)"
| br_step_stop: "br_step env s Br_stop (stop s)"

inductive_cases br_stepE: "br_step env s e t"

text \<open>A new bridge; the DNS proxy may have served others before.\<close>

definition br_start :: "egress_env \<Rightarrow> bridge \<Rightarrow> bool" where
  "br_start env s \<longleftrightarrow> (\<exists>ident wifi res dns. runs (dns_step env) dns_new dns \<and> s = bridge_new ident wifi res dns)"

definition br_inv :: "bridge \<Rightarrow> bool" where
  "br_inv s \<longleftrightarrow> length (br_mac s) = 6"

section \<open>What each operation does to the components\<close>

text \<open>Everything but the emitted frames and the events.\<close>

lemma br_log_simps [simp]:
  "br_running (br_log evs s) = br_running s" "br_mac (br_log evs s) = br_mac s"
  "br_dhcp (br_log evs s) = br_dhcp s" "br_dns (br_log evs s) = br_dns s"
  "dns_macs (br_log evs s) = dns_macs s" "br_tcp (br_log evs s) = br_tcp s"
  "br_in (br_log evs s) = br_in s" "br_udp (br_log evs s) = br_udp s"
  "http_calls (br_log evs s) = http_calls s" "wifi_enabled (br_log evs s) = wifi_enabled s"
  "emitted (br_log evs s) = emitted s" "br_ident (br_log evs s) = br_ident s"
  "br_events (br_log evs s) = br_events s @ evs" "br_res (br_log evs s) = br_res s"
  by (simp_all add: br_log_def)

lemma br_inject_simps [simp]:
  "br_running (br_inject fs s) = br_running s" "br_mac (br_inject fs s) = br_mac s"
  "br_dhcp (br_inject fs s) = br_dhcp s" "br_dns (br_inject fs s) = br_dns s"
  "dns_macs (br_inject fs s) = dns_macs s" "br_tcp (br_inject fs s) = br_tcp s"
  "br_in (br_inject fs s) = br_in s" "br_udp (br_inject fs s) = br_udp s"
  "http_calls (br_inject fs s) = http_calls s" "wifi_enabled (br_inject fs s) = wifi_enabled s"
  "br_events (br_inject fs s) = br_events s" "br_ident (br_inject fs s) = br_ident s"
  "br_res (br_inject fs s) = br_res s"
  by (simp_all add: br_inject_def)

lemma set_part_simps [simp]:
  "br_tcp (set_tcp n s) = n" "br_in (set_tcp n s) = br_in s" "br_udp (set_tcp n s) = br_udp s"
  "br_dns (set_tcp n s) = br_dns s" "br_mac (set_tcp n s) = br_mac s" "br_running (set_tcp n s) = br_running s"
  "br_dhcp (set_tcp n s) = br_dhcp s"
  "br_tcp (set_in m s) = br_tcp s" "br_in (set_in m s) = m" "br_udp (set_in m s) = br_udp s"
  "br_dns (set_in m s) = br_dns s" "br_mac (set_in m s) = br_mac s" "br_running (set_in m s) = br_running s"
  "br_dhcp (set_in m s) = br_dhcp s"
  "br_tcp (set_udp l s) = br_tcp s" "br_in (set_udp l s) = br_in s" "br_udp (set_udp l s) = l"
  "br_dns (set_udp l s) = br_dns s" "br_mac (set_udp l s) = br_mac s" "br_running (set_udp l s) = br_running s"
  "br_dhcp (set_udp l s) = br_dhcp s"
  "br_tcp (set_dns d s) = br_tcp s" "br_in (set_dns d s) = br_in s" "br_udp (set_dns d s) = br_udp s"
  "br_dns (set_dns d s) = d" "br_mac (set_dns d s) = br_mac s" "br_running (set_dns d s) = br_running s"
  "br_dhcp (set_dns d s) = br_dhcp s" "emitted (set_dns d s) = emitted s"
  "br_ident (set_tcp n s) = br_ident s" "br_ident (set_in m s) = br_ident s"
  "br_ident (set_udp l s) = br_ident s" "br_ident (set_dns d s) = br_ident s"
  "br_res (set_tcp n s) = br_res s" "br_res (set_in m s) = br_res s"
  "br_res (set_udp l s) = br_res s" "br_res (set_dns d s) = br_res s"
  by (simp_all add: set_tcp_def set_in_def set_udp_def set_dns_def Let_def)

lemma br_reply_simps [simp]:
  "br_tcp (snd (br_reply r s)) = br_tcp s" "br_in (snd (br_reply r s)) = br_in s"
  "br_udp (snd (br_reply r s)) = br_udp s" "br_dns (snd (br_reply r s)) = br_dns s"
  "br_mac (snd (br_reply r s)) = br_mac s" "br_running (snd (br_reply r s)) = br_running s"
  "br_dhcp (snd (br_reply r s)) = br_dhcp s" "br_events (snd (br_reply r s)) = br_events s"
  "br_ident (snd (br_reply r s)) = br_ident s" "br_res (snd (br_reply r s)) = br_res s"
  by (auto simp: br_reply_def split: sum.splits option.splits)

text \<open>The steps of the components that handle one frame of the chip.\<close>

definition packet_effect :: "egress_env \<Rightarrow> bridge \<Rightarrow> bridge \<Rightarrow> bool" where
  "packet_effect env s t \<longleftrightarrow> length (br_mac t) = 6 \<and>
     runs (nat_step env) (br_tcp s) (br_tcp t) \<and> runs in_step (br_in s) (br_in t) \<and>
     runs (udp_step env) (br_udp s) (br_udp t) \<and> runs (dns_step env) (br_dns s) (br_dns t)"

lemma effect_same:
  "length (br_mac t) = 6 \<Longrightarrow> br_tcp t = br_tcp s \<Longrightarrow> br_in t = br_in s \<Longrightarrow> br_udp t = br_udp s \<Longrightarrow>
   br_dns t = br_dns s \<Longrightarrow> packet_effect env s t"
  by (simp add: packet_effect_def runs_refl)

lemma effect_tcp:
  assumes "length mac = 6" "wf_ipv4 ip" "parsed_tcp t" "io_fits w" "length (br_mac s) = 6"
  shows "packet_effect env s (snd (handle_tcp env w mac ip t s))"
proof (cases "matches ip t (br_in s)")
  case True
  then have "in_step (br_in s) (In_packet mac ip t) (snd (in_handle_segment mac t (br_in s)))"
    using assms by (intro in_step_packet)
  then show ?thesis
    using assms True by (simp add: packet_effect_def handle_tcp_def split_beta runs_refl runs_one)
next
  case False
  have "nat_step env (br_tcp s) (Segment (io_isn w) (io_now w) (io_ok w) mac ip t)
      (snd (handle_chip_segment env (io_isn w) (io_now w) (io_ok w) mac ip t (br_tcp s)))"
    using assms by (intro step_segment) (simp_all add: io_fits_def)
  then show ?thesis
    using assms False by (simp add: packet_effect_def handle_tcp_def split_beta runs_refl runs_one)
qed

lemma effect_udp:
  assumes "length mac = 6" "wf_ipv4 ip" "wf_udp u" "length (br_mac s) = 6"
    "asked (br_dns s) (io_call w) = None" "handle_udp env w mac ip u s = Some r"
  shows "packet_effect env s (snd r)"
proof -
  have dhcp: "packet_effect env s (snd (handle_dhcp mac u s))"
    using assms(4) by (intro effect_same) (simp_all add: handle_dhcp_def split_beta)
  have dns: "packet_effect env s (snd r)" if r: "handle_dns env w mac ip u s = Some r"
  proof -
    obtain x d where h: "dns_handle env (io_now w) (br_res s) (io_call w) (ip_src ip) u (br_dns s) = Some (x, d)"
      using r unfolding handle_dns_def
      by (cases "dns_handle env (io_now w) (br_res s) (io_call w) (ip_src ip) u (br_dns s)") auto
    then have "dns_step env (br_dns s) (Dns_asked (br_res s) (io_call w) (io_now w) (ip_src ip) u) d"
      using assms(5) by (intro dns_step_asked)
    then show ?thesis
      using assms(4) r h
      by (auto simp: handle_dns_def Let_def packet_effect_def runs_refl runs_one split: sum.splits)
  qed
  have "udp_step env (br_udp s) (Udp_datagram (io_now w) (io_ok w) mac ip u)
      (handle_chip_datagram env (io_now w) (io_ok w) mac ip u (br_udp s))"
    using assms by (intro udp_step_datagram)
  then show ?thesis
    using assms dhcp dns
    by (auto simp: handle_udp_def packet_effect_def runs_refl runs_one split: if_splits)
qed

lemma effect_ipv4:
  assumes "wf_ipv4 ip" "length (br_mac s) = 6" "io_fits w" "asked (br_dns s) (io_call w) = None"
    "handle_ipv4 env w ip s = Some r"
  shows "packet_effect env s (snd r)"
  using assms effect_same [of s s env]
  by (auto simp: handle_ipv4_def split: if_splits sum.splits
      intro: effect_tcp tcp_parse_parsed effect_udp udp_parse_wf effect_same)

lemma learn_mac_simps [simp]:
  "br_tcp (learn_mac f s) = br_tcp s" "br_in (learn_mac f s) = br_in s"
  "br_udp (learn_mac f s) = br_udp s" "br_dns (learn_mac f s) = br_dns s"
  "br_running (learn_mac f s) = br_running s" "emitted (learn_mac f s) = emitted s"
  "br_events (learn_mac f s) = br_events s" "br_ident (learn_mac f s) = br_ident s"
  "br_res (learn_mac f s) = br_res s"
  by (simp_all add: learn_mac_def)

lemma effect_packet:
  assumes "br_inv s" "io_fits w" "asked (br_dns s) (io_call w) = None"
    "deliver_packet_out env w bs s = Some r"
  shows "packet_effect env s (snd r)"
proof -
  have mac: "length (br_mac s) = 6" using assms(1) by (simp add: br_inv_def)
  have learned: "length (br_mac (learn_mac f s)) = 6" if "ethernet_parse bs = Inr f" for f
    using eth.dec_wf [OF that] mac by (simp add: learn_mac_def wf_ethernet_def)
  have ip: "packet_effect env s (snd r)"
    if "ethernet_parse bs = Inr f" "ipv4_parse p = Inr ip" "handle_ipv4 env w ip (learn_mac f s) = Some r" for f p ip
    using effect_ipv4 [OF ipv4_parse_wf [OF that(2)] learned [OF that(1)] assms(2) _ that(3)] assms(3)
    by (simp add: packet_effect_def)
  have same: "packet_effect env s s" "ethernet_parse bs = Inr f \<Longrightarrow> packet_effect env s (learn_mac f s)"
    "ethernet_parse bs = Inr f \<Longrightarrow> packet_effect env s (snd (br_reply x (learn_mac f s)))" for f x
    using mac learned [of f] by (simp_all add: effect_same)
  show ?thesis
    using assms(4) by (auto simp: deliver_packet_out_def Let_def same split: if_splits sum.splits intro: ip)
qed

text \<open>The other steps.\<close>

lemma effect_http:
  "length (br_mac s) = 6 \<Longrightarrow> packet_effect env s (snd (snd (http_into_chip raw timeout s)))"
  by (intro effect_same)
    (auto simp: http_into_chip_def ensure_chip_mac_def br_reply_def andthen_def split: sum.split option.split)

lemma effect_request:
  assumes "length (br_mac s) = 6" "length draws = 64" "set draws \<subseteq> {49152..65535}" "0 \<le> isn" "isn < 4294967296"
  shows "packet_effect env s (http_request k draws isn s)"
proof -
  have "runs in_step (br_in s) (request_start (br_mac s) draws isn raw timeout (br_in s))" for raw timeout
    using assms by (intro runs_one [of in_step, OF in_step_request])
  then show ?thesis
    using assms(1) by (simp add: packet_effect_def http_request_def Let_def split_beta runs_refl runs_one)
qed

lemma effect_dns_return:
  assumes "length (br_mac s) = 6" "asked (br_dns s) c = Some call"
    "timeout \<or> task_result (br_dns s) (fst (snd call)) \<noteq> None"
  shows "packet_effect env s (snd (dns_return env c call timeout mac s))"
proof -
  have "dns_step env (br_dns s) (Dns_resumed c timeout) (snd (dns_resume env c call timeout (br_dns s)))"
    using assms by (intro dns_step_resumed)
  then show ?thesis
    using assms(1) by (simp add: packet_effect_def dns_return_def split_beta runs_refl runs_one)
qed

lemma effect_start: "length (br_mac s) = 6 \<Longrightarrow> packet_effect env s (start s)"
  by (intro effect_same) (simp_all add: start_def)

lemma effect_stop: "length (br_mac s) = 6 \<Longrightarrow> packet_effect env s (stop s)"
  using runs_one [of "nat_step env", OF step_shutdown] runs_one [of in_step, OF in_step_shutdown]
    runs_one [of "udp_step env", OF udp_step_shutdown]
  by (simp add: packet_effect_def stop_def Let_def runs_refl)

lemma br_effect:
  assumes inv: "br_inv s" and step: "br_step env s e t"
  shows "packet_effect env s t"
proof -
  have mac: "length (br_mac s) = 6" using inv by (simp add: br_inv_def)
  show ?thesis
    using step
  proof cases
    case (br_step_packet w bs e)
    then show ?thesis using effect_packet [OF inv, of w env bs "(e, t)"] by simp
  next
    case (br_step_tcp e n)
    then show ?thesis using mac runs_one [of "nat_step env"] by (auto simp: packet_effect_def runs_refl)
  next
    case (br_step_in e n)
    then show ?thesis using mac runs_one [of in_step] by (auto simp: packet_effect_def runs_refl)
  next
    case (br_step_udp e n)
    then show ?thesis using mac runs_one [of "udp_step env"] by (auto simp: packet_effect_def runs_refl)
  next
    case (br_step_dns e d)
    then show ?thesis using mac runs_one [of "dns_step env"] by (auto simp: packet_effect_def runs_refl)
  qed (use mac in \<open>simp_all add: effect_request effect_dns_return effect_http effect_start effect_stop\<close>)
qed

interpretation bridge: machine "br_start env" "br_step env" br_inv for env
proof unfold_locales
  show "br_start env s \<Longrightarrow> br_inv s" for s by (auto simp: br_start_def br_inv_def bridge_new_def)
  show "br_inv s \<Longrightarrow> br_step env s e t \<Longrightarrow> br_inv t" for s e t
    using br_effect by (auto simp: packet_effect_def br_inv_def)
qed

interpretation tcp_in_bridge: simulation "br_start env" "br_step env" br_inv br_tcp "nat_step env" for env
  by unfold_locales (auto dest: br_effect simp: packet_effect_def)

interpretation inbound_in_bridge: simulation "br_start env" "br_step env" br_inv br_in in_step for env
  by unfold_locales (auto dest: br_effect simp: packet_effect_def)

interpretation udp_in_bridge: simulation "br_start env" "br_step env" br_inv br_udp "udp_step env" for env
  by unfold_locales (auto dest: br_effect simp: packet_effect_def)

interpretation dns_in_bridge: simulation "br_start env" "br_step env" br_inv br_dns "dns_step env" for env
  by unfold_locales (auto dest: br_effect simp: packet_effect_def)

lemma bridge_parts:
  assumes "br_start env s" "runs (br_step env) s t"
  shows "runs (nat_step env) nat_new (br_tcp t)" "runs in_step in_new (br_in t)"
    "runs (udp_step env) udp_new (br_udp t)" "runs (dns_step env) dns_new (br_dns t)"
proof -
  have s: "br_tcp s = nat_new" "br_in s = in_new" "br_udp s = udp_new" "runs (dns_step env) dns_new (br_dns s)"
    using assms(1) by (auto simp: br_start_def bridge_new_def)
  show "runs (nat_step env) nat_new (br_tcp t)"
    using tcp_in_bridge.part_reachable [OF assms] s by (simp add: runs_refl)
  show "runs in_step in_new (br_in t)"
    using inbound_in_bridge.part_reachable [OF assms] s by (simp add: runs_refl)
  show "runs (udp_step env) udp_new (br_udp t)"
    using udp_in_bridge.part_reachable [OF assms] s by (simp add: runs_refl)
  show "runs (dns_step env) dns_new (br_dns t)"
    using dns_in_bridge.part_reachable [OF assms s(4)] .
qed

end
