(* ===== verification/Bridge_Properties.thy ===== *)
theory Bridge_Properties
  imports Bridge_Machine Tcp_Behaviour Udp_Properties Dns_Properties Inbound_Properties
begin

text \<open>
  Properties of the whole bridge: its components keep their theorems inside it, no socket
  escapes the egress guard, no packet but a DNS query can raise, and a stopped bridge is
  silent.
\<close>

section \<open>A packet\<close>

text \<open>A datagram of the station to port 123 of a public host, as an Ethernet frame.\<close>

definition sample_packet :: bytes where
  "sample_packet = GATEWAY_MAC @ STA_MAC @ [8, 0] @
     [0x45, 0, 0, 31, 0, 0, 0x40, 0, 64, 17, 0, 0, 10, 13, 37, 42, 93, 184, 216, 34] @
     [195, 80, 0, 123, 0, 11, 0, 0] @ [1, 2, 3]"

definition sample_ident :: bridge_identity where
  "sample_ident = \<lparr>ev_client_id = str_of ''tab-1'', ev_user_id = None, ev_project_id = None,
     ev_session_id = None, ev_board_kind = str_of ''pi-pico-w''\<rparr>"

definition sample_io :: io where
  "sample_io = \<lparr>io_now = 0, io_isn = 0, io_ok = True, io_call = 0\<rparr>"

definition packet_ip :: ipv4 where
  "packet_ip = \<lparr>ip_version = 4, ip_ihl = 5, ip_dscp = 0, ip_ecn = 0, ip_total_length = 31, ip_ident = 0,
     ip_flags = 2, ip_frag_offset = 0, ip_ttl = 64, ip_protocol = 17, ip_checksum = 0,
     ip_src = [10, 13, 37, 42], ip_dst = [93, 184, 216, 34],
     ip_payload = [195, 80, 0, 123, 0, 11, 0, 0, 1, 2, 3]\<rparr>"

definition packet_udp :: udp where
  "packet_udp = \<lparr>udp_src_port = 50000, udp_dst_port = 123, udp_length = 11, udp_checksum = 0,
     udp_payload = [1, 2, 3]\<rparr>"

lemma sample_packet_parses:
  "ethernet_parse sample_packet =
     Inr \<lparr>eth_dst = GATEWAY_MAC, eth_src = STA_MAC, eth_type = 2048, eth_payload = drop 14 sample_packet\<rparr>"
  "ipv4_parse (drop 14 sample_packet) = Inr packet_ip"
  "udp_parse (ip_payload packet_ip) = Inr packet_udp"
  by code_simp+

lemma sample_delivered_to:
  assumes "br_running b" "wifi_enabled b" "br_mac b = STA_MAC"
  shows "deliver_packet_out env sample_io sample_packet b =
    Some (None, set_udp (handle_chip_datagram env 0 True STA_MAC packet_ip packet_udp (br_udp b)) b)"
proof -
  have "learn_mac \<lparr>eth_dst = GATEWAY_MAC, eth_src = STA_MAC, eth_type = 2048,
      eth_payload = drop 14 sample_packet\<rparr> b = b"
    using assms(3) by (simp add: learn_mac_def)
  moreover have "ip_protocol packet_ip = 17" "udp_dst_port packet_udp = 123" "udp_src_port packet_udp = 50000"
    by (simp_all add: packet_ip_def packet_udp_def)
  ultimately show ?thesis
    using assms
    by (simp add: deliver_packet_out_def sample_packet_parses Let_def handle_ipv4_def handle_udp_def
        is_dhcp_traffic_def is_dns_traffic_def sample_io_def ethertype_defs
        IPPROTO_ICMP_def IPPROTO_UDP_def)
qed

lemma sample_delivered:
  "deliver_packet_out public_env sample_io sample_packet (bridge_new sample_ident True 0 dns_new) =
     Some (None, set_udp (handle_chip_datagram public_env 0 True STA_MAC packet_ip packet_udp udp_new)
       (bridge_new sample_ident True 0 dns_new))"
  using sample_delivered_to [of "bridge_new sample_ident True 0 dns_new"] by (simp add: bridge_new_def)

lemma sample_opens:
  "next_transport (handle_chip_datagram public_env 0 True STA_MAC packet_ip packet_udp udp_new) = 1"
  "pending_opens (handle_chip_datagram public_env 0 True STA_MAC packet_ip packet_udp udp_new) =
     (\<lambda>_. None)(0 \<mapsto> (STA_MAC, packet_ip, packet_udp))"
  by (simp_all add: handle_chip_datagram_def udp_new_def dict_get_def open_flow_def Let_def
      packet_ip_def packet_udp_def dial_host_sample sample_allowed)

definition bridge_asked :: bridge where
  "bridge_asked = set_udp (handle_chip_datagram public_env 0 True STA_MAC packet_ip packet_udp udp_new)
     (bridge_new sample_ident True 0 dns_new)"

lemma bridge_start_new: "br_start env (bridge_new ident wifi res dns_new)"
  unfolding br_start_def using runs_refl [of "dns_step env" dns_new] by blast

lemma bridge_asked_run: "runs (br_step public_env) (bridge_new sample_ident True 0 dns_new) bridge_asked"
proof (rule runs_one)
  show "br_step public_env (bridge_new sample_ident True 0 dns_new) (Br_packet sample_io sample_packet) bridge_asked"
    using sample_delivered
    by (intro br_step_packet) (simp_all add: io_fits_def sample_io_def bridge_new_def dns_new_def bridge_asked_def)
qed

lemma bridge_asked_opens:
  "udp_opens (udp_trace (br_udp bridge_asked)) = [(0, bytes_to_ip [93, 184, 216, 34], 123)]"
  by (simp add: bridge_asked_def handle_chip_datagram_def udp_new_def dict_get_def open_flow_def Let_def
      packet_ip_def packet_udp_def dial_host_sample sample_allowed)

section \<open>The components inside the bridge\<close>



text \<open>C2: No packet of the chip makes the gateway open a socket behind the egress guard's back. In
  every run of a bridge, each TCP dial and each UDP endpoint was let through by the guard for
  exactly its address and port; without the override the address is a dotted quad of four
  bytes outside every private, loopback, link-local, multicast and reserved range.\<close>

theorem bridge_sockets_guarded:
  assumes "br_start env s" "runs (br_step env) s t"
    "(n, host, port) \<in> set (dials (trace (br_tcp t))) \<union> set (udp_opens (udp_trace (br_udp t)))"
  shows "fst (is_allowed_dst env host port) \<and>
    (\<not> allow_private env \<longrightarrow> (\<exists>a b c d. host = bytes_to_ip [a, b, c, d] \<and>
       \<not> blocked_octets (uint a) (uint b) (uint c) (uint d)))"
  using assms(3) dials_respect_guard [OF nat_start_new bridge_parts(1) [OF assms(1,2)]]
    udp_opens_respect_guard [OF bridge_parts(3) [OF assms(1,2)]]
  by blast

theorem bridge_sockets_guarded_witness:
  "fst (is_allowed_dst public_env (bytes_to_ip [93, 184, 216, 34]) 123)"
  using bridge_sockets_guarded [OF bridge_start_new bridge_asked_run,
      of 0 "bytes_to_ip [93, 184, 216, 34]" 123] bridge_asked_opens by simp

section \<open>Exceptions\<close>

text \<open>The packets that go to the resolver.\<close>

definition is_dns_query :: "bytes \<Rightarrow> bool" where
  "is_dns_query bs \<longleftrightarrow> (\<exists>f ip u. ethernet_parse bs = Inr f \<and> ipv4_parse (eth_payload f) = Inr ip \<and>
     ip_protocol ip = IPPROTO_UDP \<and> udp_parse (ip_payload ip) = Inr u \<and>
     is_dns_traffic u \<and> \<not> is_dhcp_traffic u \<and> ip_dst ip = ip_const GATEWAY_IP)"

lemma br_reply_ok: "r = Inr x \<Longrightarrow> fst (br_reply r s) = None"
  by (simp add: br_reply_def split: option.split)

lemma arp_handle_ok: "\<exists>x. arp_handle f = Inr x"
  using arp_handle_cases [of f] by (auto split: option.splits)

lemma icmp_handle_ok: "wf_ipv4 ip \<Longrightarrow> length mac = 6 \<Longrightarrow> \<exists>x. icmp_handle mac ip = Inr x"
  using icmp_handle_cases [of ip mac] by (auto split: option.splits)

lemma handle_dhcp_ok:
  assumes "length mac = 6"
  shows "fst (handle_dhcp mac u s) = None"
proof -
  obtain x where x: "fst (dhcp_handle (br_dhcp s) mac u) = Inr x"
    "case x of None \<Rightarrow> True
     | Some (d, s, out) \<Rightarrow> length d = 4 \<and> length s = 4 \<and> wf_udp out \<and> length (udp_payload out) = 286"
    using dhcp_handle_fits [OF assms] by blast
  show ?thesis
  proof (cases x)
    case None
    then show ?thesis using x by (simp add: handle_dhcp_def split_beta br_reply_ok)
  next
    case (Some reply)
    obtain d src out where r: "reply = (d, src, out)" by (cases reply)
    then have wf: "length d = 4" "length src = 4" "wf_udp out" "length (udp_payload out) = 286"
      using x(2) Some by simp_all
    obtain l4 where l4: "udp_to_bytes out src d = Inr l4" "length l4 = 294"
      using wf by (auto simp: udp_encode)
    then obtain f where "make_frame_ipv4 BROADCAST_MAC GATEWAY_MAC src d 17 l4 = Inr f"
      using make_frame_ipv4_view [of BROADCAST_MAC GATEWAY_MAC src d 17 l4] wf by auto
    then show ?thesis
      using x(1) Some r l4 by (simp add: handle_dhcp_def split_beta make_dhcp_frame_def br_reply_ok)
  qed
qed

lemma handle_tcp_ok:
  assumes "nat_inv (br_tcp s)" "in_inv (br_in s)" "length mac = 6" "wf_ipv4 ip" "parsed_tcp t" "io_fits w"
  shows "fst (handle_tcp env w mac ip t s) = None"
proof (cases "matches ip t (br_in s)")
  case True
  then obtain i where "dict_get (in_conns (br_in s)) (dst_port t) = Some i" by (auto simp: matches_entry)
  then have "fst (in_handle_segment mac t (br_in s)) = None"
    using segment_reacts [OF assms(2,3)] reacts_fields(1) by blast
  then show ?thesis using True by (simp add: handle_tcp_def split_beta)
next
  case False
  then show ?thesis
    using handle_chip_segment_inv [OF assms(1,3-5), of "io_isn w" env "io_now w" "io_ok w"] assms(6)
    by (auto simp: handle_tcp_def io_fits_def)
qed

lemma handled_without_raise:
  assumes "br_start env s" "runs (br_step env) s t" "io_fits w" "\<not> is_dns_query bs"
  shows "(\<exists>u. deliver_packet_out env w bs t = Some (None, u)) \<and>
    fst (snd (http_into_chip raw timeout t)) = None"
proof -
  note p = bridge_parts [OF assms(1,2)]
  have mac: "length (br_mac t) = 6" using bridge.inv_reachable [OF assms(1,2)] by (simp add: br_inv_def)
  have inv: "nat_inv (br_tcp t)" "in_inv (br_in t)"
    using nat.inv_reachable [OF nat_start_new p(1)] inbound.inv_reachable [OF refl p(2)] by simp_all
  have "\<exists>u. handle_ipv4 env w ip (learn_mac f t) = Some (None, u)"
    if f: "ethernet_parse bs = Inr f" and ip: "ipv4_parse (eth_payload f) = Inr ip" for f ip
  proof -
    let ?s = "learn_mac f t"
    have wf: "wf_ipv4 ip" using ip by (rule ipv4_parse_wf)
    have m: "length (br_mac ?s) = 6"
      using eth.dec_wf [OF f] mac by (simp add: learn_mac_def wf_ethernet_def)
    have "fst (br_reply (icmp_handle (br_mac ?s) ip) ?s) = None"
      using icmp_handle_ok [OF wf m] br_reply_ok by blast
    moreover have "\<exists>v. handle_udp env w (br_mac ?s) ip u ?s = Some (None, v)"
      if "ip_protocol ip = IPPROTO_UDP" "udp_parse (ip_payload ip) = Inr u" for u
      using that assms(4) f ip handle_dhcp_ok [OF m, of u ?s]
      by (cases "handle_dhcp (br_mac ?s) u ?s") (auto simp: handle_udp_def is_dns_query_def)
    moreover have "fst (handle_tcp env w (br_mac ?s) ip u ?s) = None" if "tcp_parse (ip_payload ip) = Inr u" for u
      using handle_tcp_ok [of ?s "br_mac ?s" ip u w env] inv m wf tcp_parse_parsed(1) [OF that] assms(3) by simp
    ultimately show ?thesis
      using udp.only_value_error [of "ip_payload ip"] tcp.only_value_error [of "ip_payload ip"]
      by (auto simp: handle_ipv4_def prod_eq_iff split: sum.split)
  qed
  moreover have "\<exists>u. br_reply (arp_handle f) (learn_mac f t) = (None, u)" for f
    using arp_handle_ok [of f] br_reply_ok prod.collapse by metis
  ultimately have "\<exists>u. deliver_packet_out env w bs t = Some (None, u)"
    using eth.only_value_error [of bs] ipv4.only_value_error
    by (auto simp: deliver_packet_out_def Let_def split: sum.split)
  moreover have "wf_arp chip_arp"
    by (simp add: chip_arp_def wf_arp_def ETHERTYPE_IPV4_def ARP_REQUEST_def)
  then obtain f where "make_frame_arp BROADCAST_MAC GATEWAY_MAC chip_arp = Inr f"
    using make_frame_arp_view [of BROADCAST_MAC GATEWAY_MAC chip_arp] by auto
  then have "fst (snd (http_into_chip raw timeout t)) = None"
    by (simp add: http_into_chip_def ensure_chip_mac_def br_reply_def)
  ultimately show ?thesis by blast
qed



section \<open>A stopped bridge\<close>

lemma udp_opens_reap [simp]: "udp_opens (udp_trace (reap_flow k s)) = udp_opens (udp_trace s)"
  by (simp add: reap_flow_def split: option.split)

lemma udp_opens_fold [simp]: "udp_opens (udp_trace (fold reap_flow ks s)) = udp_opens (udp_trace s)"
  by (induction ks arbitrary: s) simp_all

lemma udp_opens_use [simp]: "udp_opens (udp_trace (use_flow now ok k f p s)) = udp_opens (udp_trace s)"
  by (simp add: use_flow_def Let_def)

text \<open>Only a datagram of the chip can make the UDP NAT open an endpoint.\<close>

lemma udp_own_opens:
  assumes "own_udp e \<or> e = Udp_shutdown" "udp_step env s e t"
  shows "udp_opens (udp_trace t) = udp_opens (udp_trace s)"
  using assms(2,1)
  by cases (auto simp: own_udp_def flow_opened_def on_host_datagram_def reaper_wake_def udp_shutdown_def
      Let_def split: option.split sum.split)

definition sockets :: "bridge \<Rightarrow> (nat \<times> pystr \<times> int) list" where
  "sockets s = dials (trace (br_tcp s)) @ udp_opens (udp_trace (br_udp s))"

text \<open>Nothing leaves a bridge that does not run.\<close>

definition silent_step :: "bridge \<Rightarrow> bridge \<Rightarrow> bool" where
  "silent_step s t \<longleftrightarrow> \<not> br_running t \<and> emitted t = emitted s \<and> sockets t = sockets s"

lemma silent_trans: "silent_step s t \<Longrightarrow> silent_step t u \<Longrightarrow> silent_step s u"
  by (simp add: silent_step_def)

lemma stopped_emitted [simp]:
  "\<not> br_running s \<Longrightarrow> emitted (br_inject fs s) = emitted s"
  "\<not> br_running s \<Longrightarrow> emitted (set_tcp n s) = emitted s"
  "\<not> br_running s \<Longrightarrow> emitted (set_in m s) = emitted s"
  "\<not> br_running s \<Longrightarrow> emitted (set_udp l s) = emitted s"
  "\<not> br_running s \<Longrightarrow> emitted (snd (br_reply r s)) = emitted s"
  by (auto simp: br_inject_def set_tcp_def set_in_def set_udp_def br_reply_def Let_def split: sum.split option.split)

lemma udp_shutdown_opens: "udp_opens (udp_trace (udp_shutdown s)) = udp_opens (udp_trace s)"
  by (rule udp_own_opens [OF disjI2 [OF refl] udp_step_shutdown])

lemma stop_emitted:
  "emitted (stop s) = emitted s" "\<not> br_running (stop s)" "br_tcp (stop s) = shutdown (br_tcp s)"
  "br_in (stop s) = in_shutdown (br_in s)" "br_udp (stop s) = udp_shutdown (br_udp s)"
  "sockets (stop s) = sockets s"
  by (simp_all add: stop_def Let_def sockets_def dials_shutdown udp_shutdown_opens)

lemma stopped_step:
  assumes inv: "nat_inv (br_tcp s)" and off: "\<not> br_running s" and step: "br_step env s e t"
  shows "silent_step s t"
  using step
proof cases
  case (br_step_packet w bs e)
  then show ?thesis using off by (simp add: deliver_packet_out_def silent_step_def)
next
  case (br_step_tcp ev n)
  have "dials (trace n) = dials (trace (br_tcp s))"
    using step_dials_same [OF inv br_step_tcp(4)] br_step_tcp(3) by (cases ev) (auto simp: own_tcp_def)
  then show ?thesis using off br_step_tcp by (simp add: silent_step_def sockets_def)
next
  case (br_step_udp e n)
  then have "udp_opens (udp_trace n) = udp_opens (udp_trace (br_udp s))" using udp_own_opens by blast
  then show ?thesis using off br_step_udp by (simp add: silent_step_def sockets_def)
next
  case br_step_stop
  then show ?thesis using stop_emitted [of s] by (simp add: silent_step_def)
qed (use off in \<open>simp_all add: silent_step_def sockets_def dns_return_def split_beta http_request_def
    http_into_chip_def start_def Let_def\<close>)

lemma stopped_runs:
  assumes "br_start env s" "runs (br_step env) s t" "\<not> br_running t" "runs (br_step env) t u"
  shows "silent_step t u"
proof -
  have "silent_step t u \<and> runs (br_step env) s u"
    using assms(4)
  proof (rule runs_induct)
    show "silent_step t t \<and> runs (br_step env) s t" using assms(2,3) by (simp add: silent_step_def)
    fix v e x
    assume v: "silent_step t v \<and> runs (br_step env) s v" and step: "br_step env v e x"
    have "nat_inv (br_tcp v)"
      using nat.inv_reachable [OF nat_start_new bridge_parts(1) [OF assms(1)]] v by blast
    moreover have "\<not> br_running v" using v by (simp add: silent_step_def)
    ultimately have "silent_step v x" using step by (rule stopped_step)
    then show "silent_step t x \<and> runs (br_step env) s x"
      using v step silent_trans runs_step by metis
  qed
  then show ?thesis by blast
qed



end
