(* ===== verification/Bridge_Outputs.thy ===== *)
theory Bridge_Outputs
  imports Bridge_Properties
begin

text \<open>
  What leaves a bridge: the frames it hands to the chip, all of which a strict receiver
  accepts, and the events it hands to the egress log, which account for every socket.
\<close>

section \<open>Where a DNS answer goes\<close>

text \<open>A reply goes to the address that asked, from a four-byte address.\<close>

definition reply_to :: "bytes \<Rightarrow> dns_reply res \<Rightarrow> bool" where
  "reply_to src r \<longleftrightarrow> (\<forall>d s u. r = Inr (Some (d, s, u)) \<longrightarrow> d = src \<and> length s = 4)"

lemma wrap_reply_to [simp]: "reply_to src (wrap src u m)"
  by (auto simp: reply_to_def wrap_def bindr_eq_Inr ip_constants)

lemma answer_query_to: "reply_to src (fst (answer_query src u req n as s))"
  by (auto simp: answer_query_def reply_to_def [of src "Inr None"] split: option.split list.split)

lemma answer_query_asked: "asked (snd (answer_query src u req n as s)) = asked s"
  by (auto simp: answer_query_def dns_emit_def split: option.split list.split)

lemma resolve_start_asked: "asked (snd (resolve_start env now r h s)) = asked s"
  by (auto simp: resolve_start_def cache_get_def start_task_def split: option.split)

lemma resolve_end_asked: "asked (snd (resolve_end env r h x s)) = asked s"
  by (auto simp: resolve_end_def split: option.split sum.split)

lemma dns_handle_result:
  assumes "dns_handle env now r c src u s = Some (x, t)"
  shows "case x of Inl reply \<Rightarrow> reply_to src reply \<and> asked t = asked s
    | Inr tid \<Rightarrow> \<exists>req. asked t = (asked s)(c := Some (r, tid, src, u, req))"
proof -
  have silent: "reply_to src (Inr None)" "reply_to src (Inl e)" for e by (simp_all add: reply_to_def)
  have start: "asked s1 = asked s" if "resolve_start env now r h s = (y, s1)" for y h s1
    using resolve_start_asked [of env now r h s] that by simp
  have answer: "reply_to src reply \<and> asked s2 = asked s1"
    if "answer_query src u req n as s1 = (reply, s2)" for req n as s1 s2 reply
    using answer_query_to [of src u req n as s1] answer_query_asked [of src u req n as s1] that by simp
  show ?thesis
    using assms
    by (auto simp: dns_handle_def silent dns_emit_def Let_def split: option.splits sum.splits list.splits
        prod.splits if_splits dest!: start answer)
qed

definition call_from :: "dns_call \<Rightarrow> bytes" where
  "call_from = (\<lambda>(r, tid, src, u, req). src)"

lemma call_from [simp]: "call_from (r, tid, src, u, req) = src"
  by (simp add: call_from_def)

lemma dns_resume_result:
  "reply_to (call_from call) (fst (dns_resume env c call timeout s)) \<and>
   asked (snd (dns_resume env c call timeout s)) = (asked s)(c := None)"
proof -
  obtain r tid src u req where call: "call = (r, tid, src, u, req)" by (cases call)
  let ?h = "fst (hd (qd req))" and ?s = "s\<lparr>asked := (asked s)(c := None)\<rparr>"
  obtain x s2 where e: "resolve_end env r ?h (if timeout then None else task_result s tid) ?s = (x, s2)"
    by (cases "resolve_end env r ?h (if timeout then None else task_result s tid) ?s")
  then have "asked s2 = (asked s)(c := None)"
    using resolve_end_asked [of env r ?h "if timeout then None else task_result s tid" ?s] by simp
  then show ?thesis
    using e answer_query_to answer_query_asked
    by (auto simp: dns_resume_def call Let_def reply_to_def [of src "Inl _"] split: sum.split)
qed

lemma dns_reply_frame_ok:
  assumes "reply_to src r" "length src = 4" "length mac = 6" "dns_reply_frame mac r = Inr (Some f)"
  shows "frame_ok f"
proof -
  obtain d s u where r: "r = Inr (Some (d, s, u))" "make_dns_frame mac s d u = Inr f"
    using assms(4) by (auto simp: dns_reply_frame_def bindr_eq_Inr split: option.splits)
  then have "udp_frame mac s d u = Inr f" by (simp add: make_dns_frame_def udp_frame_def IPPROTO_UDP_def)
  then show ?thesis using assms(1-3) r(1) udp_frame_ok [of mac s d u f] by (auto simp: reply_to_def)
qed

section \<open>The invariant\<close>

definition events_of :: "string \<Rightarrow> egress_event list \<Rightarrow> egress_event list" where
  "events_of protocol evs = filter (\<lambda>ev. ev_protocol ev = protocol) evs"

text \<open>The events of the two NATs are the records in their traces, with the bridge's identity.\<close>

definition logged :: "bridge \<Rightarrow> bool" where
  "logged b \<longleftrightarrow> list_all frame_ok (emitted b) \<and>
     (\<forall>ev \<in> set (br_events b). bridge_identity.truncate ev = br_ident b \<and>
        ev_protocol ev \<in> {''tcp'', ''udp'', ''dns''}) \<and>
     events_of ''tcp'' (br_events b) = map (nat_event (br_ident b) ''tcp'') (nat_records (trace (br_tcp b))) \<and>
     events_of ''udp'' (br_events b) = map (nat_event (br_ident b) ''udp'') (udp_records (udp_trace (br_udp b)))"

text \<open>A waiting resolver call knows where to send its answer.\<close>

definition asked_by :: "nat \<Rightarrow> dns_call option \<Rightarrow> bool" where
  "asked_by r x \<longleftrightarrow>
     (case x of None \<Rightarrow> False | Some call \<Rightarrow> fst call = r \<and> length (call_from call) = 4)"

lemma asked_by_simps [simp]:
  "\<not> asked_by r None" "asked_by r (Some (r', tid, src, u, req)) \<longleftrightarrow> r' = r \<and> length src = 4"
  by (auto simp: asked_by_def)

definition waits_ok :: "bridge \<Rightarrow> bool" where
  "waits_ok b \<longleftrightarrow> (\<forall>c mac. dns_macs b c = Some mac \<longrightarrow> length mac = 6 \<and>
     asked_by (br_res b) (asked (br_dns b) c))"

definition parts_ok :: "egress_env \<Rightarrow> bridge \<Rightarrow> bool" where
  "parts_ok env b \<longleftrightarrow> length (br_mac b) = 6 \<and> nat_inv (br_tcp b) \<and> udp_inv env (br_udp b) \<and> logged b \<and> waits_ok b"

lemma nat_event_simps [simp]:
  "ev_protocol (nat_event i p r) = p" "bridge_identity.truncate (nat_event i p r) = i"
  by (simp_all add: nat_event_def split_beta)

lemma events_of_simps [simp]:
  "events_of p [] = []" "events_of p (xs @ ys) = events_of p xs @ events_of p ys"
  "events_of p (map (nat_event i q) rs) = (if p = q then map (nat_event i q) rs else [])"
  by (induction rs) (simp_all add: events_of_def)

lemma dns_events_props:
  "\<forall>ev \<in> set (dns_events i rs). bridge_identity.truncate ev = i \<and> ev_protocol ev = ''dns''"
  by (induction i rs rule: dns_events.induct) simp_all

lemma dns_events_of [simp]: "p \<noteq> ''dns'' \<Longrightarrow> events_of p (dns_events i rs) = []"
  using dns_events_props [of i rs] by (auto simp: events_of_def filter_empty_conv)

lemma frames_ok_nat: "list_all frame_entry as \<Longrightarrow> list_all frame_ok (nat_frames as)"
  by (induction as rule: nat_frames.induct) simp_all

lemma frames_ok_udp: "list_all udp_frame_entry as \<Longrightarrow> list_all frame_ok (udp_frames as)"
  by (induction as rule: udp_frames.induct) simp_all

lemma frames_ok_in: "list_all in_entry as \<Longrightarrow> list_all frame_ok (in_frames as)"
  by (induction as rule: in_frames.induct) simp_all

lemma logged_inject: "logged s \<Longrightarrow> list_all frame_ok fs \<Longrightarrow> logged (br_inject fs s)"
  by (simp add: logged_def) (simp add: br_inject_def)

lemma logged_reply:
  "logged s \<Longrightarrow> (\<And>f. r = Inr (Some f) \<Longrightarrow> frame_ok f) \<Longrightarrow> logged (snd (br_reply r s))"
  by (auto simp: br_reply_def logged_inject split: sum.split option.split)

lemma logged_tcp: "logged s \<Longrightarrow> adds env (br_tcp s) n \<Longrightarrow> logged (set_tcp n s)"
  by (auto simp: adds_def entries_ok_def set_tcp_def Let_def logged_def)
    (auto simp: br_inject_def frames_ok_nat)

lemma logged_udp: "logged s \<Longrightarrow> udp_adds env (br_udp s) n \<Longrightarrow> logged (set_udp n s)"
  by (auto simp: udp_adds_def udp_entries_ok_def set_udp_def Let_def logged_def)
    (auto simp: br_inject_def frames_ok_udp)

lemma logged_in: "logged s \<Longrightarrow> in_adds (br_in s) n \<Longrightarrow> logged (set_in n s)"
  by (auto simp: in_adds_def extends_def set_in_def logged_def) (auto simp: br_inject_def frames_ok_in)

lemma logged_dns: "logged s \<Longrightarrow> logged (set_dns d s)"
  using dns_events_props by (auto simp: set_dns_def logged_def)

section \<open>Every step keeps it\<close>

lemma dns_macs_simps [simp]:
  "dns_macs (set_tcp n s) = dns_macs s" "dns_macs (set_in m s) = dns_macs s"
  "dns_macs (set_udp l s) = dns_macs s" "dns_macs (set_dns d s) = dns_macs s"
  "dns_macs (snd (br_reply r s)) = dns_macs s" "dns_macs (learn_mac f s) = dns_macs s"
  by (auto simp: set_tcp_def set_in_def set_udp_def set_dns_def Let_def br_reply_def learn_mac_def
      split: sum.split option.split)

lemma waits_okD:
  assumes "waits_ok s" "dns_macs s c = Some mac"
  shows "length mac = 6" "asked (br_dns s) c \<noteq> None"
    "asked (br_dns s) c = Some call \<Longrightarrow> length (call_from call) = 4"
    "asked (br_dns s) c = Some call \<Longrightarrow> fst call = br_res s"
proof -
  have "length mac = 6 \<and> asked_by (br_res s) (asked (br_dns s) c)"
    using assms unfolding waits_ok_def by blast
  then show "length mac = 6" "asked (br_dns s) c \<noteq> None"
    "asked (br_dns s) c = Some call \<Longrightarrow> length (call_from call) = 4"
    "asked (br_dns s) c = Some call \<Longrightarrow> fst call = br_res s" by (auto simp: asked_by_def split: option.splits)
qed

lemma waits_cong:
  "dns_macs t = dns_macs s \<Longrightarrow> asked (br_dns t) = asked (br_dns s) \<Longrightarrow> br_res t = br_res s \<Longrightarrow> waits_ok t \<longleftrightarrow> waits_ok s"
  by (simp add: waits_ok_def)

definition out_ok :: "bridge \<Rightarrow> bool" where
  "out_ok s \<longleftrightarrow> logged s \<and> waits_ok s"

lemma out_ok_simps:
  "out_ok s \<Longrightarrow> (\<And>f. r = Inr (Some f) \<Longrightarrow> frame_ok f) \<Longrightarrow> out_ok (snd (br_reply r s))"
  "out_ok s \<Longrightarrow> adds env (br_tcp s) n \<Longrightarrow> out_ok (set_tcp n s)"
  "out_ok s \<Longrightarrow> udp_adds env (br_udp s) l \<Longrightarrow> out_ok (set_udp l s)"
  "out_ok s \<Longrightarrow> in_adds (br_in s) m \<Longrightarrow> out_ok (set_in m s)"
  "out_ok s \<Longrightarrow> out_ok (learn_mac f s)"
  by (auto simp: out_ok_def logged_tcp logged_udp logged_in logged_reply waits_cong
      [of "set_tcp n s" s] waits_cong [of "set_udp l s" s] waits_cong [of "set_in m s" s]
      waits_cong [of "learn_mac f s" s] waits_cong [of "snd (br_reply r s)" s])
    (simp add: logged_def)

lemma out_ok_dhcp:
  assumes "out_ok s" "length mac = 6"
  shows "out_ok (snd (handle_dhcp mac u s))"
proof -
  let ?h = "dhcp_handle (br_dhcp s) mac u" and ?s = "s\<lparr>br_dhcp := snd (dhcp_handle (br_dhcp s) mac u)\<rparr>"
  have "out_ok ?s" using assms(1) by (simp add: out_ok_def logged_def waits_ok_def)
  moreover have "frame_ok f"
    if "make_dhcp_frame mac x y out True = Inr f" "fst ?h = Inr (Some (y, x, out))" for x y out f
  proof -
    have "udp_frame BROADCAST_MAC x y out = Inr f"
      using that(1) by (simp add: make_dhcp_frame_def udp_frame_def Let_def IPPROTO_UDP_def)
    then show ?thesis
      using dhcp_handle_fits [OF assms(2), of "br_dhcp s" u] that(2) udp_frame_ok [of BROADCAST_MAC x y out f] by simp
  qed
  ultimately show ?thesis
    unfolding handle_dhcp_def split_beta Let_def
    by (intro out_ok_simps(1)) (auto simp: bindr_eq_Inr split: option.splits)
qed

lemma waits_asked:
  assumes "waits_ok s" "asked d = (asked (br_dns s))(c := Some call)" "length (call_from call) = 4"
    "length mac = 6" "fst call = br_res s"
  shows "waits_ok ((set_dns d s)\<lparr>dns_macs := (dns_macs s)(c := Some mac)\<rparr>)"
  using assms by (simp add: waits_ok_def asked_by_def [of _ "Some call"])

lemma out_ok_handle_dns:
  assumes ok: "out_ok s" and "length mac = 6" "wf_ipv4 ip" and r: "handle_dns env w mac ip u s = Some r"
  shows "out_ok (snd r)"
proof -
  obtain x d where h: "dns_handle env (io_now w) (br_res s) (io_call w) (ip_src ip) u (br_dns s) = Some (x, d)"
    using r unfolding handle_dns_def
    by (cases "dns_handle env (io_now w) (br_res s) (io_call w) (ip_src ip) u (br_dns s)") auto
  note res = dns_handle_result [OF h]
  have src: "length (ip_src ip) = 4" using assms(3) by (simp add: wf_ipv4_def)
  show ?thesis
  proof (cases x)
    case (Inl reply)
    then have "out_ok (set_dns d s)"
      using ok res waits_cong [of "set_dns d s" s] by (simp add: out_ok_def logged_dns)
    moreover have "frame_ok f" if "dns_reply_frame mac reply = Inr (Some f)" for f
      using dns_reply_frame_ok [OF _ src assms(2) that] res Inl by simp
    ultimately show ?thesis using r h Inl by (auto simp: handle_dns_def Let_def intro!: out_ok_simps(1))
  next
    case (Inr tid)
    then obtain req where "asked d = (asked (br_dns s))(io_call w := Some (br_res s, tid, ip_src ip, u, req))"
      using res by auto
    then have "waits_ok ((set_dns d s)\<lparr>dns_macs := (dns_macs s)(io_call w := Some mac)\<rparr>)"
      using waits_asked [of s d "io_call w" "(br_res s, tid, ip_src ip, u, req)" mac] ok src assms(2) by (simp add: out_ok_def)
    moreover have "logged ((set_dns d s)\<lparr>dns_macs := (dns_macs s)(io_call w := Some mac)\<rparr>)"
      using ok logged_dns [of s d] by (simp add: out_ok_def logged_def)
    ultimately show ?thesis using r h Inr by (auto simp: handle_dns_def Let_def out_ok_def)
  qed
qed

lemma datagram_adds: "udp_adds env s (handle_chip_datagram env now ok mac ip u s)"
  by (simp add: handle_chip_datagram_def Let_def open_flow_adds use_flow_adds split: option.split)

lemma out_ok_ipv4:
  assumes ok: "out_ok s" and inv: "nat_inv (br_tcp s)" and mac: "length (br_mac s) = 6" and ip: "wf_ipv4 ip"
    and r: "handle_ipv4 env w ip s = Some r"
  shows "out_ok (snd r)"
proof -
  have "out_ok (snd (br_reply (icmp_handle (br_mac s) ip) s))"
  proof (rule out_ok_simps(1) [OF ok])
    fix f assume "icmp_handle (br_mac s) ip = Inr (Some f)"
    then show "frame_ok f"
      using icmp_handle_cases [OF ip mac]
      by (auto split: option.splits simp: l4_ok_def intro!: frame_ok_ipv4)
  qed
  moreover have "out_ok (snd (handle_tcp env w (br_mac s) ip t s))" if "tcp_parse (ip_payload ip) = Inr t" for t
    using ok in_adds_handle [OF mac, of "br_in s" t] segment_adds [OF inv mac ip tcp_parse_parsed(1) [OF that]]
    by (simp add: handle_tcp_def split_beta out_ok_simps(2) [where env = env] out_ok_simps(4))
  moreover have "out_ok (snd x)" if "handle_udp env w (br_mac s) ip u s = Some x" for u x
    using that ok mac ip datagram_adds
    by (auto simp: handle_udp_def out_ok_simps(3) [where env = env] split: if_splits
        intro: out_ok_dhcp out_ok_handle_dns)
  ultimately show ?thesis
    using r ok by (auto simp: handle_ipv4_def split: if_splits sum.splits)
qed

lemma out_ok_packet:
  assumes ok: "out_ok s" and inv: "nat_inv (br_tcp s)" and mac: "length (br_mac s) = 6"
    and r: "deliver_packet_out env w bs s = Some r"
  shows "out_ok (snd r)"
proof -
  have "out_ok (snd (br_reply (arp_handle f) (learn_mac f s)))" for f
  proof (intro out_ok_simps(1) out_ok_simps(5) [OF ok])
    fix x assume "arp_handle f = Inr (Some x)"
    then show "frame_ok x" using arp_handle_cases [of f] by (auto split: option.splits intro: frame_ok_arp)
  qed
  moreover have "out_ok (snd r)"
    if e: "ethernet_parse bs = Inr f" "ipv4_parse (eth_payload f) = Inr ip" "handle_ipv4 env w ip (learn_mac f s) = Some r" for f ip
  proof -
    have "length (br_mac (learn_mac f s)) = 6"
      using eth.dec_wf [OF e(1)] mac by (simp add: learn_mac_def wf_ethernet_def)
    then show ?thesis
      using out_ok_ipv4 [OF out_ok_simps(5) [OF ok] _ _ ipv4_parse_wf [OF e(2)] e(3)] inv by simp
  qed
  ultimately show ?thesis
    using r ok out_ok_simps(5) [OF ok]
    by (auto simp: deliver_packet_out_def Let_def split: if_splits sum.splits)
qed

lemma ensure_chip_mac_ok: "make_frame_arp BROADCAST_MAC GATEWAY_MAC chip_arp = Inr f \<Longrightarrow> frame_ok f"
  using make_frame_arp_view [of BROADCAST_MAC GATEWAY_MAC chip_arp]
  by (auto simp: chip_arp_def wf_arp_def ETHERTYPE_IPV4_def ARP_REQUEST_def intro: frame_ok_arp)

lemma out_ok_http: "out_ok s \<Longrightarrow> out_ok (snd (snd (http_into_chip raw timeout s)))"
proof -
  assume ok: "out_ok s"
  have "out_ok (snd (ensure_chip_mac s))"
    unfolding ensure_chip_mac_def
    by (intro out_ok_simps(1) [OF ok]) (auto simp: bindr_eq_Inr intro: ensure_chip_mac_ok)
  moreover have "out_ok (u\<lparr>http_calls := x\<rparr>) = out_ok u" for u x
    by (simp add: out_ok_def logged_def waits_ok_def)
  ultimately show ?thesis
    using ok by (auto simp: http_into_chip_def andthen_def split_beta split: option.split)
qed

lemma out_ok_request:
  assumes "out_ok s" "length (br_mac s) = 6"
  shows "out_ok (http_request k draws isn s)"
proof -
  have "out_ok (s\<lparr>http_calls := x\<rparr>)" for x using assms(1) by (simp add: out_ok_def logged_def waits_ok_def)
  then show ?thesis
    using assms(2) in_adds_request by (auto simp: http_request_def Let_def split_beta intro!: out_ok_simps(4))
qed

lemma out_ok_return:
  assumes ok: "out_ok s" and c: "dns_macs s c = Some mac" "asked (br_dns s) c = Some call"
  shows "out_ok (snd (dns_return env c call timeout mac s))"
proof -
  let ?d = "snd (dns_resume env c call timeout (br_dns s))"
  let ?s = "(set_dns ?d s)\<lparr>dns_macs := (dns_macs s)(c := None)\<rparr>"
  note res = dns_resume_result [of call env c timeout "br_dns s"]
  have l: "length mac = 6" "length (call_from call) = 4"
    using ok waits_okD [OF _ c(1)] c(2) by (simp_all add: out_ok_def)
  have "logged ?s" using ok logged_dns [of s ?d] by (simp add: out_ok_def logged_def)
  moreover have "waits_ok ?s" using ok res by (auto simp: out_ok_def waits_ok_def)
  ultimately show ?thesis
    unfolding dns_return_def split_beta Let_def
    using dns_reply_frame_ok [OF conjunct1 [OF res] l(2,1)]
    by (intro out_ok_simps(1)) (simp_all add: out_ok_def)
qed

lemma other_dns_waits:
  assumes "waits_ok s" "other_dns s e" "dns_step env (br_dns s) e d"
  shows "waits_ok (s\<lparr>br_dns := d\<rparr>)"
  using assms(3)
proof cases
  case (dns_step_asked c now r src u)
  then obtain x where h: "dns_handle env now r c src u (br_dns s) = Some (x, d)" by auto
  show ?thesis
    using dns_handle_result [OF h] assms(1) waits_okD(2) [OF assms(1), of c] dns_step_asked
    by (cases x) (auto simp: waits_ok_def)
next
  case (dns_step_answered tid h now answers)
  have "asked (lookup_done now tid h answers (br_dns s)) = asked (br_dns s)"
    by (simp add: lookup_done_def Let_def cache_put_def dns_emit_def split: sum.split)
  then show ?thesis using assms(1) waits_cong [of "s\<lparr>br_dns := d\<rparr>" s] dns_step_answered by simp
next
  case (dns_step_resumed c call timeout)
  then show ?thesis
    using dns_resume_result [of call env c timeout "br_dns s"] assms(1,2)
    by (auto simp: waits_ok_def other_dns_def)
qed

lemma out_ok_start: "out_ok s \<Longrightarrow> out_ok (start s)"
  by (simp add: out_ok_def start_def logged_def waits_ok_def)

lemma out_ok_stop:
  assumes ok: "out_ok s" and inv: "nat_inv (br_tcp s)"
  shows "out_ok (stop s)"
proof -
  let ?s1 = "s\<lparr>br_running := False\<rparr>"
  have "out_ok ?s1" using ok by (simp add: out_ok_def logged_def waits_ok_def)
  moreover have "adds env (br_tcp ?s1) (shutdown (br_tcp ?s1))" for env
    using local_adds [OF shutdown_extends] inv by simp
  ultimately have "out_ok (set_tcp (shutdown (br_tcp ?s1)) ?s1)" by (rule out_ok_simps(2))
  moreover have "in_adds u (in_shutdown u)" for u by (simp add: in_adds_def in_trace_shutdown)
  ultimately show ?thesis
    unfolding stop_def Let_def by (intro out_ok_simps(3) [OF _ udp_shutdown_adds] out_ok_simps(4))
qed

lemma out_ok_step:
  assumes step: "br_step env s e t" and ok: "out_ok s" and mac: "length (br_mac s) = 6"
    and inv: "nat_inv (br_tcp s)" "udp_inv env (br_udp s)"
  shows "out_ok t"
  using step
proof cases
  case (br_step_packet w bs e)
  then show ?thesis using out_ok_packet [OF ok inv(1) mac] by force
next
  case (br_step_tcp e n)
  then show ?thesis using out_ok_simps(2) [OF ok step_adds [OF inv(1)]] by blast
next
  case (br_step_in e n)
  then show ?thesis using out_ok_simps(4) [OF ok in_step_adds] by blast
next
  case (br_step_udp e n)
  then show ?thesis using out_ok_simps(3) [OF ok udp_step_adds [OF inv(2)]] by blast
next
  case (br_step_dns e d)
  then have "waits_ok t" using other_dns_waits ok by (simp add: out_ok_def)
  then show ?thesis using br_step_dns(2) ok by (simp add: out_ok_def logged_def)
next
  case (br_step_dns_return c mac' call timeout)
  then show ?thesis using out_ok_return [OF ok] by simp
qed (use out_ok_http [OF ok] out_ok_request [OF ok mac] out_ok_start [OF ok] out_ok_stop [OF ok inv(1)] in simp_all)

text \<open>The bridge as a machine with the invariants of its parts.\<close>

definition bridge_inv :: "egress_env \<Rightarrow> bridge \<Rightarrow> bool" where
  "bridge_inv env s \<longleftrightarrow> br_inv s \<and> nat_inv (br_tcp s) \<and> udp_inv env (br_udp s) \<and> out_ok s"

interpretation outputs: machine "br_start env" "br_step env" "bridge_inv env" for env
proof unfold_locales
  show "br_start env s \<Longrightarrow> bridge_inv env s" for s
    using nat_inv_start [OF nat_start_new] udp_inv_new
    by (auto simp: br_start_def bridge_new_def bridge_inv_def br_inv_def STA_MAC_def out_ok_def
        logged_def waits_ok_def nat_new_def udp_new_def)
next
  fix s e t
  assume inv: "bridge_inv env s" and step: "br_step env s e t"
  then have b: "br_inv s" "length (br_mac s) = 6" "nat_inv (br_tcp s)" "udp_inv env (br_udp s)" "out_ok s"
    by (simp_all add: bridge_inv_def br_inv_def)
  have "nat_inv (br_tcp t)" using nat.inv_runs [OF b(3) tcp_in_bridge.part_sim [OF b(1) step]] .
  moreover have "udp_inv env (br_udp t)"
    using udp_machine.inv_runs [OF b(4) udp_in_bridge.part_sim [OF b(1) step]] .
  ultimately show "bridge_inv env t"
    using out_ok_step [OF step b(5,2,3,4)] bridge.inv_step [OF b(1) step] by (simp add: bridge_inv_def)
qed

section \<open>Properties\<close>

text \<open>C36: Whatever the chip, the host and the browser do, every frame the bridge has handed to the
  chip is well formed: it parses as an Ethernet frame from the gateway's MAC that holds an
  ARP message or an IPv4 packet with a verifying header checksum, and the packet's TCP, UDP or
  ICMP part parses and verifies its own checksum (over the pseudo-header for TCP and UDP). No
  component, on any path, sends the chip bytes that a strict stack drops.\<close>

theorem bridge_frames_well_formed:
  assumes "br_start env s" "runs (br_step env) s t"
  shows "list_all frame_ok (emitted t)"
  using outputs.inv_reachable [OF assms] by (simp add: bridge_inv_def out_ok_def logged_def)

definition bridge_called :: bridge where
  "bridge_called = snd (snd (http_into_chip [71] 12 (bridge_new sample_ident True 0 dns_new)))"

lemma bridge_called_run: "runs (br_step env) (bridge_new sample_ident True 0 dns_new) bridge_called"
  using br_step_http [of env _ "[71]" 12] by (auto simp: bridge_called_def intro: runs_one)

lemma bridge_called_emitted: "length (emitted bridge_called) = 1"
proof -
  obtain f where f: "make_frame_arp BROADCAST_MAC GATEWAY_MAC chip_arp = Inr f"
    using make_frame_arp_view [of BROADCAST_MAC GATEWAY_MAC chip_arp]
    by (auto simp: chip_arp_def wf_arp_def ETHERTYPE_IPV4_def ARP_REQUEST_def)
  then show ?thesis
    by (simp add: bridge_called_def http_into_chip_def bridge_new_def ensure_chip_mac_def br_reply_def
        br_inject_def andthen_def)
qed

theorem bridge_frames_well_formed_witness:
  "\<exists>f. emitted bridge_called = [f] \<and> frame_ok f"
  using bridge_frames_well_formed [OF bridge_start_new bridge_called_run [of public_env]]
    bridge_called_emitted
  by (auto simp: length_Suc_conv)

text \<open>The destinations that the events of a protocol report as allowed.\<close>

definition allowed_targets :: "string \<Rightarrow> egress_event list \<Rightarrow> (pystr option \<times> int option) list" where
  "allowed_targets protocol evs = map (\<lambda>ev. (ev_dst_ip ev, ev_dst_port ev))
     (filter (\<lambda>ev. ev_protocol ev = protocol \<and> ev_verdict ev = ''allowed'') evs)"

definition targets_of :: "(nat \<times> pystr \<times> int) list \<Rightarrow> (pystr option \<times> int option) list" where
  "targets_of socks = map (\<lambda>(n, host, port). (Some host, Some port)) socks"

text \<open>An event of a NAT that tells what the guard decided about a destination.\<close>

definition event_true :: "egress_env \<Rightarrow> egress_event \<Rightarrow> bool" where
  "event_true env ev \<longleftrightarrow> (case (ev_dst_ip ev, ev_dst_port ev) of
       (Some host, Some port) \<Rightarrow> record_true env (ev_verdict ev, host, port, ev_reason ev)
     | _ \<Rightarrow> False)"

lemma allowed_targets_events:
  "allowed_targets p evs = allowed_targets p (events_of p evs)"
  by (induction evs) (simp_all add: allowed_targets_def events_of_def)

lemma allowed_targets_records:
  "allowed_targets p (map (nat_event i p) rs) = map (\<lambda>(host, port). (Some host, Some port)) (admitted rs)"
  by (induction rs) (simp_all add: allowed_targets_def nat_event_def split_beta)

lemma record_events_true:
  assumes "list_all (record_true env) rs" "ev \<in> set (map (nat_event i p) rs)"
  shows "event_true env ev"
  using assms by (induction rs) (auto simp: event_true_def nat_event_def split_beta)

lemma targets_of_map:
  "targets_of socks = map (\<lambda>(host, port). (Some host, Some port)) (map snd socks)"
  by (simp add: targets_of_def split_beta)

text \<open>C37: The egress log accounts for every socket. In every reachable state of a bridge, each
  event it has handed to the log carries the bridge's own identity; the destinations that
  the TCP events report as allowed are, in order and one for one, the destinations the TCP
  NAT dialled, and the same holds of UDP events and endpoints; and every event of a NAT
  reports what the guard decides about its destination, with the guard's reason when it
  blocks. So nothing is dialled without a record, and nothing is recorded as allowed that
  was not dialled.\<close>

theorem egress_log_complete:
  assumes "br_start env s" "runs (br_step env) s t"
  shows "(\<forall>ev \<in> set (br_events t). bridge_identity.truncate ev = br_ident t \<and>
      (ev_protocol ev \<noteq> ''dns'' \<longrightarrow> event_true env ev)) \<and>
    allowed_targets ''tcp'' (br_events t) = targets_of (dials (trace (br_tcp t))) \<and>
    allowed_targets ''udp'' (br_events t) = targets_of (udp_opens (udp_trace (br_udp t)))"
proof -
  note p = bridge_parts [OF assms]
  have lg: "logged t" using outputs.inv_reachable [OF assms] by (simp add: bridge_inv_def out_ok_def)
  have tcp: "entries_ok env (trace (br_tcp t))"
    using nat_log.log_reachable [OF nat_start_new _ p(1)] by (simp add: nat_new_def)
  have udp: "udp_entries_ok env (udp_trace (br_udp t))"
    using udp_log.log_reachable [OF refl _ p(3)] by (simp add: udp_new_def)
  have "event_true env ev" if ev: "ev \<in> set (br_events t)" "ev_protocol ev \<noteq> ''dns''" for ev
  proof -
    have "ev \<in> set (events_of ''tcp'' (br_events t)) \<union> set (events_of ''udp'' (br_events t))"
    proof -
      have "ev \<in> set (events_of (ev_protocol ev) (br_events t))" using ev(1) by (simp add: events_of_def)
      moreover have "ev_protocol ev \<in> {''tcp'', ''udp''}" using ev lg by (auto simp: logged_def)
      ultimately show ?thesis by auto
    qed
    then show ?thesis
      using lg tcp udp unfolding logged_def entries_ok_def udp_entries_ok_def
      by (metis UnE record_events_true)
  qed
  then show ?thesis
    using lg tcp udp
    by (auto simp: logged_def entries_ok_def udp_entries_ok_def targets_of_map
        allowed_targets_events [of _ "br_events t"] allowed_targets_records)
qed

theorem egress_log_complete_witness:
  "br_events bridge_asked = [emit_egress sample_ident ''udp'' ''allowed''
       (Some (bytes_to_ip [93, 184, 216, 34])) (Some 123) None ''ok''] \<and>
   allowed_targets ''udp'' (br_events bridge_asked) = [(Some (bytes_to_ip [93, 184, 216, 34]), Some 123)]"
proof
  show "br_events bridge_asked = [emit_egress sample_ident ''udp'' ''allowed''
       (Some (bytes_to_ip [93, 184, 216, 34])) (Some 123) None ''ok'']"
    by (simp add: bridge_asked_def set_udp_def bridge_new_def br_log_def br_inject_def Let_def nat_event_def
        handle_chip_datagram_def udp_new_def dict_get_def open_flow_def packet_ip_def packet_udp_def
        dial_host_sample sample_allowed)
  show "allowed_targets ''udp'' (br_events bridge_asked) = [(Some (bytes_to_ip [93, 184, 216, 34]), Some 123)]"
    using egress_log_complete [OF bridge_start_new bridge_asked_run]
    by (simp add: bridge_asked_opens targets_of_def)
qed

end
