(* ===== verification/Url.thy ===== *)
theory Url
  imports Py_Str
begin

text \<open>
  What \<^verbatim>\<open>velxiogw/server.py\<close> uses of \<^verbatim>\<open>urllib.parse\<close>: \<^verbatim>\<open>urlsplit\<close> with the attributes \<^verbatim>\<open>scheme\<close>,
  \<^verbatim>\<open>hostname\<close>, \<^verbatim>\<open>path\<close> and \<^verbatim>\<open>query\<close>, and \<^verbatim>\<open>parse_qs\<close>. The checks that rest on Unicode
  normalization and on IPv6 literals, and percent-decoding, are parameters.
\<close>

record url_lib =
  nfkc_safe :: "pystr \<Rightarrow> bool"
  bracket_safe :: "pystr \<Rightarrow> bool"
  unquote :: "pystr \<Rightarrow> pystr"

record url =
  url_scheme :: pystr
  url_netloc :: pystr
  url_path :: pystr
  url_query :: pystr

section \<open>Splitting\<close>

definition is_c0_or_space :: "nat \<Rightarrow> bool" where
  "is_c0_or_space c \<longleftrightarrow> c \<le> 32"

definition is_alpha :: "nat \<Rightarrow> bool" where
  "is_alpha c \<longleftrightarrow> 65 \<le> c \<and> c \<le> 90 \<or> 97 \<le> c \<and> c \<le> 122"

definition scheme_char :: "nat \<Rightarrow> bool" where
  "scheme_char c \<longleftrightarrow> is_alpha c \<or> is_digit c \<or> c = 43 \<or> c = 45 \<or> c = 46"

text \<open>\<^verbatim>\<open>s.partition(c)\<close> without the separator; \<^verbatim>\<open>rpartition\<close> keeps what follows the last one.\<close>

definition before :: "nat \<Rightarrow> pystr \<Rightarrow> pystr" where
  "before c s = takeWhile (\<lambda>x. x \<noteq> c) s"

definition after :: "nat \<Rightarrow> pystr \<Rightarrow> pystr" where
  "after c s = drop 1 (dropWhile (\<lambda>x. x \<noteq> c) s)"

definition after_last :: "nat \<Rightarrow> pystr \<Rightarrow> pystr" where
  "after_last c s = last (split_on c s)"

definition split_scheme :: "pystr \<Rightarrow> pystr \<times> pystr" where
  "split_scheme s =
     (if 58 \<in> set s \<and> before 58 s \<noteq> [] \<and> is_alpha (hd s) \<and> list_all scheme_char (before 58 s)
      then (lower (before 58 s), after 58 s) else ([], s))"

definition netloc_end :: "nat \<Rightarrow> bool" where
  "netloc_end c \<longleftrightarrow> c = 47 \<or> c = 63 \<or> c = 35"

definition split_netloc :: "pystr \<Rightarrow> pystr option \<times> pystr" where
  "split_netloc s =
     (if take 2 s = [47, 47]
      then (Some (takeWhile (\<lambda>c. \<not> netloc_end c) (drop 2 s)), dropWhile (\<lambda>c. \<not> netloc_end c) (drop 2 s))
      else (None, s))"

definition netloc_ok :: "url_lib \<Rightarrow> pystr \<Rightarrow> bool" where
  "netloc_ok lib n \<longleftrightarrow> (91 \<in> set n \<longleftrightarrow> 93 \<in> set n) \<and> (91 \<in> set n \<longrightarrow> bracket_safe lib n) \<and>
     (list_all (\<lambda>c. c < 128) n \<or> nfkc_safe lib n)"

definition urlsplit :: "url_lib \<Rightarrow> pystr \<Rightarrow> url res" where
  "urlsplit lib s =
     (let s1 = filter (\<lambda>c. c \<noteq> 9 \<and> c \<noteq> 13 \<and> c \<noteq> 10) (dropWhile is_c0_or_space s);
          (scheme, s2) = split_scheme s1;
          (loc, s3) = split_netloc s2;
          s4 = before 35 s3;
          netloc = (case loc of None \<Rightarrow> [] | Some n \<Rightarrow> n)
      in if \<not> netloc_ok lib netloc then Inl ValueError
         else Inr \<lparr>url_scheme = scheme, url_netloc = netloc, url_path = before 63 s4,
                   url_query = after 63 s4\<rparr>)"

definition url_hostname :: "url \<Rightarrow> pystr option" where
  "url_hostname u =
     (let hostinfo = after_last 64 (url_netloc u);
          host = (if 91 \<in> set hostinfo then before 93 (after 91 hostinfo) else before 58 hostinfo)
      in if host = [] then None
         else Some (lower (before 37 host) @ drop (length (before 37 host)) host))"

section \<open>Query strings\<close>

text \<open>\<^verbatim>\<open>parse_qs\<close>: the values of one key, blank ones dropped.\<close>

definition qs_unquote :: "url_lib \<Rightarrow> pystr \<Rightarrow> pystr" where
  "qs_unquote lib s = unquote lib (map (\<lambda>c. if c = 43 then 32 else c) s)"

definition qs_values :: "url_lib \<Rightarrow> pystr \<Rightarrow> pystr \<Rightarrow> pystr list" where
  "qs_values lib key query =
     map (\<lambda>p. qs_unquote lib (after 61 p))
       (filter (\<lambda>p. 61 \<in> set p \<and> after 61 p \<noteq> [] \<and> qs_unquote lib (before 61 p) = key) (split_on 38 query))"

section \<open>Plain origins\<close>

text \<open>A URL of scheme and host, with or without a port, as browsers send in \<^verbatim>\<open>Origin\<close>.\<close>

definition plain_host :: "pystr \<Rightarrow> bool" where
  "plain_host h \<longleftrightarrow> h \<noteq> [] \<and> list_all (\<lambda>c. 32 < c \<and> c < 128 \<and> c \<notin> {35, 37, 47, 58, 63, 64, 91, 93}) h"

definition plain_scheme :: "pystr \<Rightarrow> bool" where
  "plain_scheme s \<longleftrightarrow> s \<noteq> [] \<and> is_alpha (hd s) \<and> list_all scheme_char s"

definition plain_port :: "pystr \<Rightarrow> bool" where
  "plain_port p \<longleftrightarrow> (case p of [] \<Rightarrow> True | c # ds \<Rightarrow> c = 58 \<and> list_all is_digit ds)"

lemma plain_port_cases: "plain_port p \<longleftrightarrow> p = [] \<or> (\<exists>ds. p = 58 # ds \<and> list_all is_digit ds)"
  by (cases p) (auto simp: plain_port_def)

lemma before_append: "c \<notin> set xs \<Longrightarrow> before c (xs @ c # ys) = xs"
  by (induction xs) (auto simp: before_def)

lemma after_append: "c \<notin> set xs \<Longrightarrow> after c (xs @ c # ys) = ys"
  by (induction xs) (auto simp: after_def)

lemma before_free: "c \<notin> set xs \<Longrightarrow> before c xs = xs"
  unfolding before_def takeWhile_eq_all_conv by metis

lemma after_last_free: "c \<notin> set xs \<Longrightarrow> after_last c xs = xs"
  by (simp add: after_last_def split_on_free)

lemma plain_chars:
  "plain_scheme s \<Longrightarrow> c \<in> set s \<Longrightarrow> 33 \<le> c \<and> c < 128 \<and> c \<noteq> 58"
  "plain_host h \<Longrightarrow> c \<in> set h \<Longrightarrow> 33 \<le> c \<and> c < 128 \<and> c \<notin> {35, 37, 47, 58, 63, 64, 91, 93}"
  "plain_port p \<Longrightarrow> c \<in> set p \<Longrightarrow> 48 \<le> c \<and> c \<le> 58"
  unfolding plain_scheme_def plain_host_def plain_port_cases scheme_char_def is_alpha_def is_digit_def
    list_all_iff by fastforce+

lemma urlsplit_plain:
  assumes "plain_scheme s" "plain_host h" "plain_port p"
  shows "urlsplit lib (s @ str_of ''://'' @ h @ p) =
    Inr \<lparr>url_scheme = lower s, url_netloc = h @ p, url_path = [], url_query = []\<rparr>"
proof -
  have sep: "str_of ''://'' = [58, 47, 47]" by code_simp
  let ?o = "s @ [58, 47, 47] @ h @ p"
  have sc: "33 \<le> c \<and> c < 128 \<and> c \<noteq> 58" if "c \<in> set s" for c
    using plain_chars(1) [OF assms(1) that] .
  have hc: "33 \<le> c \<and> c < 128 \<and> c \<notin> {35, 37, 47, 63, 64, 91, 93}" if "c \<in> set (h @ p)" for c
    using plain_chars(2) [OF assms(2), of c] plain_chars(3) [OF assms(3), of c] that by fastforce
  have chars: "33 \<le> c" if "c \<in> set ?o" for c using that sc hc by auto
  have strip: "dropWhile is_c0_or_space ?o = ?o"
  proof (rule dropWhile_free, rule ballI)
    fix c assume "c \<in> set ?o"
    then have "33 \<le> c" by (rule chars)
    then show "\<not> is_c0_or_space c" by (simp add: is_c0_or_space_def)
  qed
  have filter: "filter (\<lambda>c. c \<noteq> 9 \<and> c \<noteq> 13 \<and> c \<noteq> 10) ?o = ?o"
  proof (rule filter_True, rule ballI)
    fix c assume "c \<in> set ?o"
    then have "33 \<le> c" by (rule chars)
    then show "c \<noteq> 9 \<and> c \<noteq> 13 \<and> c \<noteq> 10" by simp
  qed
  have "58 \<notin> set s" using sc by blast
  then have scheme: "split_scheme ?o = (lower s, [47, 47] @ h @ p)"
    using assms(1) before_append [of 58 s "[47, 47] @ h @ p"] after_append [of 58 s "[47, 47] @ h @ p"]
    by (cases s) (simp_all add: split_scheme_def plain_scheme_def)
  have loc: "split_netloc ([47, 47] @ h @ p) = (Some (h @ p), [])"
    using hc by (simp add: split_netloc_def takeWhile_eq_all_conv netloc_end_def)
  have ok: "netloc_ok lib (h @ p)"
    using hc by (force simp: netloc_ok_def list_all_iff)
  show ?thesis
    unfolding urlsplit_def sep strip filter scheme Let_def prod.case loc option.case
    using ok by (simp add: before_def after_def)
qed

lemma hostname_plain:
  assumes "plain_host h" "plain_port p" "url_netloc u = h @ p"
  shows "url_hostname u = Some (lower h)"
proof -
  have hc: "c \<notin> {37, 58, 64, 91, 93}" if "c \<in> set h" for c
    using plain_chars(2) [OF assms(1) that] by blast
  have pc: "c \<notin> {37, 64, 91, 93}" if "c \<in> set p" for c
    using plain_chars(3) [OF assms(2) that] by auto
  have "after_last 64 (h @ p) = h @ p" using hc pc by (intro after_last_free) auto
  moreover have "91 \<notin> set (h @ p)" using hc pc by auto
  moreover have "58 \<notin> set h" using hc by blast
  then have "before 58 (h @ p) = h"
    using assms(2) before_append [of 58 h] by (auto simp: plain_port_cases before_free)
  moreover have "before 37 h = h" using hc by (intro before_free) blast
  moreover have "h \<noteq> []" using assms(1) by (simp add: plain_host_def)
  ultimately show ?thesis using assms(3) by (simp add: url_hostname_def Let_def)
qed

end
