(* ===== verification/Server.thy ===== *)
theory Server
  imports Url Egress Py_Dict Machine
begin

text \<open>
  The WebSocket server, \<^verbatim>\<open>velxiogw/server.py\<close>: who may open the tunnel, and the registry of the
  bridges of all sessions. A bridge is a number here; what it does is the subject of the
  theory \<open>Bridge\<close>. JSON decoding, base64 and the WebSocket library are parameters or inputs.
\<close>

section \<open>Admission\<close>

definition ALLOWED_ORIGINS :: "pystr list" where
  "ALLOWED_ORIGINS = [str_of ''https://velxio.dev'', str_of ''https://vstaging.moontero.com'']"

definition origin_ok :: "url_lib \<Rightarrow> pystr option \<Rightarrow> pystr list \<Rightarrow> bool" where
  "origin_ok lib origin extra =
     (case origin of
        None \<Rightarrow> True
      | Some o1 \<Rightarrow>
          if o1 \<in> set ALLOWED_ORIGINS \<or> o1 \<in> set extra then True
          else (case urlsplit lib o1 of
              Inl e \<Rightarrow> False
            | Inr parts \<Rightarrow>
                url_scheme parts \<in> {str_of ''http'', str_of ''https''} \<and>
                url_hostname parts \<in> {Some (str_of ''localhost''), Some (str_of ''127.0.0.1'')}))"

section \<open>HTTP responses\<close>

text \<open>What \<^verbatim>\<open>json.loads\<close> returns.\<close>

datatype json = JNull | JBool bool | JNum real | JStr pystr | JList "json list" | JObj "(pystr, json) dict"

text \<open>
  \<^verbatim>\<open>VERSION\<close> of \<^verbatim>\<open>velxiogw/__init__.py\<close>; the server object (class \<^verbatim>\<open>GatewayServer\<close>); and what it uses
  of libraries: \<^verbatim>\<open>urllib.parse\<close>; of \<^verbatim>\<open>websockets\<close>, \<^verbatim>\<open>connection.respond(status, text)\<close>, which builds a
  response with headers of its own, and \<^verbatim>\<open>del headers[k]\<close> and \<^verbatim>\<open>headers[k] = v\<close>; and
  \<^verbatim>\<open>base64.b64decode\<close> (\<open>None\<close> when it raises \<^verbatim>\<open>ValueError\<close> or \<^verbatim>\<open>TypeError\<close>).
\<close>

definition VERSION :: pystr where
  "VERSION = str_of ''0.1.2''"

type_synonym http_headers = "(pystr \<times> pystr) list"

record http_response =
  http_status :: nat
  response_headers :: http_headers
  http_body :: bytes

record gateway_server =
  gs_port :: int
  gs_code :: pystr
  gs_origins :: "pystr list"

record web =
  web_urls :: url_lib
  web_respond :: "nat \<Rightarrow> pystr \<Rightarrow> http_response"
  web_del :: "pystr \<Rightarrow> http_headers \<Rightarrow> http_headers res"
  web_set :: "pystr \<Rightarrow> pystr \<Rightarrow> http_headers \<Rightarrow> http_headers"
  web_b64 :: "json \<Rightarrow> bytes option"
  web_self :: gateway_server

text \<open>\<^verbatim>\<open>json.dumps\<close> of the status document, whose texts need no escapes.\<close>

definition json_member :: "string \<Rightarrow> pystr \<Rightarrow> pystr" where
  "json_member k v = [34] @ str_of k @ [34, 58, 32] @ v"

definition json_string :: "pystr \<Rightarrow> pystr" where
  "json_string s = [34] @ s @ [34]"

definition status_text :: "nat \<Rightarrow> pystr" where
  "status_text sessions = [123] @ join_with [44, 32]
     [json_member ''app'' (json_string (str_of ''velxiogw'')),
      json_member ''version'' (json_string VERSION),
      json_member ''protocol'' (json_string (str_of ''picow-ws/1'')),
      json_member ''sessions'' (decimal sessions)] @ [125]"

definition status_response :: "web \<Rightarrow> nat \<Rightarrow> http_response res" where
  "status_response web sessions =
     (let body = map word_of_nat (status_text sessions); resp = web_respond web 200 []
      in bindr (web_del web (str_of ''Content-Type'') (response_headers resp)) (\<lambda>hs1.
         bindr (web_del web (str_of ''Content-Length'') hs1) (\<lambda>hs2.
           Inr (resp\<lparr>http_body := body, response_headers :=
             web_set web (str_of ''Access-Control-Allow-Origin'') (str_of ''*'')
               (web_set web (str_of ''Content-Length'') (decimal (length body))
                 (web_set web (str_of ''Content-Type'') (str_of ''application/json'') hs2))\<rparr>))))"

text \<open>\<^verbatim>\<open>_process_request\<close>; \<open>None\<close> lets the WebSocket upgrade proceed.\<close>

definition process_request :: "web \<Rightarrow> nat \<Rightarrow> pystr \<Rightarrow> pystr option \<Rightarrow> http_response option res" where
  "process_request web sessions path origin =
     bindr (urlsplit (web_urls web) path) (\<lambda>u.
       if url_path u = str_of ''/status''
       then bindr (status_response web sessions) (\<lambda>resp. Inr (Some resp))
       else if \<not> origin_ok (web_urls web) origin (gs_origins (web_self web))
       then Inr (Some (web_respond web 403 (str_of ''origin not allowed'' @ [10])))
       else let supplied = (case qs_values (web_urls web) (str_of ''code'') (url_query u) of
                              [] \<Rightarrow> [] | v # _ \<Rightarrow> v)
            in if supplied \<noteq> gs_code (web_self web)
               then Inr (Some (web_respond web 401 (str_of ''pairing code required'' @ [10])))
               else Inr None)"

section \<open>Messages\<close>

definition truthy :: "json \<Rightarrow> bool" where
  "truthy j = (case j of JNull \<Rightarrow> False | JBool b \<Rightarrow> b | JNum x \<Rightarrow> x \<noteq> 0 | JStr s \<Rightarrow> s \<noteq> []
     | JList l \<Rightarrow> l \<noteq> [] | JObj d \<Rightarrow> d \<noteq> [])"

text \<open>
  What the handler makes of one message: it is ignored, it starts or stops the bridge, or it carries
  a frame for it. Reading \<^verbatim>\<open>data\<close> raises \<^verbatim>\<open>AttributeError\<close> when it is not an object, which ends the
  handler: for \<^verbatim>\<open>start_picow\<close> (\<open>Start None\<close>) only after the old bridge has stopped.
\<close>

datatype message = Ignored | Start "bool option" | Packet json | Stop | Malformed

definition dict_get_or :: "(pystr, json) dict \<Rightarrow> string \<Rightarrow> json \<Rightarrow> json" where
  "dict_get_or d k v = (case dict_get d (str_of k) of None \<Rightarrow> v | Some j \<Rightarrow> j)"

definition read_message :: "json option \<Rightarrow> message" where
  "read_message raw =
     (case raw of
        Some (JObj msg) \<Rightarrow>
          let msg_type = dict_get_or msg ''type'' (JStr []);
              given = dict_get_or msg ''data'' JNull;
              msg_data = (if truthy given then given else JObj [])
          in if msg_type = JStr (str_of ''start_picow'')
             then (case msg_data of
                 JObj d \<Rightarrow> Start (Some (truthy (dict_get_or d ''wifi_enabled'' (JBool False))))
               | _ \<Rightarrow> Start None)
             else if msg_type = JStr (str_of ''picow_packet_out'')
             then (case msg_data of JObj d \<Rightarrow> Packet (dict_get_or d ''ether_b64'' (JStr [])) | _ \<Rightarrow> Malformed)
             else if msg_type = JStr (str_of ''stop_picow'') then Stop
             else Ignored
      | _ \<Rightarrow> Ignored)"

section \<open>Sessions\<close>

text \<open>
  A connection waits for its next message, for \<^verbatim>\<open>deliver_packet_out\<close> to return, or in \<^verbatim>\<open>start_picow\<close>
  for the old bridge to stop; each wait gives the event loop to the other handlers.
\<close>

datatype phase = Reading | Delivering | Stopping "bool option"

text \<open>What the call of \<^verbatim>\<open>deliver_packet_out\<close> comes to before it gives up the event loop.\<close>

datatype outcome = Returned | Raised | Suspended

datatype server_action =
    Bridge_started nat nat pystr bool
  | Bridge_stopped nat
  | Bridge_given nat bytes

record server =
  bridges :: "(pystr, nat) dict"
  next_bridge :: nat
  tunnels :: "nat \<Rightarrow> (pystr \<times> phase) option"
  server_log :: "server_action list"

definition log_action :: "server_action \<Rightarrow> server \<Rightarrow> server" where
  "log_action a s = s\<lparr>server_log := server_log s @ [a]\<rparr>"

definition set_phase :: "nat \<Rightarrow> (pystr \<times> phase) option \<Rightarrow> server \<Rightarrow> server" where
  "set_phase c p s = s\<lparr>tunnels := (tunnels s)(c := p)\<rparr>"

text \<open>
  \<^verbatim>\<open>urlsplit(websocket.request.path).path\<close> and \<^verbatim>\<open>path.rsplit('/', 1)[-1] or 'local'\<close>; the first is the
  call that \<^verbatim>\<open>_process_request\<close> made for the same request.
\<close>

definition client_of :: "url_lib \<Rightarrow> pystr \<Rightarrow> pystr res" where
  "client_of lib request_path = bindr (urlsplit lib request_path) (\<lambda>u.
     let name = last (split_on 47 (url_path u)) in Inr (if name = [] then str_of ''local'' else name))"

definition tunnel_open :: "nat \<Rightarrow> pystr \<Rightarrow> server \<Rightarrow> server" where
  "tunnel_open c client s = set_phase c (Some (client, Reading)) s"

definition new_bridge :: "nat \<Rightarrow> pystr \<Rightarrow> bool \<Rightarrow> server \<Rightarrow> server" where
  "new_bridge c client wifi s =
     log_action (Bridge_started (next_bridge s) c client wifi)
       (s\<lparr>next_bridge := next_bridge s + 1, bridges := dict_set client (next_bridge s) (bridges s)\<rparr>)"

text \<open>\<^verbatim>\<open>pop(client_id, None)\<close>, and \<^verbatim>\<open>stop\<close> if there was a bridge.\<close>

definition drop_bridge :: "pystr \<Rightarrow> server \<Rightarrow> server" where
  "drop_bridge client s =
     (case dict_get (bridges s) client of
        None \<Rightarrow> s
      | Some b \<Rightarrow> log_action (Bridge_stopped b) (s\<lparr>bridges := dict_pop client (bridges s)\<rparr>))"

text \<open>The \<^verbatim>\<open>finally\<close> clause of a handler that ends.\<close>

definition tunnel_close :: "nat \<Rightarrow> pystr \<Rightarrow> server \<Rightarrow> server" where
  "tunnel_close c client s = set_phase c None (drop_bridge client s)"

text \<open>
  \<^verbatim>\<open>start_picow\<close>: \<open>start_now\<close> is what follows once no old bridge is left; \<open>None\<close> is \<^verbatim>\<open>msg_data.get\<close> raising.
\<close>

definition start_now :: "nat \<Rightarrow> pystr \<Rightarrow> bool option \<Rightarrow> server \<Rightarrow> server" where
  "start_now c client wifi s =
     (case wifi of
        None \<Rightarrow> tunnel_close c client s
      | Some enabled \<Rightarrow> set_phase c (Some (client, Reading)) (new_bridge c client enabled s))"

definition start_bridge :: "nat \<Rightarrow> pystr \<Rightarrow> bool option \<Rightarrow> server \<Rightarrow> server" where
  "start_bridge c client wifi s =
     (case dict_get (bridges s) client of
        None \<Rightarrow> start_now c client wifi s
      | Some old \<Rightarrow> set_phase c (Some (client, Stopping wifi)) (drop_bridge client s))"

text \<open>
  One message; \<open>out\<close> is the outcome of \<^verbatim>\<open>deliver_packet_out\<close>. An exception that escapes from it ends the handler, at once
  or when the suspended call resumes.
\<close>

definition on_message ::
  "web \<Rightarrow> nat \<Rightarrow> pystr \<Rightarrow> json option \<Rightarrow> outcome \<Rightarrow> server \<Rightarrow> server" where
  "on_message web c client raw out s =
     (case read_message raw of
        Ignored \<Rightarrow> s
      | Start wifi \<Rightarrow> start_bridge c client wifi s
      | Packet data \<Rightarrow>
          (case dict_get (bridges s) client of
             None \<Rightarrow> s
           | Some b \<Rightarrow>
               if \<not> truthy data then s
               else case web_b64 web data of
                   None \<Rightarrow> s
                 | Some ether \<Rightarrow>
                     let s1 = log_action (Bridge_given b ether) s
                     in case out of
                          Returned \<Rightarrow> s1
                        | Raised \<Rightarrow> tunnel_close c client s1
                        | Suspended \<Rightarrow> set_phase c (Some (client, Delivering)) s1)
      | Stop \<Rightarrow> drop_bridge client s
      | Malformed \<Rightarrow> tunnel_close c client s)"

definition delivered :: "nat \<Rightarrow> pystr \<Rightarrow> bool \<Rightarrow> server \<Rightarrow> server" where
  "delivered c client raised s =
     (if raised then tunnel_close c client s else set_phase c (Some (client, Reading)) s)"

section \<open>The registry as a machine\<close>

datatype server_event =
    Tunnel_opened nat pystr "pystr option"
  | Tunnel_message nat "json option" outcome
  | Tunnel_delivered nat bool
  | Tunnel_resumed nat
  | Tunnel_closed nat

inductive server_step :: "web \<Rightarrow> server \<Rightarrow> server_event \<Rightarrow> server \<Rightarrow> bool" for web where
  server_step_opened:
    "tunnels s c = None \<Longrightarrow> process_request web (length (bridges s)) path origin = Inr None \<Longrightarrow>
     client_of (web_urls web) path = Inr client \<Longrightarrow>
     server_step web s (Tunnel_opened c path origin) (tunnel_open c client s)"
| server_step_message:
    "tunnels s c = Some (client, Reading) \<Longrightarrow>
     server_step web s (Tunnel_message c raw out) (on_message web c client raw out s)"
| server_step_delivered:
    "tunnels s c = Some (client, Delivering) \<Longrightarrow>
     server_step web s (Tunnel_delivered c raised) (delivered c client raised s)"
| server_step_resumed:
    "tunnels s c = Some (client, Stopping wifi) \<Longrightarrow>
     server_step web s (Tunnel_resumed c) (start_now c client wifi s)"
| server_step_closed:
    "tunnels s c = Some (client, Reading) \<Longrightarrow>
     server_step web s (Tunnel_closed c) (tunnel_close c client s)"

inductive_cases server_stepE: "server_step web s e t"

definition server_new :: server where
  "server_new = \<lparr>bridges = [], next_bridge = 0, tunnels = (\<lambda>_. None), server_log = []\<rparr>"

end
