(* ===== verification/Server_Properties.thy ===== *)
theory Server_Properties
  imports Server
begin

text \<open>
  Who gets a tunnel, and which bridges live: in every run no stopped bridge is used, and if no two
  tunnels share a client id, the live bridges are exactly those of the open tunnels.
\<close>

section \<open>Admission\<close>

lemma origin_plain:
  assumes "plain_scheme sch" "plain_host host" "plain_port port"
  shows "origin_ok lib (Some (sch @ str_of ''://'' @ host @ port)) extra \<longleftrightarrow>
    sch @ str_of ''://'' @ host @ port \<in> set (ALLOWED_ORIGINS @ extra) \<or>
    lower sch \<in> {str_of ''http'', str_of ''https''} \<and>
    lower host \<in> {str_of ''localhost'', str_of ''127.0.0.1''}"
  using hostname_plain [OF assms(2,3), of "\<lparr>url_scheme = lower sch, url_netloc = host @ port,
      url_path = [], url_query = []\<rparr>"]
  by (simp add: origin_ok_def urlsplit_plain [OF assms])

text \<open>The first value of \<^verbatim>\<open>code\<close> in a query, empty when there is none.\<close>

definition supplied_code :: "url_lib \<Rightarrow> url \<Rightarrow> pystr" where
  "supplied_code lib u = (case qs_values lib (str_of ''code'') (url_query u) of [] \<Rightarrow> [] | v # _ \<Rightarrow> v)"

lemma process_request_split:
  "urlsplit (web_urls web) path = Inr u \<Longrightarrow> process_request web sessions path origin =
    (if url_path u = str_of ''/status''
     then bindr (status_response web sessions) (\<lambda>resp. Inr (Some resp))
     else if \<not> origin_ok (web_urls web) origin (gs_origins (web_self web))
     then Inr (Some (web_respond web 403 (str_of ''origin not allowed'' @ [10])))
     else if supplied_code (web_urls web) u \<noteq> gs_code (web_self web)
     then Inr (Some (web_respond web 401 (str_of ''pairing code required'' @ [10])))
     else Inr None)"
  by (simp add: process_request_def supplied_code_def Let_def)

lemma upgraded_iff:
  "process_request web sessions path origin = Inr None \<longleftrightarrow>
    (\<exists>u. urlsplit (web_urls web) path = Inr u \<and> url_path u \<noteq> str_of ''/status'' \<and>
       origin_ok (web_urls web) origin (gs_origins (web_self web)) \<and>
       supplied_code (web_urls web) u = gs_code (web_self web))"
proof (cases "urlsplit (web_urls web) path")
  case (Inl e)
  then show ?thesis by (simp add: process_request_def)
next
  case (Inr u)
  have "bindr (status_response web sessions) (\<lambda>resp. Inr (Some resp)) \<noteq> Inr None"
    by (cases "status_response web sessions") simp_all
  then show ?thesis using Inr by (simp add: process_request_split)
qed


text \<open>Libraries for examples: \<^verbatim>\<open>respond\<close> as \<^verbatim>\<open>websockets\<close> documents it, and a launch with a code.\<close>

definition sample_lib :: url_lib where
  "sample_lib = \<lparr>nfkc_safe = (\<lambda>_. True), bracket_safe = (\<lambda>_. False), unquote = (\<lambda>s. s)\<rparr>"

definition sample_respond :: "nat \<Rightarrow> pystr \<Rightarrow> http_response" where
  "sample_respond status text = \<lparr>http_status = status,
     response_headers = [(str_of ''Connection'', str_of ''close''), (str_of ''Content-Length'', decimal (length text)),
       (str_of ''Content-Type'', str_of ''text/plain; charset=utf-8'')],
     http_body = map word_of_nat text\<rparr>"

text \<open>Header names ignore case, \<^verbatim>\<open>del\<close> removes every entry of a name, assignment appends one.\<close>

definition same_header :: "pystr \<Rightarrow> pystr \<Rightarrow> bool" where
  "same_header k k' \<longleftrightarrow> lower k = lower k'"

definition drop_header :: "pystr \<Rightarrow> http_headers \<Rightarrow> http_headers" where
  "drop_header k hs = filter (\<lambda>h. \<not> same_header k (fst h)) hs"

definition sample_del :: "pystr \<Rightarrow> http_headers \<Rightarrow> http_headers res" where
  "sample_del k hs = (if list_ex (\<lambda>h. same_header k (fst h)) hs then Inr (drop_header k hs) else Inl KeyError)"

definition sample_web :: web where
  "sample_web = \<lparr>web_urls = sample_lib, web_respond = sample_respond, web_del = sample_del,
     web_set = (\<lambda>k v hs. hs @ [(k, v)]), web_b64 = (\<lambda>_. None),
     web_self = \<lparr>gs_port = 9013, gs_code = str_of ''042137'', gs_origins = []\<rparr>\<rparr>"

definition sample_path :: pystr where
  "sample_path = str_of ''/simulation/ws/a?code=042137''"

lemma sample_path_split:
  "urlsplit sample_lib sample_path = Inr \<lparr>url_scheme = [], url_netloc = [],
     url_path = str_of ''/simulation/ws/a'', url_query = str_of ''code=042137''\<rparr>"
  by code_simp


section \<open>The status document\<close>

text \<open>
  What \<^verbatim>\<open>websockets\<close> documents: \<^verbatim>\<open>respond\<close> sets the type and the length of its text, deleting a name
  removes all its entries, assigning one adds an entry.
\<close>

definition headers_documented :: "web \<Rightarrow> bool" where
  "headers_documented web \<longleftrightarrow>
     (\<forall>status text. \<forall>k \<in> {str_of ''Content-Type'', str_of ''Content-Length''}.
        list_ex (\<lambda>h. same_header k (fst h)) (response_headers (web_respond web status text))) \<and>
     (\<forall>k hs. list_ex (\<lambda>h. same_header k (fst h)) hs \<longrightarrow> web_del web k hs = Inr (drop_header k hs)) \<and>
     (\<forall>k v hs. web_set web k v hs = hs @ [(k, v)])"

lemma header_names:
  "\<not> same_header (str_of ''Content-Length'') (str_of ''Content-Type'')"
  "\<not> same_header (str_of ''Content-Type'') (str_of ''Content-Length'')"
  "\<not> same_header (str_of ''Content-Length'') (str_of ''Access-Control-Allow-Origin'')"
  "\<not> same_header (str_of ''Content-Type'') (str_of ''Access-Control-Allow-Origin'')"
  "\<not> same_header (str_of ''Access-Control-Allow-Origin'') (str_of ''Content-Length'')"
  "\<not> same_header (str_of ''Access-Control-Allow-Origin'') (str_of ''Content-Type'')"
  by code_simp+

lemma same_header_refl [simp]: "same_header k k"
  by (simp add: same_header_def)

lemma drop_header_other:
  "\<not> same_header k' k \<Longrightarrow> list_ex (\<lambda>h. same_header k (fst h)) (drop_header k' hs) \<longleftrightarrow>
     list_ex (\<lambda>h. same_header k (fst h)) hs"
  by (force simp: drop_header_def list_ex_iff same_header_def)

definition header_values :: "pystr \<Rightarrow> http_headers \<Rightarrow> pystr list" where
  "header_values k hs = map snd (filter (\<lambda>h. same_header k (fst h)) hs)"

lemma header_values_simps [simp]:
  "header_values k [] = []" "header_values k (hs @ hs') = header_values k hs @ header_values k hs'"
  "header_values k ((k', v) # hs) = (if same_header k k' then [v] else []) @ header_values k hs"
  "header_values k (drop_header k' hs) = (if same_header k k' then [] else header_values k hs)"
  by (auto simp: header_values_def drop_header_def same_header_def filter_empty_conv intro!: arg_cong [where f = "map snd"] filter_cong)

text \<open>The status page answers with exactly one \<^verbatim>\<open>Content-Length\<close>, the length of its body, and one
  \<^verbatim>\<open>Content-Type\<close>, whatever headers \<^verbatim>\<open>websockets\<close> put into the response it starts from; it is open
  to every origin, its body is the JSON text of the name, the version, the protocol and the
  number of sessions, and neither the request's origin nor the pairing code has a part in it.\<close>

lemma status_document_once:
  assumes "headers_documented web" "urlsplit (web_urls web) path = Inr u" "url_path u = str_of ''/status''"
  shows "\<exists>resp. process_request web sessions path origin = Inr (Some resp) \<and>
    http_status resp = http_status (web_respond web 200 []) \<and>
    http_body resp = map word_of_nat (status_text sessions) \<and>
    header_values (str_of ''Content-Length'') (response_headers resp) = [decimal (length (http_body resp))] \<and>
    header_values (str_of ''Content-Type'') (response_headers resp) = [str_of ''application/json''] \<and>
    last (header_values (str_of ''Access-Control-Allow-Origin'') (response_headers resp)) = str_of ''*''"
proof -
  let ?hs = "response_headers (web_respond web 200 [])"
  let ?h1 = "drop_header (str_of ''Content-Type'') ?hs"
  let ?h2 = "drop_header (str_of ''Content-Length'') ?h1"
  have has: "list_ex (\<lambda>h. same_header k (fst h)) ?hs"
    if "k \<in> {str_of ''Content-Type'', str_of ''Content-Length''}" for k
    using assms(1) that unfolding headers_documented_def by blast
  have del: "list_ex (\<lambda>h. same_header k (fst h)) hs \<Longrightarrow> web_del web k hs = Inr (drop_header k hs)" for k hs
    using assms(1) unfolding headers_documented_def by blast
  have set: "web_set web k v hs = hs @ [(k, v)]" for k v hs
    using assms(1) unfolding headers_documented_def by blast
  have 1: "web_del web (str_of ''Content-Type'') ?hs = Inr ?h1" using has by (intro del) simp
  have "list_ex (\<lambda>h. same_header (str_of ''Content-Length'') (fst h)) ?h1"
    using has by (simp add: drop_header_other header_names)
  then have 2: "web_del web (str_of ''Content-Length'') ?h1 = Inr ?h2" by (rule del)
  show ?thesis
    using assms(2,3) 1 2
    by (simp add: process_request_split status_response_def Let_def set header_names)
qed

lemma sample_documented: "headers_documented sample_web"
  unfolding headers_documented_def
proof (intro conjI allI ballI impI)
  fix k status msg assume "k \<in> {str_of ''Content-Type'', str_of ''Content-Length''}"
  then show "list_ex (\<lambda>h. same_header k (fst h)) (response_headers (web_respond sample_web status msg))"
    by (auto simp: sample_web_def sample_respond_def)
qed (simp_all add: sample_web_def sample_del_def)


lemma sample_status:
  "\<exists>resp. process_request sample_web 2 (str_of ''/status'') None = Inr (Some resp) \<and>
    header_values (str_of ''Content-Length'') (response_headers resp) = [str_of ''80'']"
proof -
  let ?u = "\<lparr>url_scheme = [], url_netloc = [], url_path = str_of ''/status'', url_query = []\<rparr>"
  have "urlsplit sample_lib (str_of ''/status'') = Inr ?u" by code_simp
  then have "urlsplit (web_urls sample_web) (str_of ''/status'') = Inr ?u" by (simp add: sample_web_def)
  moreover have "decimal (length (map word_of_nat (status_text 2) :: bytes)) = str_of ''80''" by code_simp
  ultimately show ?thesis using status_document_once [OF sample_documented, of "str_of ''/status''" ?u 2 None] by auto
qed

section \<open>Bridges that live\<close>

text \<open>The bridges alive after a log, \<open>None\<close> where it uses or stops one that is not.\<close>

fun alive :: "nat set \<Rightarrow> server_action list \<Rightarrow> nat set option" where
  "alive L [] = Some L"
| "alive L (Bridge_started b c client wifi # lg) = alive (insert b L) lg"
| "alive L (Bridge_stopped b # lg) = (if b \<in> L then alive (L - {b}) lg else None)"
| "alive L (Bridge_given b ether # lg) = (if b \<in> L then alive L lg else None)"

lemma alive_append: "alive L (lg @ lg') = Option.bind (alive L lg) (\<lambda>L'. alive L' lg')"
  by (induction L lg rule: alive.induct) auto

text \<open>The tunnel whose handler created a bridge, and whose WebSocket the bridge sends to.\<close>

fun started_by :: "server_action list \<Rightarrow> nat \<Rightarrow> nat option" where
  "started_by [] n = None"
| "started_by (Bridge_started b c client wifi # lg) n = (if b = n then Some c else started_by lg n)"
| "started_by (Bridge_stopped b # lg) n = started_by lg n"
| "started_by (Bridge_given b ether # lg) n = started_by lg n"

lemma started_by_append:
  "started_by (lg @ lg') n = (case started_by lg n of None \<Rightarrow> started_by lg' n | Some c \<Rightarrow> Some c)"
  by (induction lg n rule: started_by.induct) auto

lemma started_by_snoc [simp]:
  "started_by (lg @ [Bridge_stopped b]) n = started_by lg n"
  "started_by (lg @ [Bridge_given b e]) n = started_by lg n"
  by (simp_all add: started_by_append split: option.split)

definition registry_ok :: "server \<Rightarrow> nat set \<Rightarrow> bool" where
  "registry_ok s L \<longleftrightarrow> alive {} (server_log s) = Some L \<and> (\<forall>b \<in> L. b < next_bridge s) \<and>
     (\<forall>b. started_by (server_log s) b \<noteq> None \<longleftrightarrow> b < next_bridge s) \<and>
     (\<forall>cl b. dict_get (bridges s) cl = Some b \<longrightarrow> b \<in> L) \<and>
     (\<forall>cl cl' b. dict_get (bridges s) cl = Some b \<longrightarrow> dict_get (bridges s) cl' = Some b \<longrightarrow> cl = cl')"

definition server_inv :: "server \<Rightarrow> bool" where
  "server_inv s \<longleftrightarrow> (\<exists>L. registry_ok s L)"

lemma registry_new: "registry_ok server_new {}"
  by (simp add: registry_ok_def server_new_def dict_laws)

lemma log_simps [simp]:
  "bridges (log_action a s) = bridges s" "next_bridge (log_action a s) = next_bridge s"
  "tunnels (log_action a s) = tunnels s" "server_log (log_action a s) = server_log s @ [a]"
  "bridges (set_phase c p s) = bridges s" "next_bridge (set_phase c p s) = next_bridge s"
  "tunnels (set_phase c p s) = (tunnels s)(c := p)" "server_log (set_phase c p s) = server_log s"
  by (simp_all add: log_action_def set_phase_def)

lemma registry_phase [simp]: "registry_ok (set_phase c p s) L = registry_ok s L"
  by (simp add: registry_ok_def)

lemma registry_started:
  "registry_ok s L \<Longrightarrow> registry_ok (new_bridge c client wifi s) (insert (next_bridge s) L)"
  unfolding registry_ok_def
  by (simp add: new_bridge_def alive_append started_by_append py_dict.get_put less_Suc_eq split: option.split)
    (metis less_irrefl_nat option.distinct(1) option.exhaust)

lemma registry_dropped:
  assumes "registry_ok s L"
  shows "registry_ok (drop_bridge client s)
    (case dict_get (bridges s) client of None \<Rightarrow> L | Some b \<Rightarrow> L - {b})"
proof (cases "dict_get (bridges s) client")
  case None
  then show ?thesis using assms by (simp add: drop_bridge_def)
next
  case (Some b)
  have "b \<in> L" using assms Some by (simp add: registry_ok_def)
  moreover have "cl = client" if "dict_get (bridges s) cl = Some b" for cl
    using assms that Some by (auto simp: registry_ok_def)
  ultimately show ?thesis
    using assms Some unfolding registry_ok_def
    by (simp add: drop_bridge_def alive_append py_dict.get_pop) blast
qed

lemma registry_given:
  "registry_ok s L \<Longrightarrow> dict_get (bridges s) client = Some b \<Longrightarrow> registry_ok (log_action (Bridge_given b e) s) L"
  by (auto simp: registry_ok_def alive_append)

lemma server_inv_ops:
  assumes "server_inv s"
  shows "server_inv (set_phase c p s)" "server_inv (new_bridge c client wifi s)"
    "server_inv (drop_bridge client s)" "server_inv (tunnel_close c client s)"
    "server_inv (start_now c client given s)" "server_inv (start_bridge c client given s)"
    "dict_get (bridges s) client = Some b \<Longrightarrow> server_inv (log_action (Bridge_given b e) s)"
  using assms registry_started registry_dropped registry_given
  by (auto simp: server_inv_def tunnel_close_def start_bridge_def start_now_def split: option.split)
    (metis registry_dropped registry_started)+

lemma server_inv_message: "server_inv s \<Longrightarrow> server_inv (on_message web c client raw out s)"
  by (auto simp: on_message_def Let_def server_inv_ops split: message.split option.split outcome.split)

interpretation server: machine "\<lambda>s. s = server_new" "server_step web" server_inv for web
proof unfold_locales
  show "s = server_new \<Longrightarrow> server_inv s" for s using registry_new by (auto simp: server_inv_def)
  show "server_inv s \<Longrightarrow> server_step web s e t \<Longrightarrow> server_inv t" for s e t
    by (erule server_stepE)
      (simp_all add: tunnel_open_def delivered_def server_inv_ops server_inv_message)
qed

section \<open>Only paired clients have tunnels and bridges\<close>

text \<open>A request for the client that was upgraded.\<close>

definition paired :: "web \<Rightarrow> pystr \<Rightarrow> bool" where
  "paired web client \<longleftrightarrow> (\<exists>path origin u. urlsplit (web_urls web) path = Inr u \<and>
     client_of (web_urls web) path = Inr client \<and> url_path u \<noteq> str_of ''/status'' \<and>
     origin_ok (web_urls web) origin (gs_origins (web_self web)) \<and>
     supplied_code (web_urls web) u = gs_code (web_self web))"

definition all_paired :: "web \<Rightarrow> server \<Rightarrow> bool" where
  "all_paired web s \<longleftrightarrow> (\<forall>c client ph. tunnels s c = Some (client, ph) \<longrightarrow> paired web client) \<and>
     (\<forall>n c client wifi. Bridge_started n c client wifi \<in> set (server_log s) \<longrightarrow> paired web client)"

lemma all_paired_ops:
  assumes "all_paired web s"
  shows "paired web client \<Longrightarrow> all_paired web (set_phase c (Some (client, ph)) s)"
    "all_paired web (set_phase c None s)" "all_paired web (drop_bridge client s)"
    "all_paired web (tunnel_close c client s)" "all_paired web (log_action (Bridge_given b e) s)"
    "paired web client \<Longrightarrow> all_paired web (new_bridge c client wifi s)"
  using assms
  by (auto simp: all_paired_def tunnel_close_def drop_bridge_def new_bridge_def split: option.split if_splits)

lemma all_paired_start:
  assumes "all_paired web s" "paired web client"
  shows "all_paired web (start_now c client given s)" "all_paired web (start_bridge c client given s)"
  using all_paired_ops [OF assms(1)] all_paired_ops(1) [OF all_paired_ops(6) [OF assms] assms(2)]
    all_paired_ops(1) [OF all_paired_ops(3) [OF assms(1)] assms(2)] assms(2)
  by (auto simp: start_now_def start_bridge_def split: option.split)

lemma all_paired_step:
  assumes "all_paired web s" "server_step web s e t"
  shows "all_paired web t"
  using assms(2)
proof cases
  case (server_step_opened c path origin client)
  then have "paired web client" unfolding paired_def upgraded_iff by blast
  then show ?thesis using all_paired_ops(1) [OF assms(1)] server_step_opened(2) by (simp add: tunnel_open_def)
next
  case (server_step_message c client raw out)
  then have p: "paired web client" using assms(1) unfolding all_paired_def by blast
  note given = all_paired_ops(5) [OF assms(1)]
  have "all_paired web (on_message web c client raw out s)"
    using assms(1) all_paired_ops [OF assms(1)] all_paired_start [OF assms(1) p] given
      all_paired_ops(1) [OF given p] all_paired_ops(4) [OF given]
    by (auto simp: on_message_def Let_def split: message.split option.split outcome.split)
  then show ?thesis using server_step_message(2) by simp
next
  case (server_step_delivered c client raised)
  then have "paired web client" using assms(1) unfolding all_paired_def by blast
  then show ?thesis using all_paired_ops [OF assms(1)] server_step_delivered(2) by (simp add: delivered_def)
next
  case (server_step_resumed c client wifi)
  then have "paired web client" using assms(1) unfolding all_paired_def by blast
  then show ?thesis using all_paired_start(1) [OF assms(1)] server_step_resumed(2) by simp
next
  case (server_step_closed c client)
  then show ?thesis using all_paired_ops(4) [OF assms(1)] by simp
qed

lemma all_paired_runs:
  assumes "runs (server_step web) server_new s"
  shows "all_paired web s"
  using assms
proof (rule runs_induct)
  show "all_paired web server_new" by (simp add: all_paired_def server_new_def)
qed (rule all_paired_step)

section \<open>Sessions that do not share a client id\<close>

definition exclusive :: "web \<Rightarrow> server \<Rightarrow> server_event \<Rightarrow> bool" where
  "exclusive web s e \<longleftrightarrow>
     (case e of Tunnel_opened c path origin \<Rightarrow>
        \<forall>c' client ph. tunnels s c' = Some (client, ph) \<longrightarrow> client_of (web_urls web) path \<noteq> Inr client
      | _ \<Rightarrow> True)"

definition exclusive_step ::
  "web \<Rightarrow> server \<Rightarrow> server_event \<Rightarrow> server \<Rightarrow> bool" where
  "exclusive_step web s e t \<longleftrightarrow> server_step web s e t \<and> exclusive web s e"

text \<open>Every live bridge is registered, for the client of one tunnel that is not replacing its bridge.\<close>

definition all_registered :: "server \<Rightarrow> nat set \<Rightarrow> bool" where
  "all_registered s L \<longleftrightarrow> registry_ok s L \<and> (\<forall>b \<in> L. \<exists>cl. dict_get (bridges s) cl = Some b)"

definition client_at :: "server \<Rightarrow> nat \<Rightarrow> pystr option" where
  "client_at s c = map_option fst (tunnels s c)"

definition apart :: "server \<Rightarrow> bool" where
  "apart s \<longleftrightarrow> (\<forall>c c' cl. client_at s c = Some cl \<longrightarrow> client_at s c' = Some cl \<longrightarrow> c = c')"

definition reading :: "server \<Rightarrow> pystr \<Rightarrow> nat \<Rightarrow> bool" where
  "reading s cl b \<longleftrightarrow> (\<exists>c ph. tunnels s c = Some (cl, ph) \<and> ph \<in> {Reading, Delivering} \<and>
     started_by (server_log s) b = Some c)"

definition owned :: "server \<Rightarrow> bool" where
  "owned s \<longleftrightarrow> (\<exists>L. all_registered s L) \<and> dict_all (reading s) (bridges s) \<and> apart s"

lemma owned_new: "owned server_new"
  using registry_new by (auto simp: owned_def all_registered_def apart_def client_at_def server_new_def)

lemma apart_phase:
  assumes "apart s" "tunnels t = tunnels s" "map_option fst p \<in> {None, client_at s c}"
  shows "apart (set_phase c p t)"
proof -
  have "client_at (set_phase c p t) x \<in> {None, client_at s x}" for x
    using assms(2,3) by (auto simp: client_at_def)
  then show ?thesis using assms(1) unfolding apart_def by (metis insertE option.distinct(1) singletonD)
qed

lemma reading_phase:
  "reading s cl b \<Longrightarrow> tunnels t = tunnels s \<Longrightarrow> started_by (server_log t) b = started_by (server_log s) b \<Longrightarrow>
   tunnels s c = Some (client, ph) \<Longrightarrow> cl \<noteq> client \<Longrightarrow> reading (set_phase c p t) cl b"
  unfolding reading_def by (metis Pair_inject fun_upd_apply log_simps(7,8) option.inject)

lemma drop_simps [simp]:
  "tunnels (drop_bridge client s) = tunnels s"
  "dict_get (bridges (drop_bridge client s)) cl = (if cl = client then None else dict_get (bridges s) cl)"
  "started_by (server_log (drop_bridge client s)) b = started_by (server_log s) b"
  by (auto simp: drop_bridge_def py_dict.get_pop split: option.split)

lemma new_simps [simp]:
  "tunnels (new_bridge c client wifi s) = tunnels s"
  "dict_get (bridges (new_bridge c client wifi s)) cl =
     (if cl = client then Some (next_bridge s) else dict_get (bridges s) cl)"
  "started_by (server_log (new_bridge c client wifi s)) b =
     (case started_by (server_log s) b of None \<Rightarrow> if b = next_bridge s then Some c else None | Some x \<Rightarrow> Some x)"
  by (simp_all add: new_bridge_def py_dict.get_put started_by_append split: option.split)

lemma all_registered_drop:
  assumes "all_registered s L"
  shows "\<exists>L. all_registered (drop_bridge client s) L"
proof -
  have "\<exists>cl. dict_get (bridges (drop_bridge client s)) cl = Some b"
    if "b \<in> L" "dict_get (bridges s) client \<noteq> Some b" for b
    using assms that unfolding all_registered_def drop_simps by metis
  moreover have "b \<in> L \<and> dict_get (bridges s) client \<noteq> Some b"
    if "b \<in> (case dict_get (bridges s) client of None \<Rightarrow> L | Some b \<Rightarrow> L - {b})" for b
    using that by (auto split: option.splits)
  ultimately show ?thesis
    using registry_dropped [of s L client] assms unfolding all_registered_def by blast
qed

lemma all_registered_new:
  assumes "all_registered s L" "dict_get (bridges s) client = None"
  shows "\<exists>L. all_registered (new_bridge c client wifi s) L"
proof -
  have "\<exists>cl. dict_get (bridges (new_bridge c client wifi s)) cl = Some b" if "b \<in> insert (next_bridge s) L" for b
    using assms that unfolding all_registered_def new_simps by (metis insertE option.distinct(1))
  then show ?thesis
    using registry_started [of s L c client wifi] assms unfolding all_registered_def by blast
qed

lemma all_registered_phase [simp]: "all_registered (set_phase c p s) L = all_registered s L"
  by (simp add: all_registered_def)

lemma owned_drop:
  assumes "owned s" "tunnels s c = Some (client, ph)" "map_option fst p \<in> {None, Some client}"
  shows "owned (set_phase c p (drop_bridge client s))"
proof -
  have "apart (set_phase c p (drop_bridge client s))"
    using assms by (intro apart_phase [of s]) (auto simp: owned_def client_at_def)
  moreover have "dict_all (reading (set_phase c p (drop_bridge client s))) (bridges (drop_bridge client s))"
    using assms(1,2) by (auto simp: owned_def dict_all_def intro: reading_phase [of s] split: if_splits)
  ultimately show ?thesis
    using assms(1) all_registered_drop [of s _ client] by (auto simp: owned_def)
qed

lemma owned_start:
  assumes "owned s" "tunnels s c = Some (client, ph)" "dict_get (bridges s) client = None"
  shows "owned (set_phase c (Some (client, Reading)) (new_bridge c client wifi s))"
proof -
  let ?s = "set_phase c (Some (client, Reading)) (new_bridge c client wifi s)"
  have "apart ?s"
    using assms by (intro apart_phase [of s]) (auto simp: owned_def client_at_def)
  moreover have "dict_all (reading ?s) (bridges (new_bridge c client wifi s))"
    unfolding dict_all_def
  proof (intro allI impI)
    fix cl b assume b: "dict_get (bridges (new_bridge c client wifi s)) cl = Some b"
    show "reading ?s cl b"
    proof (cases "cl = client")
      case True
      have "started_by (server_log s) (next_bridge s) = None"
        using assms(1) unfolding owned_def all_registered_def registry_ok_def by blast
      then show ?thesis using b True by (auto simp: reading_def)
    next
      case False
      then have "reading s cl b" using b assms(1) by (auto simp: owned_def dict_all_def)
      moreover from this have "started_by (server_log (new_bridge c client wifi s)) b = started_by (server_log s) b"
        by (auto simp: reading_def)
      ultimately show ?thesis using reading_phase [of s cl b] assms(2) False by simp
    qed
  qed
  ultimately show ?thesis
    using assms(1,3) all_registered_new [of s _ client c wifi] by (auto simp: owned_def)
qed

lemma owned_start_now:
  assumes "owned s" "tunnels s c = Some (client, ph)" "dict_get (bridges s) client = None"
  shows "owned (start_now c client given s)"
  using owned_start [OF assms] owned_drop [OF assms(1,2), of None]
  by (simp add: start_now_def tunnel_close_def split: option.split)

lemma phase_same: "tunnels s c = p \<Longrightarrow> set_phase c p s = s"
  by (cases s) (auto simp: set_phase_def)

lemma owned_given:
  assumes "owned s" "dict_get (bridges s) client = Some b"
  shows "owned (log_action (Bridge_given b e) s)"
proof -
  have "all_registered (log_action (Bridge_given b e) s) L" if "all_registered s L" for L
    using that registry_given [of s L client b e] assms(2) by (simp add: all_registered_def)
  then show ?thesis
    using assms(1) by (auto simp: owned_def apart_def client_at_def reading_def dict_all_def)
qed

lemma owned_opened:
  assumes "owned s" "tunnels s c = None" "\<forall>c' ph. tunnels s c' \<noteq> Some (cl, ph)"
  shows "owned (set_phase c (Some (cl, Reading)) s)"
proof -
  have "client_at s x \<noteq> Some cl" for x using assms(3) by (force simp: client_at_def)
  moreover have "client_at (set_phase c (Some (cl, Reading)) s) x = (if x = c then Some cl else client_at s x)" for x
    by (simp add: client_at_def)
  ultimately have "apart (set_phase c (Some (cl, Reading)) s)"
    using assms(1) unfolding owned_def apart_def by (metis option.inject)
  moreover have "reading (set_phase c (Some (cl, Reading)) s) x b" if "reading s x b" for x b
    using that assms(2) unfolding reading_def by (metis fun_upd_apply log_simps(7,8) option.distinct(1))
  ultimately show ?thesis using assms(1) by (auto simp: owned_def dict_all_def)
qed

lemma owned_phase:
  assumes own: "owned s" and c: "tunnels s c = Some (client, ph)" and "ph' \<in> {Reading, Delivering}"
  shows "owned (set_phase c (Some (client, ph')) s)"
proof -
  have "apart (set_phase c (Some (client, ph')) s)"
    using own c by (intro apart_phase [of s]) (auto simp: owned_def client_at_def)
  moreover have "reading (set_phase c (Some (client, ph')) s) cl b" if "reading s cl b" for cl b
  proof (cases "cl = client")
    case True
    then have "tunnels (set_phase c (Some (client, ph')) s) c = Some (cl, ph')" by simp
    moreover have "started_by (server_log s) b = Some c"
      using that own c True by (auto simp: reading_def owned_def apart_def client_at_def)
    ultimately show ?thesis using assms(3) unfolding reading_def by auto
  next
    case False
    then show ?thesis using reading_phase [OF that refl refl c] by blast
  qed
  ultimately show ?thesis using own by (auto simp: owned_def dict_all_def)
qed

lemma owned_message:
  assumes own: "owned s" and c: "tunnels s c = Some (client, Reading)"
  shows "owned (on_message web c client raw out s)"
proof -
  have drop: "owned (drop_bridge client s)"
    using owned_drop [OF own c, of "Some (client, Reading)"] c by (simp add: phase_same)
  have "owned (start_bridge c client given s)" for given
    using owned_start_now [OF own c] owned_drop [OF own c, of "Some (client, Stopping given)"]
    by (simp add: start_bridge_def split: option.split)
  moreover have "owned (tunnel_close c client t)" if "owned t" "tunnels t = tunnels s" for t
    using owned_drop [OF that(1), of c client Reading None] c that(2) by (simp add: tunnel_close_def)
  moreover have "owned (set_phase c (Some (client, Delivering)) t)" if "owned t" "tunnels t = tunnels s" for t
    using owned_phase [OF that(1), of c client Reading Delivering] c that(2) by simp
  ultimately show ?thesis
    using own drop owned_given [OF own]
    by (auto simp: on_message_def Let_def split: message.split option.split outcome.split)
qed

lemma owned_step:
  assumes own: "owned s" and step: "exclusive_step web s e t"
  shows "owned t"
proof -
  have st: "server_step web s e t" and ex: "exclusive web s e" using step by (simp_all add: exclusive_step_def)
  show ?thesis
    using st
  proof cases
    case (server_step_opened c path origin client)
    then show ?thesis using ex own owned_opened [of s c client] by (auto simp: tunnel_open_def exclusive_def)
  next
    case (server_step_message c client raw out)
    then show ?thesis using own owned_message by simp
  next
    case (server_step_delivered c client raised)
    then show ?thesis
      using own owned_drop [OF own, of c client Delivering None] owned_phase [OF own, of c client Delivering Reading]
      by (simp add: delivered_def tunnel_close_def)
  next
    case (server_step_resumed c client wifi)
    have "dict_get (bridges s) client = None"
    proof (rule ccontr)
      assume "dict_get (bridges s) client \<noteq> None"
      then obtain c' ph where c': "tunnels s c' = Some (client, ph)" "ph \<in> {Reading, Delivering}"
        using own unfolding owned_def reading_def dict_all_def by blast
      then have "c' = c" using own server_step_resumed(3) by (simp add: owned_def apart_def client_at_def)
      then show False using c' server_step_resumed(3) by auto
    qed
    then show ?thesis
      using owned_start_now [OF own server_step_resumed(3)] server_step_resumed(2) by simp
  next
    case (server_step_closed c client)
    then show ?thesis using owned_drop [OF own, of c client Reading None] by (simp add: tunnel_close_def)
  qed
qed

interpretation exclusive: machine "\<lambda>s. s = server_new" "exclusive_step web" owned for web
  by unfold_locales (auto intro: owned_new owned_step)

lemma bridges_follow_sessions:
  assumes "runs (server_step web) server_new s" "runs (exclusive_step web) server_new t"
  shows "(\<exists>L. alive {} (server_log s) = Some L \<and>
      (\<forall>cl b. dict_get (bridges s) cl = Some b \<longrightarrow> b \<in> L) \<and>
      (\<forall>cl cl' b. dict_get (bridges s) cl = Some b \<longrightarrow> dict_get (bridges s) cl' = Some b \<longrightarrow> cl = cl')) \<and>
    (\<exists>L. alive {} (server_log t) = Some L \<and>
      (\<forall>b \<in> L. \<exists>c cl ph. dict_get (bridges t) cl = Some b \<and> tunnels t c = Some (cl, ph) \<and>
         started_by (server_log t) b = Some c) \<and>
      ((\<forall>c. tunnels t c = None) \<longrightarrow> L = {}))"
proof -
  have "server_inv s" using server.inv_reachable [OF refl assms(1)] .
  then obtain L where L: "registry_ok s L" unfolding server_inv_def by blast
  have own: "owned t" using exclusive.inv_reachable [OF refl assms(2)] .
  then obtain K where K: "all_registered t K" unfolding owned_def by blast
  have "\<exists>c cl ph. dict_get (bridges t) cl = Some b \<and> tunnels t c = Some (cl, ph) \<and>
      started_by (server_log t) b = Some c" if "b \<in> K" for b
    using K own that unfolding all_registered_def owned_def reading_def dict_all_def by meson
  moreover have "alive {} (server_log t) = Some K" using K by (simp add: all_registered_def registry_ok_def)
  ultimately show ?thesis using L unfolding registry_ok_def by fastforce
qed

text \<open>A session that starts a bridge, and a second tunnel with the same client id.\<close>

definition start_message :: "json option" where
  "start_message = Some (JObj [(str_of ''type'', JStr (str_of ''start_picow'')),
     (str_of ''data'', JObj [(str_of ''wifi_enabled'', JBool True)])])"

lemma start_message_read: "read_message start_message = Start (Some True)"
  by (simp add: start_message_def read_message_def dict_get_or_def dict_get_def str_of_def truthy_def)

definition one_session :: server where
  "one_session = on_message sample_web 0 (str_of ''a'') start_message Returned
     (tunnel_open 0 (str_of ''a'') server_new)"

lemma sample_upgraded: "process_request sample_web sessions sample_path None = Inr None"
proof -
  let ?u = "\<lparr>url_scheme = [], url_netloc = [], url_path = str_of ''/simulation/ws/a'',
    url_query = str_of ''code=042137''\<rparr>"
  have "supplied_code sample_lib ?u = str_of ''042137''" "url_path ?u \<noteq> str_of ''/status''" by code_simp+
  then show ?thesis
    unfolding upgraded_iff using sample_path_split by (auto simp: sample_web_def origin_ok_def)
qed

lemma client_a: "client_of (web_urls sample_web) sample_path = Inr (str_of ''a'')"
proof -
  have "last (split_on 47 (str_of ''/simulation/ws/a'')) = str_of ''a''" "str_of ''a'' \<noteq> []" by code_simp+
  then show ?thesis using sample_path_split by (simp add: client_of_def sample_web_def)
qed

lemma sample_opened:
  "tunnels s c = None \<Longrightarrow> server_step sample_web s (Tunnel_opened c sample_path None) (tunnel_open c (str_of ''a'') s)"
  by (rule server_step_opened [OF _ sample_upgraded client_a])

lemma one_session_run: "runs (exclusive_step sample_web) server_new one_session"
proof -
  let ?t = "tunnel_open 0 (str_of ''a'') server_new"
  have "exclusive_step sample_web server_new (Tunnel_opened 0 sample_path None) ?t"
    by (auto simp: exclusive_step_def exclusive_def server_new_def intro: sample_opened)
  moreover have "exclusive_step sample_web ?t (Tunnel_message 0 start_message Returned) one_session"
    unfolding one_session_def exclusive_step_def
    by (auto simp: exclusive_def tunnel_open_def intro!: server_step_message)
  ultimately show ?thesis by (meson runs_refl runs_step)
qed

lemma one_session_state:
  "server_log one_session = [Bridge_started 0 0 (str_of ''a'') True]"
  "dict_get (bridges one_session) (str_of ''a'') = Some 0" "tunnels one_session 0 = Some (str_of ''a'', Reading)"
  "tunnels one_session (Suc 0) = None"
  by (simp_all add: one_session_def on_message_def start_message_read start_bridge_def start_now_def tunnel_open_def
      server_new_def dict_laws new_bridge_def)

lemma exclusive_runs: "runs (exclusive_step web) s t \<Longrightarrow> runs (server_step web) s t"
  by (erule runs_induct) (auto simp: runs_refl exclusive_step_def intro: runs_step)

text \<open>
  Why the client ids must differ: a second tunnel with the id of the first takes the first
  one's bridge down when it closes, while the first is still open.
\<close>

lemma shared_id_loses_bridge:
  "\<exists>s. runs (server_step sample_web) one_session s \<and> tunnels s 0 = Some (str_of ''a'', Reading) \<and>
     alive {} (server_log s) = Some {}"
proof -
  let ?t = "tunnel_open 1 (str_of ''a'') one_session"
  let ?u = "tunnel_close 1 (str_of ''a'') ?t"
  have "server_step sample_web one_session (Tunnel_opened 1 sample_path None) ?t"
    by (rule sample_opened) (simp add: one_session_state)
  moreover have "server_step sample_web ?t (Tunnel_closed 1) ?u"
    by (rule server_step_closed) (simp add: tunnel_open_def)
  ultimately have "runs (server_step sample_web) one_session ?u" by (meson runs_refl runs_step)
  moreover have "tunnels ?u 0 = Some (str_of ''a'', Reading)" "alive {} (server_log ?u) = Some {}"
    by (simp_all add: tunnel_close_def drop_bridge_def tunnel_open_def one_session_state)
  ultimately show ?thesis by blast
qed

end
