(* ===== verification/Gateway.thy ===== *)
theory Gateway
  imports Bridge_Outputs Server_Properties
begin

text \<open>
  The whole process: the handlers of \<^verbatim>\<open>velxiogw/server.py\<close> and the bridges they create, which
  share one DNS proxy. What the server does to bridges (its log) is carried out on the bridges'
  own models; the tunnel that delivers a frame is the call number of the DNS query it may wait
  for, because a handler has one call under way at a time.
\<close>

section \<open>State\<close>

record gateway =
  gw_server :: server
  gw_dns :: dns_state
  gw_pool :: "nat \<Rightarrow> bridge option"

definition gw_new :: gateway where
  "gw_new = \<lparr>gw_server = server_new, gw_dns = dns_new, gw_pool = (\<lambda>_. None)\<rparr>"

text \<open>A bridge as it sees the process, and the process after a bridge has done something.\<close>

definition bridge_at :: "gateway \<Rightarrow> nat \<Rightarrow> bridge option" where
  "bridge_at g n = map_option (\<lambda>b. b\<lparr>br_dns := gw_dns g\<rparr>) (gw_pool g n)"

definition put_bridge :: "nat \<Rightarrow> bridge \<Rightarrow> gateway \<Rightarrow> gateway" where
  "put_bridge n b g = g\<lparr>gw_dns := br_dns b, gw_pool := (gw_pool g)(n \<mapsto> b)\<rparr>"

section \<open>What the server does to bridges\<close>

text \<open>The identity of a bridge that the server creates: the defaults of \<^verbatim>\<open>PicowNetBridge\<close>.\<close>

definition identity_of :: "pystr \<Rightarrow> bridge_identity" where
  "identity_of client =
     \<lparr>ev_client_id = client, ev_user_id = None, ev_project_id = None, ev_session_id = None,
      ev_board_kind = str_of ''pi-pico-w''\<rparr>"

definition outcome_of :: "io \<Rightarrow> bridge run \<Rightarrow> outcome" where
  "outcome_of w r =
     (if fst r \<noteq> None then Raised else if dns_macs (snd r) (io_call w) \<noteq> None then Suspended else Returned)"

fun act :: "egress_env \<Rightarrow> io \<Rightarrow> server_action \<Rightarrow> gateway \<Rightarrow> (outcome \<times> gateway) option" where
  "act env w (Bridge_started n c client wifi) g =
     Some (Returned, put_bridge n (start (bridge_new (identity_of client) wifi n (gw_dns g))) g)"
| "act env w (Bridge_stopped n) g =
     map_option (\<lambda>b. (Returned, put_bridge n (stop b) g)) (bridge_at g n)"
| "act env w (Bridge_given n ether) g =
     Option.bind (bridge_at g n) (\<lambda>b.
       map_option (\<lambda>r. (outcome_of w r, put_bridge n (snd r) g)) (deliver_packet_out env w ether b))"

text \<open>A list of actions; its outcome is that of the frame it delivers, if it delivers one.\<close>

fun acts :: "egress_env \<Rightarrow> io \<Rightarrow> server_action list \<Rightarrow> gateway \<Rightarrow> (outcome \<times> gateway) option" where
  "acts env w [] g = Some (Returned, g)"
| "acts env w (a # as) g =
     Option.bind (act env w a g) (\<lambda>(out, g1).
       map_option (\<lambda>(out', g2). (if out = Returned then out' else out, g2)) (acts env w as g1))"

text \<open>The server goes to \<open>s\<close>, and what it has logged on the way is done.\<close>

definition serve :: "egress_env \<Rightarrow> io \<Rightarrow> server \<Rightarrow> gateway \<Rightarrow> (outcome \<times> gateway) option" where
  "serve env w s g =
     map_option (\<lambda>(out, g1). (out, g1\<lparr>gw_server := s\<rparr>))
       (acts env w (drop (length (server_log (gw_server g))) (server_log s)) g)"

section \<open>Steps\<close>

datatype gw_event =
    Gw_opened nat pystr "pystr option"
  | Gw_message nat "json option" io
  | Gw_returned nat bool
  | Gw_replaced nat
  | Gw_closed nat
  | Gw_bridge nat br_event
  | Gw_lookup nat real "pystr list res"

text \<open>What a bridge's own tasks, sockets and callers do.\<close>

definition own_event :: "br_event \<Rightarrow> bool" where
  "own_event e \<longleftrightarrow> (case e of Br_tcp _ \<Rightarrow> True | Br_in _ \<Rightarrow> True | Br_udp _ \<Rightarrow> True | Br_http _ _ \<Rightarrow> True
     | Br_request _ _ _ \<Rightarrow> True | _ \<Rightarrow> False)"

text \<open>
  The outcome of a message is that of delivering its frame. A suspended call returns when its
  lookup is over or too slow; what it returns ends the tunnel or lets it read on.
\<close>

inductive gw_step ::
  "egress_env \<Rightarrow> web \<Rightarrow> gateway \<Rightarrow> gw_event \<Rightarrow> gateway \<Rightarrow> bool" for env web where
  gw_step_opened:
    "tunnels (gw_server g) c = None \<Longrightarrow>
     process_request web (length (bridges (gw_server g))) path origin = Inr None \<Longrightarrow>
     client_of (web_urls web) path = Inr client \<Longrightarrow>
     gw_step env web g (Gw_opened c path origin) (g\<lparr>gw_server := tunnel_open c client (gw_server g)\<rparr>)"
| gw_step_message:
    "tunnels (gw_server g) c = Some (client, Reading) \<Longrightarrow> io_fits w \<Longrightarrow> io_call w = c \<Longrightarrow>
     asked (gw_dns g) c = None \<Longrightarrow>
     serve env w (on_message web c client raw out (gw_server g)) g = Some (out, g') \<Longrightarrow>
     gw_step env web g (Gw_message c raw w) g'"
| gw_step_returned:
    "tunnels (gw_server g) c = Some (client, Delivering) \<Longrightarrow>
     bridge_at g n = Some b \<Longrightarrow> dns_macs b c = Some mac \<Longrightarrow> asked (gw_dns g) c = Some call \<Longrightarrow>
     timeout \<or> task_result (gw_dns g) (fst (snd call)) \<noteq> None \<Longrightarrow>
     serve env w (delivered c client (fst (dns_return env c call timeout mac b) \<noteq> None) (gw_server g))
       (put_bridge n (snd (dns_return env c call timeout mac b)) g) = Some (out, g') \<Longrightarrow>
     gw_step env web g (Gw_returned c timeout) g'"
| gw_step_replaced:
    "tunnels (gw_server g) c = Some (client, Stopping wifi) \<Longrightarrow>
     serve env w (start_now c client wifi (gw_server g)) g = Some (out, g') \<Longrightarrow>
     gw_step env web g (Gw_replaced c) g'"
| gw_step_closed:
    "tunnels (gw_server g) c = Some (client, Reading) \<Longrightarrow>
     serve env w (tunnel_close c client (gw_server g)) g = Some (out, g') \<Longrightarrow>
     gw_step env web g (Gw_closed c) g'"
| gw_step_bridge:
    "bridge_at g n = Some b \<Longrightarrow> own_event e \<Longrightarrow> br_step env b e b' \<Longrightarrow>
     gw_step env web g (Gw_bridge n e) (put_bridge n b' g)"
| gw_step_lookup:
    "dns_step env (gw_dns g) (Dns_answered tid now answers) d \<Longrightarrow>
     gw_step env web g (Gw_lookup tid now answers) (g\<lparr>gw_dns := d\<rparr>)"

end
