(* ===== verification/Gateway_Machine.thy ===== *)
theory Gateway_Machine
  imports Gateway
begin

text \<open>
  The bridges inside the process: every one of them goes through a run of the machine of a single
  bridge, in which the others are the users of the DNS proxy it does not know. What a step of a
  bridge does to the proxy, the invariant of the process and its preservation.
\<close>

section \<open>What a bridge does to the DNS proxy\<close>

definition unchanged :: "bridge \<Rightarrow> bridge \<Rightarrow> bool" where
  "unchanged s t \<longleftrightarrow> br_dns t = br_dns s \<and> dns_macs t = dns_macs s \<and> br_res t = br_res s \<and>
     br_running t = br_running s"

lemma unchanged_simps [simp]:
  "unchanged s s" "unchanged s (learn_mac f t) \<longleftrightarrow> unchanged s t" "unchanged s (snd (br_reply r t)) \<longleftrightarrow> unchanged s t"
  "unchanged s (set_tcp n t) \<longleftrightarrow> unchanged s t" "unchanged s (set_in m t) \<longleftrightarrow> unchanged s t"
  "unchanged s (set_udp l t) \<longleftrightarrow> unchanged s t" "unchanged (learn_mac f s) t \<longleftrightarrow> unchanged s t"
  "unchanged s (t\<lparr>http_calls := x\<rparr>) \<longleftrightarrow> unchanged s t" "unchanged s (t\<lparr>br_dhcp := d\<rparr>) \<longleftrightarrow> unchanged s t"
  "unchanged (s\<lparr>http_calls := x\<rparr>) t \<longleftrightarrow> unchanged s t"
  by (simp_all add: unchanged_def)

lemma own_unchanged:
  assumes "own_event e" "br_step env s e t"
  shows "unchanged s t"
  using assms(2,1)
  by cases (simp_all add: own_event_def http_request_def http_into_chip_def ensure_chip_mac_def andthen_def
      Let_def split_beta split: option.split)

lemma start_unchanged: "unchanged s (start s)"
  by (simp add: unchanged_def start_def)

lemma stop_simps [simp]:
  "br_dns (stop s) = br_dns s" "dns_macs (stop s) = dns_macs s" "br_res (stop s) = br_res s"
  by (simp_all add: stop_def Let_def)

text \<open>A frame of the chip is at most one query to the bridge's own resolver.\<close>

definition waited :: "io \<Rightarrow> bridge \<Rightarrow> bridge run \<Rightarrow> dns_reply res + nat \<Rightarrow> bool" where
  "waited w s r x \<longleftrightarrow>
     (case x of Inl _ \<Rightarrow> dns_macs (snd r) = dns_macs s
      | Inr tid \<Rightarrow> fst r = None \<and> (\<exists>mac. dns_macs (snd r) = (dns_macs s)(io_call w \<mapsto> mac)))"

lemma waited_simps [simp]:
  "waited w s r (Inl y) \<longleftrightarrow> dns_macs (snd r) = dns_macs s"
  "waited w s r (Inr tid) \<longleftrightarrow> fst r = None \<and> (\<exists>mac. dns_macs (snd r) = (dns_macs s)(io_call w \<mapsto> mac))"
  "waited w (learn_mac f s) r x = waited w s r x"
  by (simp_all add: waited_def split: sum.split)

definition asks :: "egress_env \<Rightarrow> io \<Rightarrow> bridge \<Rightarrow> bridge run \<Rightarrow> bool" where
  "asks env w s r \<longleftrightarrow> br_res (snd r) = br_res s \<and> br_running (snd r) = br_running s \<and>
     (\<exists>src u x. dns_handle env (io_now w) (br_res s) (io_call w) src u (br_dns s) = Some (x, br_dns (snd r)) \<and>
       waited w s r x)"

lemma handle_dns_asks:
  assumes "handle_dns env w mac ip u s = Some r"
  shows "asks env w s r"
proof -
  obtain x d where h: "dns_handle env (io_now w) (br_res s) (io_call w) (ip_src ip) u (br_dns s) = Some (x, d)"
    using assms unfolding handle_dns_def
    by (cases "dns_handle env (io_now w) (br_res s) (io_call w) (ip_src ip) u (br_dns s)") auto
  have "br_res (snd r) = br_res s" "br_running (snd r) = br_running s" "br_dns (snd r) = d" "waited w s r x"
    using assms h by (cases x; auto simp: handle_dns_def Let_def)+
  then show ?thesis using h unfolding asks_def by blast
qed

lemma packet_asks:
  assumes "deliver_packet_out env w bs s = Some r"
  shows "unchanged s (snd r) \<or> asks env w s r"
proof -
  have dhcp: "unchanged s (snd (handle_dhcp mac u s))" for mac u s
    by (simp add: handle_dhcp_def split_beta Let_def)
  have tcp: "unchanged s (snd (handle_tcp env w mac ip t s))" for mac ip t s
    by (simp add: handle_tcp_def split_beta)
  have ip: "unchanged s (snd r) \<or> asks env w s r" if "handle_ipv4 env w ip s = Some r" for ip s
    using that dhcp tcp handle_dns_asks
    by (auto simp: handle_ipv4_def handle_udp_def split: if_splits sum.splits)
  have "asks env w s r" if "asks env w (learn_mac f s) r" for f
    using that by (simp add: asks_def)
  then show ?thesis
    using assms ip [of _ "learn_mac _ s"]
    by (auto simp: deliver_packet_out_def Let_def split: if_splits sum.splits)
qed

lemma return_dns:
  "br_dns (snd (dns_return env c call timeout mac s)) = snd (dns_resume env c call timeout (br_dns s))"
  "dns_macs (snd (dns_return env c call timeout mac s)) = (dns_macs s)(c := None)"
  "br_res (snd (dns_return env c call timeout mac s)) = br_res s"
  "br_running (snd (dns_return env c call timeout mac s)) = br_running s"
  by (simp_all add: dns_return_def split_beta)

text \<open>The step of the proxy that a step of a bridge amounts to.\<close>

definition by_bridge :: "bridge \<Rightarrow> dns_event \<Rightarrow> bool" where
  "by_bridge s e \<longleftrightarrow>
     (case e of Dns_asked r _ _ _ _ \<Rightarrow> r = br_res s | Dns_answered _ _ _ \<Rightarrow> False
      | Dns_resumed c _ \<Rightarrow> dns_macs s c \<noteq> None)"

definition via_proxy :: "egress_env \<Rightarrow> bridge \<Rightarrow> bridge \<Rightarrow> bool" where
  "via_proxy env s t \<longleftrightarrow> br_res t = br_res s \<and>
     (br_dns t = br_dns s \<or> (\<exists>e. dns_step env (br_dns s) e (br_dns t) \<and> by_bridge s e))"

lemma via_proxy_unchanged: "unchanged s t \<Longrightarrow> via_proxy env s t"
  by (simp add: via_proxy_def unchanged_def)

lemma packet_via_proxy:
  assumes "deliver_packet_out env w bs s = Some r" "asked (br_dns s) (io_call w) = None"
  shows "via_proxy env s (snd r)"
  using packet_asks [OF assms(1)]
proof
  assume "asks env w s r"
  then obtain src u x where h: "br_res (snd r) = br_res s"
    "dns_handle env (io_now w) (br_res s) (io_call w) src u (br_dns s) = Some (x, br_dns (snd r))"
    unfolding asks_def by blast
  have "dns_step env (br_dns s) (Dns_asked (br_res s) (io_call w) (io_now w) src u) (br_dns (snd r))"
    using assms(2) h(2) by (rule dns_step_asked)
  then show ?thesis using h(1) unfolding via_proxy_def by (force simp: by_bridge_def)
qed (rule via_proxy_unchanged)

lemma return_via_proxy:
  assumes "dns_macs s c = Some mac" "asked (br_dns s) c = Some call"
    "timeout \<or> task_result (br_dns s) (fst (snd call)) \<noteq> None"
  shows "via_proxy env s (snd (dns_return env c call timeout mac s))"
proof -
  have "dns_step env (br_dns s) (Dns_resumed c timeout) (snd (dns_resume env c call timeout (br_dns s)))"
    using assms(2,3) by (rule dns_step_resumed)
  then show ?thesis using assms(1) unfolding via_proxy_def by (force simp: by_bridge_def return_dns)
qed

section \<open>The bridges of the process\<close>

definition reach :: "egress_env \<Rightarrow> bridge \<Rightarrow> bool" where
  "reach env b \<longleftrightarrow> (\<exists>s. br_start env s \<and> runs (br_step env) s b)"

definition pool_ok :: "egress_env \<Rightarrow> gateway \<Rightarrow> bool" where
  "pool_ok env g \<longleftrightarrow> runs (dns_step env) dns_new (gw_dns g) \<and>
     (\<forall>n b. bridge_at g n = Some b \<longrightarrow> br_res b = n \<and> reach env b)"

lemma br_run_one: "br_step env b e b' \<Longrightarrow> runs (br_step env) b b'"
  by (rule runs_one)

lemma reach_step: "reach env b \<Longrightarrow> br_step env b e b' \<Longrightarrow> reach env b'"
  unfolding reach_def using runs_step by metis

lemma reach_waits: "reach env b \<Longrightarrow> waits_ok b"
  using outputs.inv_reachable unfolding reach_def bridge_inv_def out_ok_def by blast

lemma bridge_at_dns: "bridge_at g n = Some b \<Longrightarrow> br_dns b = gw_dns g"
  by (auto simp: bridge_at_def)

lemma bridge_at_put [simp]:
  "bridge_at (put_bridge n b g) m =
     (if m = n then Some b else map_option (\<lambda>x. x\<lparr>br_dns := br_dns b\<rparr>) (bridge_at g m))"
  by (auto simp: bridge_at_def put_bridge_def option.map_comp comp_def)

lemma put_simps [simp]:
  "gw_dns (put_bridge n b g) = br_dns b" "gw_pool (put_bridge n b g) = (gw_pool g)(n \<mapsto> b)"
  "gw_server (put_bridge n b g) = gw_server g"
  by (simp_all add: put_bridge_def)

lemma bridge_at_server [simp]: "bridge_at (g\<lparr>gw_server := s\<rparr>) n = bridge_at g n"
  by (simp add: bridge_at_def)

lemma pool_ok_server [simp]: "pool_ok env (g\<lparr>gw_server := s\<rparr>) = pool_ok env g"
  by (simp add: pool_ok_def)

lemma pool_bridge:
  assumes "pool_ok env g" "bridge_at g n = Some b"
  shows "br_res b = n" "reach env b" "waits_ok b" "br_dns b = gw_dns g"
  using assms reach_waits bridge_at_dns unfolding pool_ok_def by blast+

text \<open>No two bridges wait in the same call.\<close>

lemma waits_apart:
  assumes "pool_ok env g" "bridge_at g n = Some b" "bridge_at g m = Some b'"
    "dns_macs b c = Some mac" "dns_macs b' c = Some mac'"
  shows "n = m"
proof -
  note b = pool_bridge [OF assms(1,2)] and b' = pool_bridge [OF assms(1,3)]
  show ?thesis using waits_okD(2,4) [OF b(3) assms(4)] waits_okD(4) [OF b'(3) assms(5)] b b' by auto
qed

text \<open>What a bridge does to the proxy is a step of the proxy to every other bridge.\<close>

lemma others_follow:
  assumes ok: "pool_ok env g" and at: "bridge_at g n = Some b" and via: "via_proxy env b b'"
    and m: "bridge_at g m = Some x" "m \<noteq> n"
  shows "runs (br_step env) x (x\<lparr>br_dns := br_dns b'\<rparr>)"
proof -
  note b = pool_bridge [OF ok at] and x = pool_bridge [OF ok m(1)]
  consider "br_dns b' = br_dns x" | e where "dns_step env (br_dns x) e (br_dns b')" "by_bridge b e"
    using via b(4) x(4) unfolding via_proxy_def by auto
  then show ?thesis
  proof cases
    case 1
    moreover have "x\<lparr>br_dns := br_dns x\<rparr> = x" by simp
    ultimately show ?thesis using runs_refl by metis
  next
    case (2 e)
    have "dns_macs x c = None" if "dns_macs b c \<noteq> None" for c
      using waits_apart [OF ok at m(1), of c] that m(2) by (cases "dns_macs x c") auto
    then have "other_dns x e"
      using 2(2) x(1) m(2) b(1) by (auto simp: other_dns_def by_bridge_def split: dns_event.splits)
    then show ?thesis using br_step_dns [OF _ 2(1)] br_run_one by blast
  qed
qed

text \<open>Every bridge of the first state goes on to the second by a run of its own machine.\<close>

definition follow :: "egress_env \<Rightarrow> gateway \<Rightarrow> gateway \<Rightarrow> bool" where
  "follow env g g' \<longleftrightarrow> (\<forall>n b. bridge_at g n = Some b \<longrightarrow>
     (\<exists>b'. bridge_at g' n = Some b' \<and> runs (br_step env) b b'))"

lemma follow_refl: "follow env g g"
  by (auto simp: follow_def runs_refl)

lemma follow_trans: "follow env g g1 \<Longrightarrow> follow env g1 g2 \<Longrightarrow> follow env g g2"
  unfolding follow_def by (meson runs_trans)

lemma follow_server [simp]:
  "follow env g (g'\<lparr>gw_server := s\<rparr>) = follow env g g'" "follow env (g\<lparr>gw_server := s\<rparr>) g' = follow env g g'"
  by (simp_all add: follow_def)

lemma reach_runs: "reach env b \<Longrightarrow> runs (br_step env) b b' \<Longrightarrow> reach env b'"
  unfolding reach_def using runs_trans by metis

lemma pool_put:
  assumes ok: "pool_ok env g" and at: "bridge_at g n = Some b" and run: "runs (br_step env) b b'"
    and via: "via_proxy env b b'"
  shows "pool_ok env (put_bridge n b' g)" "follow env g (put_bridge n b' g)"
proof -
  note b = pool_bridge [OF ok at]
  have "runs (dns_step env) dns_new (br_dns b')"
    using ok via b(4) unfolding pool_ok_def via_proxy_def by (metis runs_step)
  moreover have "br_res b' = n" "reach env b'" using via b(1) reach_runs [OF b(2) run] by (auto simp: via_proxy_def)
  moreover have "reach env (x\<lparr>br_dns := br_dns b'\<rparr>)" if "bridge_at g m = Some x" "m \<noteq> n" for m x
    using others_follow [OF ok at via that] reach_runs pool_bridge(2) [OF ok that(1)] by blast
  ultimately show "pool_ok env (put_bridge n b' g)" using ok by (auto simp: pool_ok_def)
  show "follow env g (put_bridge n b' g)"
    using at run others_follow [OF ok at via] by (auto simp: follow_def)
qed

section \<open>Actions on bridges\<close>

lemma reach_new:
  assumes "runs (dns_step env) dns_new dns"
  shows "reach env (start (bridge_new ident wifi res dns))"
proof -
  have "br_start env (bridge_new ident wifi res dns)" using assms by (auto simp: br_start_def)
  then show ?thesis unfolding reach_def using runs_one [of "br_step env", OF br_step_start] by blast
qed

lemma new_bridge_fields:
  "br_dns (start b) = br_dns b" "br_res (start b) = br_res b" "dns_macs (start b) = dns_macs b"
  "br_running (start b) = br_running b" "br_ident (start b) = br_ident b" "emitted (start b) = emitted b"
  "br_dns (bridge_new ident wifi res dns) = dns" "br_res (bridge_new ident wifi res dns) = res"
  "dns_macs (bridge_new ident wifi res dns) = (\<lambda>_. None)" "br_running (bridge_new ident wifi res dns)"
  "br_ident (bridge_new ident wifi res dns) = ident"
  by (simp_all add: start_def bridge_new_def)

lemma pool_new:
  assumes "pool_ok env g"
  shows "pool_ok env (put_bridge n (start (bridge_new ident wifi n (gw_dns g))) g)"
proof -
  have same: "x\<lparr>br_dns := gw_dns g\<rparr> = x" if "bridge_at g m = Some x" for m x
    using that by (auto simp: bridge_at_def)
  have run: "runs (dns_step env) dns_new (gw_dns g)" using assms by (simp add: pool_ok_def)
  let ?b = "start (bridge_new ident wifi n (gw_dns g))"
  have "br_dns ?b = gw_dns g" "br_res ?b = n" by (simp_all add: new_bridge_fields)
  then show ?thesis
    using assms same reach_new [OF run, of ident wifi n] unfolding pool_ok_def
    by (auto split: if_splits)
qed

lemma follow_new:
  assumes "pool_ok env g" "gw_pool g n = None"
  shows "follow env g (put_bridge n (start (bridge_new ident wifi n (gw_dns g))) g)"
proof -
  have "x\<lparr>br_dns := gw_dns g\<rparr> = x \<and> m \<noteq> n" if "bridge_at g m = Some x" for m x
    using that assms(2) by (auto simp: bridge_at_def)
  moreover have "br_dns (start (bridge_new ident wifi n (gw_dns g))) = gw_dns g" by (simp add: new_bridge_fields)
  ultimately show ?thesis unfolding follow_def bridge_at_put using runs_refl by force
qed

lemma act_pool:
  assumes ok: "pool_ok env g" and a: "act env w a g = Some (out, g')"
    and fits: "\<And>n e. a = Bridge_given n e \<Longrightarrow> io_fits w \<and> asked (gw_dns g) (io_call w) = None"
    and fresh: "\<And>n c cl wifi. a = Bridge_started n c cl wifi \<Longrightarrow> gw_pool g n = None"
  shows "pool_ok env g' \<and> follow env g g'"
proof (cases a)
  case (Bridge_started n c client wifi)
  then show ?thesis using a pool_new [OF ok] follow_new [OF ok fresh [OF Bridge_started]] by auto
next
  case (Bridge_stopped n)
  then obtain b where b: "bridge_at g n = Some b" "g' = put_bridge n (stop b) g" using a by auto
  have "via_proxy env b (stop b)" by (simp add: via_proxy_def)
  then show ?thesis using pool_put [OF ok b(1) br_run_one [OF br_step_stop]] b(2) by simp
next
  case (Bridge_given n e)
  then obtain b r where b: "bridge_at g n = Some b" "deliver_packet_out env w e b = Some r" "g' = put_bridge n (snd r) g"
    using a by (cases "bridge_at g n") auto
  note p = pool_bridge [OF ok b(1)]
  have free: "io_fits w" "asked (br_dns b) (io_call w) = None" using fits [OF Bridge_given] p(4) by simp_all
  have "br_step env b (Br_packet w e) (snd r)" using free b(2) by (intro br_step_packet [of w b env e "fst r"]) simp_all
  then show ?thesis using pool_put [OF ok b(1) br_run_one packet_via_proxy [OF b(2) free(2)]] b(3) by blast
qed

text \<open>The calls that wait: in a bridge, and in the proxy.\<close>

definition holds_call :: "gateway \<Rightarrow> nat \<Rightarrow> nat \<Rightarrow> bool" where
  "holds_call g n c \<longleftrightarrow> (case gw_pool g n of None \<Rightarrow> False | Some b \<Rightarrow> dns_macs b c \<noteq> None)"

definition waits :: "gateway \<Rightarrow> nat \<Rightarrow> bool" where
  "waits g c \<longleftrightarrow> (\<exists>n. holds_call g n c)"

lemma holds_call_put [simp]:
  "holds_call (put_bridge n b g) m c \<longleftrightarrow> (if m = n then dns_macs b c \<noteq> None else holds_call g m c)"
  by (simp add: holds_call_def)

lemma holds_call_server [simp]:
  "holds_call (g\<lparr>gw_server := s\<rparr>) = holds_call g" "waits (g\<lparr>gw_server := s\<rparr>) = waits g"
  "holds_call (g\<lparr>gw_dns := d\<rparr>) = holds_call g" "waits (g\<lparr>gw_dns := d\<rparr>) = waits g"
  by (simp_all add: holds_call_def waits_def fun_eq_iff)

lemma holds_call_at: "bridge_at g n = Some b \<Longrightarrow> holds_call g n c \<longleftrightarrow> dns_macs b c \<noteq> None"
  by (auto simp: bridge_at_def holds_call_def)

text \<open>What an action does to them; \<open>out\<close> is its outcome.\<close>

definition waits_after :: "io \<Rightarrow> server_action list \<Rightarrow> outcome \<Rightarrow> gateway \<Rightarrow> gateway \<Rightarrow> bool" where
  "waits_after w as out g g' \<longleftrightarrow>
     (\<forall>n c. holds_call g' n c \<longleftrightarrow> holds_call g n c \<or>
        out = Suspended \<and> c = io_call w \<and> (\<exists>e. Bridge_given n e \<in> set as)) \<and>
     (\<forall>c. asked (gw_dns g') c = None \<longleftrightarrow> asked (gw_dns g) c = None \<and> (out = Suspended \<longrightarrow> c \<noteq> io_call w))"

lemma dns_handle_asked:
  assumes "dns_handle env now r c src u s = Some (x, t)"
  shows "x = Inl y \<Longrightarrow> asked t = asked s" "x = Inr tid \<Longrightarrow> \<exists>call. asked t = (asked s)(c \<mapsto> call)"
  using dns_handle_result [OF assms] by (simp, fastforce)

lemma act_waits:
  assumes ok: "pool_ok env g" and a: "act env w a g = Some (out, g')"
    and free: "asked (gw_dns g) (io_call w) = None \<or> (\<forall>n e. a \<noteq> Bridge_given n e)"
    and fresh: "\<And>n c cl wifi. a = Bridge_started n c cl wifi \<Longrightarrow> gw_pool g n = None"
  shows "waits_after w [a] out g g'"
proof (cases a)
  case (Bridge_started n c client wifi)
  then have "gw_pool g n = None" by (rule fresh)
  then have "\<not> holds_call g n x" for x by (simp add: holds_call_def)
  moreover obtain b where "g' = put_bridge n b g" "dns_macs b = (\<lambda>_. None)" "br_dns b = gw_dns g" "out = Returned"
    using a Bridge_started by (auto simp: new_bridge_fields)
  ultimately show ?thesis by (simp add: waits_after_def)
next
  case (Bridge_stopped n)
  then obtain b where "bridge_at g n = Some b" "g' = put_bridge n (stop b) g" "out = Returned" using a by auto
  then show ?thesis using bridge_at_dns [of g n b] by (auto simp: waits_after_def holds_call_at Bridge_stopped)
next
  case (Bridge_given n e)
  then obtain b r where b: "bridge_at g n = Some b" "deliver_packet_out env w e b = Some r"
    "g' = put_bridge n (snd r) g" "out = outcome_of w r" using a by (cases "bridge_at g n") auto
  note p = pool_bridge [OF ok b(1)]
  have idle: "asked (br_dns b) (io_call w) = None" using free Bridge_given p(4) by simp
  then have none: "dns_macs b (io_call w) = None"
    using waits_okD(2) [OF p(3), of "io_call w"] by (cases "dns_macs b (io_call w)") auto
  show ?thesis
    using packet_asks [OF b(2)]
  proof
    assume "unchanged b (snd r)"
    then have "out \<noteq> Suspended" "br_dns (snd r) = gw_dns g" "dns_macs (snd r) = dns_macs b"
      using b(4) none p(4) by (auto simp: unchanged_def outcome_of_def)
    then show ?thesis using b(1,3) by (auto simp: waits_after_def holds_call_at)
  next
    assume "asks env w b r"
    then obtain src u x where h: "waited w b r x"
      "dns_handle env (io_now w) (br_res b) (io_call w) src u (br_dns b) = Some (x, br_dns (snd r))"
      unfolding asks_def by blast
    note ask = dns_handle_asked [OF h(2)]
    show ?thesis
    proof (cases x)
      case (Inl y)
      then have "out \<noteq> Suspended" "asked (br_dns (snd r)) = asked (gw_dns g)" "dns_macs (snd r) = dns_macs b"
        using h(1) b(4) none p(4) ask(1) [OF Inl] by (auto simp: outcome_of_def)
      then show ?thesis using b(1,3) by (auto simp: waits_after_def holds_call_at)
    next
      case (Inr tid)
      then obtain mac where "dns_macs (snd r) = (dns_macs b)(io_call w \<mapsto> mac)" "fst r = None" using h(1) by auto
      moreover obtain call where "asked (br_dns (snd r)) = (asked (gw_dns g))(io_call w \<mapsto> call)"
        using ask(2) [OF Inr] p(4) by auto
      ultimately show ?thesis
        using b(1,3,4) Bridge_given by (auto simp: waits_after_def holds_call_at outcome_of_def)
    qed
  qed
qed

section \<open>The log and the pool\<close>

text \<open>The running bridges are those alive after the log, and the started ones are in the pool.\<close>

definition lives :: "server_action list \<Rightarrow> gateway \<Rightarrow> bool" where
  "lives lg g \<longleftrightarrow> (\<exists>L. alive {} lg = Some L \<and>
     (\<forall>n b. gw_pool g n = Some b \<longrightarrow> (br_running b \<longleftrightarrow> n \<in> L)) \<and>
     (\<forall>n. gw_pool g n = None \<longleftrightarrow> started_by lg n = None))"

lemma packet_running:
  "deliver_packet_out env w bs s = Some r \<Longrightarrow> br_running (snd r) = br_running s"
  using packet_asks [of env w bs s r] by (auto simp: unchanged_def asks_def)

lemma stop_running [simp]: "\<not> br_running (stop s)"
  by (rule stop_emitted)

lemma lives_put:
  assumes "lives lg g" "alive {} lg = Some L" "alive {} (lg @ [a]) = Some L'" "br_running b \<longleftrightarrow> n \<in> L'"
    "\<And>m. m \<noteq> n \<Longrightarrow> m \<in> L' \<longleftrightarrow> m \<in> L"
    "\<And>m. started_by (lg @ [a]) m = None \<longleftrightarrow> m \<noteq> n \<and> started_by lg m = None"
  shows "lives (lg @ [a]) (put_bridge n b g)"
  using assms by (simp add: lives_def)

lemma act_lives:
  assumes "lives lg g" "act env w a g = Some (out, g')" "alive {} (lg @ [a]) \<noteq> None"
  shows "lives (lg @ [a]) g'"
proof -
  obtain L where L: "alive {} lg = Some L" "\<And>n b. gw_pool g n = Some b \<Longrightarrow> br_running b \<longleftrightarrow> n \<in> L"
    "\<And>n. gw_pool g n = None \<longleftrightarrow> started_by lg n = None"
    using assms(1) by (auto simp: lives_def)
  show ?thesis
  proof (cases a)
    case (Bridge_started n c client wifi)
    then have "g' = put_bridge n (start (bridge_new (identity_of client) wifi n (gw_dns g))) g"
      using assms(2) by simp
    then show ?thesis
      using lives_put [OF assms(1) L(1), of a "insert n L"] L(1)
      by (simp add: Bridge_started alive_append started_by_append new_bridge_fields split: option.split)
  next
    case (Bridge_stopped n)
    then obtain b where b: "bridge_at g n = Some b" "g' = put_bridge n (stop b) g" using assms(2) by auto
    then have "started_by lg n \<noteq> None" using L(3) [of n] by (auto simp: bridge_at_def)
    then have st: "started_by (lg @ [a]) m = None \<longleftrightarrow> m \<noteq> n \<and> started_by lg m = None" for m
      by (auto simp: Bridge_stopped)
    have al: "alive {} (lg @ [a]) = Some (L - {n})"
      using assms(3) L(1) by (auto simp: Bridge_stopped alive_append split: if_splits)
    show ?thesis using lives_put [OF assms(1) L(1) al, of "stop b" n] st b(2) by simp
  next
    case (Bridge_given n e)
    then obtain b r where b: "bridge_at g n = Some b" "deliver_packet_out env w e b = Some r" "g' = put_bridge n (snd r) g"
      using assms(2) by (cases "bridge_at g n") auto
    then have n: "started_by lg n \<noteq> None" "br_running b \<longleftrightarrow> n \<in> L"
      using L(2,3) [of n] by (auto simp: bridge_at_def)
    then have st: "started_by (lg @ [a]) m = None \<longleftrightarrow> m \<noteq> n \<and> started_by lg m = None" for m
      by (auto simp: Bridge_given)
    have al: "alive {} (lg @ [a]) = Some L"
      using assms(3) L(1) by (auto simp: Bridge_given alive_append split: if_splits)
    show ?thesis
      using lives_put [OF assms(1) L(1) al, of "snd r" n] st b(3) n(2) packet_running [OF b(2)] by simp
  qed
qed

lemma acts_lives:
  "lives lg g \<Longrightarrow> acts env w as g = Some (out, g') \<Longrightarrow> alive {} (lg @ as) \<noteq> None \<Longrightarrow> lives (lg @ as) g'"
proof (induction as arbitrary: lg g out)
  case (Cons a as)
  obtain o1 g1 o2 where 1: "act env w a g = Some (o1, g1)" "acts env w as g1 = Some (o2, g')"
    using Cons.prems(2) by (cases "act env w a g") auto
  have "alive {} (lg @ [a]) \<noteq> None"
    using Cons.prems(3) alive_append [of "{}" "lg @ [a]" as] by (cases "alive {} (lg @ [a])") auto
  then have "lives (lg @ [a]) g1" by (rule act_lives [OF Cons.prems(1) 1(1)])
  from Cons.IH [OF this 1(2)] show ?case using Cons.prems(3) by simp
qed simp

section \<open>What the server asks of bridges\<close>

text \<open>The frame that a message carries to a bridge.\<close>

definition message_frame :: "web \<Rightarrow> pystr \<Rightarrow> json option \<Rightarrow> server \<Rightarrow> (nat \<times> bytes) option" where
  "message_frame web client raw s =
     (case (read_message raw, dict_get (bridges s) client) of
        (Packet data, Some b) \<Rightarrow> if truthy data then map_option (Pair b) (web_b64 web data) else None
      | _ \<Rightarrow> None)"

lemma on_message_sent:
  assumes "message_frame web client raw s = Some (b, e)"
  shows "dict_get (bridges s) client = Some b"
    "on_message web c client raw out s =
       (let s1 = log_action (Bridge_given b e) s
        in case out of Returned \<Rightarrow> s1 | Raised \<Rightarrow> tunnel_close c client s1
           | Suspended \<Rightarrow> set_phase c (Some (client, Delivering)) s1)"
  using assms by (auto simp: message_frame_def on_message_def split: message.splits option.splits if_splits)

lemma on_message_other:
  assumes "message_frame web client raw s = None"
  shows "on_message web c client raw out s \<in>
    {s, drop_bridge client s, tunnel_close c client s} \<union> {start_bridge c client given s | given. True}"
  using assms by (auto simp: message_frame_def on_message_def split: message.splits option.splits if_splits)

text \<open>Steps of the server that give no frame to a bridge.\<close>

definition quiet :: "server \<Rightarrow> server_action list \<Rightarrow> bool" where
  "quiet s as \<longleftrightarrow> as = [] \<or> (\<exists>c cl wifi. as = [Bridge_started (next_bridge s) c cl wifi]) \<or>
     (\<exists>cl b. dict_get (bridges s) cl = Some b \<and> as = [Bridge_stopped b])"

definition quiet_step :: "server \<Rightarrow> server \<Rightarrow> bool" where
  "quiet_step s t \<longleftrightarrow> (\<exists>as. server_log t = server_log s @ as \<and> quiet s as)"

lemma quiet_steps:
  "quiet_step s s" "quiet_step s (set_phase c p t) = quiet_step s t"
  "quiet_step s (new_bridge c client wifi s)" "quiet_step s (drop_bridge client s)"
  "quiet_step s (tunnel_close c client s)" "quiet_step s (start_bridge c client given s)"
  "quiet_step s (start_now c client given s)" "quiet_step s (delivered c client raised s)"
  by (auto simp: quiet_step_def quiet_def new_bridge_def drop_bridge_def tunnel_close_def start_bridge_def
      start_now_def delivered_def split: option.split)

lemma quiet_message: "message_frame web client raw s = None \<Longrightarrow> quiet_step s (on_message web c client raw out s)"
  using on_message_other [of web client raw s c out] quiet_steps by auto

section \<open>The invariant of the process\<close>

text \<open>A tunnel whose handler waits for \<^verbatim>\<open>deliver_packet_out\<close>.\<close>

definition delivering :: "server \<Rightarrow> nat \<Rightarrow> bool" where
  "delivering s c \<longleftrightarrow> (\<exists>cl. tunnels s c = Some (cl, Delivering))"

definition calls_match :: "gateway \<Rightarrow> bool" where
  "calls_match g \<longleftrightarrow> (\<forall>c. waits g c \<longleftrightarrow> delivering (gw_server g) c) \<and>
     (\<forall>c. \<not> delivering (gw_server g) c \<longrightarrow> asked (gw_dns g) c = None)"

definition base_inv :: "egress_env \<Rightarrow> gateway \<Rightarrow> bool" where
  "base_inv env g \<longleftrightarrow> pool_ok env g \<and> server_inv (gw_server g) \<and> lives (server_log (gw_server g)) g"

definition gw_inv :: "egress_env \<Rightarrow> gateway \<Rightarrow> bool" where
  "gw_inv env g \<longleftrightarrow> base_inv env g \<and> calls_match g"

definition same_calls :: "gateway \<Rightarrow> gateway \<Rightarrow> bool" where
  "same_calls g g' \<longleftrightarrow> (\<forall>n c. holds_call g' n c \<longleftrightarrow> holds_call g n c) \<and>
     (\<forall>c. asked (gw_dns g') c = None \<longleftrightarrow> asked (gw_dns g) c = None)"

lemma same_calls_waits: "same_calls g g' \<Longrightarrow> waits g' c \<longleftrightarrow> waits g c"
  by (simp add: same_calls_def waits_def)

lemma base_fresh:
  assumes "base_inv env g"
  shows "gw_pool g (next_bridge (gw_server g)) = None"
proof -
  have "started_by (server_log (gw_server g)) (next_bridge (gw_server g)) = None"
    using assms unfolding base_inv_def server_inv_def registry_ok_def by blast
  then show ?thesis using assms by (auto simp: base_inv_def lives_def)
qed

lemma server_alive: "server_inv s \<Longrightarrow> alive {} (server_log s) \<noteq> None"
  by (auto simp: server_inv_def registry_ok_def)

lemma serve_acts:
  assumes "serve env w s g = Some (out, g')" "server_log s = server_log (gw_server g) @ as"
  obtains g1 where "acts env w as g = Some (out, g1)" "g' = g1\<lparr>gw_server := s\<rparr>"
  using assms by (auto simp: serve_def)

lemma lives_server [simp]: "lives lg (g\<lparr>gw_server := s\<rparr>) = lives lg g"
  by (simp add: lives_def)

lemma acts_one: "acts env w [a] g = act env w a g"
  by (cases "act env w a g") auto

lemma quiet_serve:
  assumes base: "base_inv env g" and s: "server_inv s" "quiet_step (gw_server g) s"
    and serve: "serve env w s g = Some (out, g')"
  shows "out = Returned \<and> gw_server g' = s \<and> base_inv env g' \<and> same_calls g g' \<and> follow env g g'"
proof -
  obtain as where as: "server_log s = server_log (gw_server g) @ as" "quiet (gw_server g) as"
    using s(2) by (auto simp: quiet_step_def)
  obtain g1 where g1: "acts env w as g = Some (out, g1)" "g' = g1\<lparr>gw_server := s\<rparr>"
    using serve_acts [OF serve as(1)] .
  have b: "pool_ok env g" "lives (server_log (gw_server g)) g" using base by (simp_all add: base_inv_def)
  have lv: "lives (server_log s) g1"
    using acts_lives [OF b(2) g1(1)] server_alive [OF s(1)] as(1) by simp
  consider "as = []" | a where "as = [a]" "\<And>n e. a \<noteq> Bridge_given n e"
      "\<And>n c cl wifi. a = Bridge_started n c cl wifi \<Longrightarrow> gw_pool g n = None"
    using as(2) base_fresh [OF base] by (auto simp: quiet_def)
  then have "out = Returned \<and> pool_ok env g1 \<and> same_calls g g1 \<and> follow env g g1"
  proof cases
    case 1
    then show ?thesis using g1(1) b(1) by (simp add: same_calls_def follow_refl)
  next
    case (2 a)
    have act: "act env w a g = Some (out, g1)" using g1(1) 2(1) acts_one by metis
    have ret: "out = Returned" using act 2(2) by (cases a) auto
    moreover have "pool_ok env g1 \<and> follow env g g1" using act_pool [OF b(1) act] 2(2,3) by blast
    moreover have "waits_after w [a] out g g1" using act_waits [OF b(1) act] 2(2,3) by blast
    ultimately show ?thesis by (simp add: same_calls_def waits_after_def)
  qed
  then show ?thesis using lv s(1) g1(2) by (simp add: base_inv_def same_calls_def)
qed

lemma log_message_sent:
  assumes "message_frame web client raw s = Some (b, e)"
  shows "server_log (on_message web c client raw out s) =
    server_log s @ (if out = Raised then [Bridge_given b e, Bridge_stopped b] else [Bridge_given b e])"
  using on_message_sent(1) [OF assms] on_message_sent(2) [OF assms, of c out]
  by (cases out) (auto simp: Let_def tunnel_close_def drop_bridge_def)

lemma sent_serve:
  assumes base: "base_inv env g" and w: "io_fits w" "asked (gw_dns g) (io_call w) = None"
    and message_frame: "message_frame web client raw (gw_server g) = Some (b, e)"
    and serve: "serve env w (on_message web c client raw out (gw_server g)) g = Some (out, g')"
  shows "base_inv env g' \<and> waits_after w [Bridge_given b e] out g g' \<and> follow env g g'"
proof -
  let ?s = "on_message web c client raw out (gw_server g)"
  let ?as = "if out = Raised then [Bridge_given b e, Bridge_stopped b] else [Bridge_given b e]"
  have inv: "server_inv ?s" using base by (intro server_inv_message) (simp add: base_inv_def)
  have b: "pool_ok env g" "lives (server_log (gw_server g)) g" using base by (simp_all add: base_inv_def)
  obtain g2 where g2: "acts env w ?as g = Some (out, g2)" "g' = g2\<lparr>gw_server := ?s\<rparr>"
    using serve_acts [OF serve log_message_sent [OF message_frame]] .
  obtain o1 g1 where g1: "act env w (Bridge_given b e) g = Some (o1, g1)"
    using g2(1) by (cases "act env w (Bridge_given b e) g") (auto simp del: act.simps split: if_splits)
  have p1: "pool_ok env g1" and f1: "follow env g g1" using act_pool [OF b(1) g1] w by simp_all
  have w1: "waits_after w [Bridge_given b e] o1 g g1" using act_waits [OF b(1) g1] w(2) by simp
  have lv: "lives (server_log ?s) g2"
    using acts_lives [OF b(2) g2(1)] server_alive [OF inv] log_message_sent [OF message_frame] by simp
  have "pool_ok env g2 \<and> waits_after w [Bridge_given b e] out g g2 \<and> follow env g g2"
  proof (cases "out = Raised")
    case False
    then have "act env w (Bridge_given b e) g = Some (out, g2)" using g2(1) by (simp only: acts_one if_False)
    then show ?thesis using g1 p1 w1 f1 by (simp del: act.simps)
  next
    case True
    then have two: "acts env w [Bridge_given b e, Bridge_stopped b] g = Some (Raised, g2)"
      using g2(1) by (simp only: simp_thms if_True)
    obtain o2 where act: "act env w (Bridge_stopped b) g1 = Some (o2, g2)" "Raised = (if o1 = Returned then o2 else o1)"
      using two g1 acts_one [of env w "Bridge_stopped b" g1] by (auto simp del: act.simps simp: acts.simps(2) [of _ _ "Bridge_given b e"])
    have "o2 = Returned" using act(1) by auto
    then have "o1 = Raised" using act(2) by (simp split: if_splits)
    moreover have "pool_ok env g2" "follow env g g2"
      using act_pool [OF p1 act(1)] follow_trans [OF f1, of g2] by simp_all
    moreover have "waits_after w [Bridge_stopped b] Returned g1 g2"
      using act_waits [OF p1 act(1)] \<open>o2 = Returned\<close> by simp
    ultimately show ?thesis using w1 True by (simp add: waits_after_def)
  qed
  then show ?thesis using lv inv g2(2) by (simp add: base_inv_def waits_after_def)
qed

section \<open>Every step keeps it\<close>

lemma delivering_phase [simp]:
  "delivering (set_phase c p s) x \<longleftrightarrow> (if x = c then \<exists>cl. p = Some (cl, Delivering) else delivering s x)"
  "delivering (log_action a s) x \<longleftrightarrow> delivering s x"
  "delivering (drop_bridge client s) x \<longleftrightarrow> delivering s x"
  "delivering (new_bridge k client wifi s) x \<longleftrightarrow> delivering s x"
  by (simp_all add: delivering_def)

lemma delivering_ops:
  assumes "\<not> delivering s c"
  shows "delivering (tunnel_close c client s) x = delivering s x"
    "delivering (start_now c client given s) x = delivering s x"
    "delivering (start_bridge c client given s) x = delivering s x"
  using assms by (auto simp: tunnel_close_def start_now_def start_bridge_def split: option.split)

lemma not_delivering:
  "tunnels s c = Some (client, Reading) \<Longrightarrow> \<not> delivering s c"
  "tunnels s c = Some (client, Stopping given) \<Longrightarrow> \<not> delivering s c"
  by (simp_all add: delivering_def)

lemma delivering_message:
  assumes "tunnels s c = Some (client, Reading)"
  shows "delivering (on_message web c client raw out s) x \<longleftrightarrow>
    delivering s x \<or> x = c \<and> out = Suspended \<and> message_frame web client raw s \<noteq> None"
proof (cases "message_frame web client raw s")
  case None
  then show ?thesis
    using on_message_other [OF None, of c out] delivering_ops [OF not_delivering(1) [OF assms]] by auto
next
  case (Some r)
  obtain b e where r: "r = (b, e)" by (cases r)
  have "\<not> delivering (log_action (Bridge_given b e) s) c" using not_delivering(1) [OF assms] by simp
  note delivering_ops(1) [OF this, of client x]
  then show ?thesis
    using on_message_sent(2) [OF Some [unfolded r], of c out] Some
    by (cases out) (auto simp: Let_def)
qed

lemma calls_match_same:
  assumes "calls_match g" "same_calls g g'" "\<And>c. delivering (gw_server g') c \<longleftrightarrow> delivering (gw_server g) c"
  shows "calls_match g'"
  using assms same_calls_waits [OF assms(2)] by (auto simp: calls_match_def same_calls_def)

lemma lives_put_same:
  assumes "lives lg g" "bridge_at g n = Some b" "br_running b' = br_running b"
  shows "lives lg (put_bridge n b' g)"
proof -
  obtain x where x: "gw_pool g n = Some x" "br_running b' = br_running x"
    using assms(2,3) by (auto simp: bridge_at_def)
  obtain L where L: "alive {} lg = Some L" "\<And>n b. gw_pool g n = Some b \<Longrightarrow> br_running b \<longleftrightarrow> n \<in> L"
    "\<And>n. gw_pool g n = None \<longleftrightarrow> started_by lg n = None"
    using assms(1) by (auto simp: lives_def)
  have "started_by lg n \<noteq> None" using x(1) L(3) [of n] by simp
  then have "gw_pool (put_bridge n b' g) m = None \<longleftrightarrow> started_by lg m = None" for m using L(3) [of m] by auto
  then show ?thesis using L(1,2) x unfolding lives_def by auto
qed

lemma base_put:
  assumes "base_inv env g" "bridge_at g n = Some b" "runs (br_step env) b b'" "via_proxy env b b'"
    "br_running b' = br_running b"
  shows "base_inv env (put_bridge n b' g) \<and> follow env g (put_bridge n b' g)"
  using assms pool_put [OF _ assms(2-4)] lives_put_same [OF _ assms(2,5)] by (simp add: base_inv_def)

lemma gw_inv_message:
  assumes inv: "gw_inv env g" and c: "tunnels (gw_server g) c = Some (client, Reading)"
    and w: "io_fits w" "io_call w = c" "asked (gw_dns g) c = None"
    and serve: "serve env w (on_message web c client raw out (gw_server g)) g = Some (out, g')"
  shows "gw_inv env g' \<and> follow env g g'"
proof -
  let ?s = "on_message web c client raw out (gw_server g)"
  have base: "base_inv env g" and match: "calls_match g" using inv by (simp_all add: gw_inv_def)
  have s: "server_inv ?s" using base by (intro server_inv_message) (simp add: base_inv_def)
  show ?thesis
  proof (cases "message_frame web client raw (gw_server g)")
    case None
    note q = quiet_serve [OF base s quiet_message [OF None] serve]
    then have "delivering (gw_server g') x \<longleftrightarrow> delivering (gw_server g) x" for x
      using delivering_message [OF c, of web raw out x] None by simp
    then show ?thesis using q calls_match_same [OF match] by (simp add: gw_inv_def)
  next
    case (Some r)
    obtain b e where r: "r = (b, e)" by (cases r)
    note t = sent_serve [OF base w(1) _ Some [unfolded r] serve]
    have g': "gw_server g' = ?s" using serve by (auto simp: serve_def)
    have "waits g' x \<longleftrightarrow> waits g x \<or> out = Suspended \<and> x = c" for x
      using t w(2,3) by (auto simp: waits_after_def waits_def)
    moreover have "asked (gw_dns g') x = None \<longleftrightarrow> asked (gw_dns g) x = None \<and> (out = Suspended \<longrightarrow> x \<noteq> c)" for x
      using t w(2,3) by (simp add: waits_after_def)
    ultimately show ?thesis
      using t w(2,3) match delivering_message [OF c, of web raw out] Some g'
      by (auto simp: gw_inv_def calls_match_def)
  qed
qed

lemma gw_inv_quiet:
  assumes inv: "gw_inv env g" and step: "server_step web (gw_server g) e s"
    and q: "quiet_step (gw_server g) s" "\<And>x. delivering s x \<longleftrightarrow> delivering (gw_server g) x"
    and serve: "serve env w s g = Some (out, g')"
  shows "gw_inv env g' \<and> follow env g g'"
proof -
  have base: "base_inv env g" and match: "calls_match g" using inv by (simp_all add: gw_inv_def)
  have "server_inv s" using server.inv_step [OF _ step] base by (simp add: base_inv_def)
  note r = quiet_serve [OF base this q(1) serve]
  then show ?thesis using calls_match_same [OF match, of g'] q(2) by (simp add: gw_inv_def)
qed

lemma gw_inv_call_over:
  assumes "calls_match g" "base_inv env g'" "\<And>x. waits g' x \<longleftrightarrow> waits g x \<and> x \<noteq> c"
    "\<And>x. asked (gw_dns g') x = None \<longleftrightarrow> x = c \<or> asked (gw_dns g) x = None"
    "\<And>x. delivering (gw_server g') x \<longleftrightarrow> delivering (gw_server g) x \<and> x \<noteq> c"
  shows "gw_inv env g'"
  using assms by (auto simp: gw_inv_def calls_match_def)

lemma gw_inv_returned:
  assumes inv: "gw_inv env g" and c: "tunnels (gw_server g) c = Some (client, Delivering)"
    and b: "bridge_at g n = Some b" "dns_macs b c = Some mac" and call: "asked (gw_dns g) c = Some call"
      "timeout \<or> task_result (gw_dns g) (fst (snd call)) \<noteq> None"
    and serve: "serve env w (delivered c client raised (gw_server g))
      (put_bridge n (snd (dns_return env c call timeout mac b)) g) = Some (out, g')"
  shows "gw_inv env g' \<and> follow env g g'"
proof -
  let ?b = "snd (dns_return env c call timeout mac b)" and ?s = "delivered c client raised (gw_server g)"
  let ?g = "put_bridge n ?b g"
  have base: "base_inv env g" and match: "calls_match g" using inv by (simp_all add: gw_inv_def)
  have ok: "pool_ok env g" using base by (simp add: base_inv_def)
  note p = pool_bridge [OF ok b(1)]
  have asked: "asked (br_dns b) c = Some call" "timeout \<or> task_result (br_dns b) (fst (snd call)) \<noteq> None"
    using call p(4) by simp_all
  have step: "br_step env b (Br_dns_return c timeout) ?b" using b(2) asked by (intro br_step_dns_return)
  have put: "base_inv env ?g \<and> follow env g ?g"
    using base_put [OF base b(1) br_run_one [OF step] return_via_proxy [OF b(2) asked]] return_dns(4) by simp
  have "server_step web (gw_server g) (Tunnel_delivered c raised) ?s" for web using c by (rule server_step_delivered)
  then have s: "server_inv ?s" using server.inv_step base unfolding base_inv_def by blast
  note q = quiet_serve [OF conjunct1 [OF put] s _ serve]
  have "m = n" if m: "holds_call g m c" for m
  proof -
    obtain x mac' where "gw_pool g m = Some x" "dns_macs x c = Some mac'"
      using m by (auto simp: holds_call_def split: option.splits)
    then show ?thesis using waits_apart [OF ok _ b(1) _ b(2)] by (simp add: bridge_at_def)
  qed
  then have "holds_call ?g m x \<longleftrightarrow> holds_call g m x \<and> x \<noteq> c" for m x
    using holds_call_at [OF b(1), of x] by (auto simp: return_dns)
  then have waits: "waits ?g x \<longleftrightarrow> waits g x \<and> x \<noteq> c" for x by (simp add: waits_def)
  have asked': "asked (gw_dns ?g) = (asked (gw_dns g))(c := None)"
    using dns_resume_result [of call env c timeout "br_dns b"] p(4) by (simp add: return_dns)
  have q': "gw_server g' = ?s" "base_inv env g'" "same_calls ?g g'" "follow env ?g g'"
    using q quiet_steps(8) by simp_all
  have "gw_inv env g'"
  proof (rule gw_inv_call_over [OF match q'(2)])
    show "waits g' x \<longleftrightarrow> waits g x \<and> x \<noteq> c" for x using same_calls_waits [OF q'(3)] waits by simp
    have "asked (gw_dns g') x = None \<longleftrightarrow> asked (gw_dns ?g) x = None" for x
      using q'(3) unfolding same_calls_def by blast
    then show "asked (gw_dns g') x = None \<longleftrightarrow> x = c \<or> asked (gw_dns g) x = None" for x
      unfolding asked' by simp
    show "delivering (gw_server g') x \<longleftrightarrow> delivering (gw_server g) x \<and> x \<noteq> c" for x
      unfolding q'(1) by (auto simp: delivered_def tunnel_close_def)
  qed
  moreover have "follow env g g'" using follow_trans [OF conjunct2 [OF put] q'(4)] .
  ultimately show ?thesis by blast
qed

lemma gw_inv_bridge:
  assumes inv: "gw_inv env g" and b: "bridge_at g n = Some b" and step: "own_event e" "br_step env b e b'"
  shows "gw_inv env (put_bridge n b' g) \<and> follow env g (put_bridge n b' g)"
proof -
  have base: "base_inv env g" and match: "calls_match g" using inv by (simp_all add: gw_inv_def)
  note u = own_unchanged [OF step]
  note p = pool_bridge [OF _ b]
  have "base_inv env (put_bridge n b' g) \<and> follow env g (put_bridge n b' g)"
    using base_put [OF base b br_run_one [OF step(2)] via_proxy_unchanged [OF u]] base u
    by (simp add: base_inv_def unchanged_def)
  moreover have "same_calls g (put_bridge n b' g)"
    using u bridge_at_dns [OF b] holds_call_at [OF b] by (auto simp: same_calls_def unchanged_def)
  ultimately show ?thesis using calls_match_same [OF match] by (simp add: gw_inv_def)
qed

lemma gw_inv_lookup:
  assumes inv: "gw_inv env g" and step: "dns_step env (gw_dns g) (Dns_answered tid now answers) d"
  shows "gw_inv env (g\<lparr>gw_dns := d\<rparr>) \<and> follow env g (g\<lparr>gw_dns := d\<rparr>)"
proof -
  have ok: "pool_ok env g" using inv by (simp add: gw_inv_def base_inv_def)
  have run: "runs (br_step env) x (x\<lparr>br_dns := d\<rparr>)" if "bridge_at g n = Some x" for n x
    using step bridge_at_dns [OF that] by (intro br_run_one [OF br_step_dns]) (simp_all add: other_dns_def)
  have at: "bridge_at (g\<lparr>gw_dns := d\<rparr>) n = map_option (\<lambda>x. x\<lparr>br_dns := d\<rparr>) (bridge_at g n)" for n
    by (simp add: bridge_at_def option.map_comp comp_def)
  have "br_res b = n \<and> reach env b" if b: "bridge_at (g\<lparr>gw_dns := d\<rparr>) n = Some b" for n b
  proof -
    obtain x where x: "bridge_at g n = Some x" "b = x\<lparr>br_dns := d\<rparr>" using b unfolding at by auto
    then show ?thesis using reach_runs [OF _ run] pool_bridge [OF ok x(1)] by simp
  qed
  then have "pool_ok env (g\<lparr>gw_dns := d\<rparr>)" using ok step runs_step unfolding pool_ok_def by fastforce
  moreover have "follow env g (g\<lparr>gw_dns := d\<rparr>)" using run by (simp add: follow_def at)
  moreover have "asked d = asked (gw_dns g)"
    using step by cases (simp add: lookup_done_def Let_def cache_put_def dns_emit_def split: sum.split)
  ultimately show ?thesis
    using inv by (simp add: gw_inv_def base_inv_def calls_match_def lives_def)
qed

lemma gw_inv_step:
  assumes inv: "gw_inv env g" and step: "gw_step env web g e g'"
  shows "gw_inv env g' \<and> follow env g g'"
  using step
proof cases
  case (gw_step_opened c path origin client)
  have "server_inv (gw_server g')"
    using server.inv_step [OF _ server_step_opened] gw_step_opened inv by (simp add: gw_inv_def base_inv_def)
  moreover have "delivering (gw_server g') x = delivering (gw_server g) x" for x
    using gw_step_opened by (auto simp: tunnel_open_def delivering_def)
  ultimately show ?thesis
    using inv gw_step_opened
    by (simp add: gw_inv_def base_inv_def calls_match_def lives_def tunnel_open_def follow_refl)
next
  case (gw_step_message c client w raw out)
  then show ?thesis using gw_inv_message [OF inv] by blast
next
  case (gw_step_returned c client n b mac call timeout w out)
  then show ?thesis using gw_inv_returned [OF inv] by blast
next
  case (gw_step_replaced c client given w out)
  then show ?thesis
    using gw_inv_quiet [OF inv server_step_resumed quiet_steps(7)] delivering_ops(2) [OF not_delivering(2)] by blast
next
  case (gw_step_closed c client w out)
  then show ?thesis
    using gw_inv_quiet [OF inv server_step_closed quiet_steps(5)] delivering_ops(1) [OF not_delivering(1)] by blast
qed (use gw_inv_bridge [OF inv] gw_inv_lookup [OF inv] in blast)+

lemma gw_inv_new: "gw_inv env gw_new"
proof -
  have "registry_ok server_new {}" by (rule registry_new)
  then have "server_inv server_new" unfolding server_inv_def by blast
  then show ?thesis
    by (simp add: gw_inv_def gw_new_def base_inv_def pool_ok_def bridge_at_def lives_def calls_match_def
        runs_refl server_new_def waits_def holds_call_def delivering_def dns_new_def)
qed

interpretation gateway: machine "\<lambda>g. g = gw_new" "gw_step env web" "gw_inv env" for env web
  by unfold_locales (auto intro: gw_inv_new dest: gw_inv_step)

lemma serve_server: "serve env w s g = Some (out, g') \<Longrightarrow> gw_server g' = s"
  by (auto simp: serve_def)

text \<open>The step of the server that a step of the process contains.\<close>

definition opens_like :: "gw_event \<Rightarrow> server_event \<Rightarrow> bool" where
  "opens_like e e' \<longleftrightarrow> (case e' of Tunnel_opened c path origin \<Rightarrow> e = Gw_opened c path origin | _ \<Rightarrow> True)"

lemma opens_like_simps [simp]:
  "opens_like e (Tunnel_message c raw out)" "opens_like e (Tunnel_delivered c raised)"
  "opens_like e (Tunnel_resumed c)" "opens_like e (Tunnel_closed c)"
  "opens_like (Gw_opened c path origin) (Tunnel_opened c path origin)"
  by (simp_all add: opens_like_def)

lemma gw_server_step:
  assumes "gw_step env web g e g'"
  shows "gw_server g' = gw_server g \<or> (\<exists>e'. server_step web (gw_server g) e' (gw_server g') \<and> opens_like e e')"
  using assms
proof cases
  case (gw_step_opened c path origin client)
  then show ?thesis using server_step_opened [of "gw_server g" c web path origin client] by force
next
  case (gw_step_message c client w raw out)
  then show ?thesis using server_step_message serve_server opens_like_simps(1) by metis
next
  case (gw_step_returned c client n b mac call timeout w out)
  then show ?thesis using server_step_delivered serve_server opens_like_simps(2) by metis
next
  case (gw_step_replaced c client given w out)
  then show ?thesis using server_step_resumed serve_server opens_like_simps(3) by metis
next
  case (gw_step_closed c client w out)
  then show ?thesis using server_step_closed serve_server opens_like_simps(4) by metis
qed simp_all

interpretation server_in_gateway: simulation "\<lambda>g. g = gw_new" "gw_step env web" "gw_inv env" gw_server
  "server_step web" for env web
  by unfold_locales (metis gw_server_step runs_one runs_refl)

lemma gw_follow:
  assumes "gw_inv env g" "runs (gw_step env web) g g'"
  shows "follow env g g'"
proof (rule gateway.also_runs [OF assms follow_refl])
  fix t e u
  assume "gw_inv env t" "follow env g t" "gw_step env web t e u"
  then show "follow env g u" using follow_trans gw_inv_step by blast
qed

end
