(* ===== verification/Gateway_Properties.thy ===== *)
theory Gateway_Properties
  imports Gateway_Machine
begin

text \<open>
  Properties of the whole process: what holds of a bridge alone holds of each bridge in it, tunnels
  do not get stuck, sessions do not disturb each other and bridges end with their sessions.
\<close>

section \<open>Which bridges a step touches\<close>

fun action_bridge :: "server_action \<Rightarrow> nat" where
  "action_bridge (Bridge_started n c client wifi) = n"
| "action_bridge (Bridge_stopped n) = n"
| "action_bridge (Bridge_given n ether) = n"

lemma act_other: "act env w a g = Some (out, g') \<Longrightarrow> action_bridge a \<noteq> n \<Longrightarrow> gw_pool g' n = gw_pool g n"
  by (cases a) (auto split: bind_splits)

lemma acts_other:
  "acts env w as g = Some (out, g') \<Longrightarrow> \<forall>a \<in> set as. action_bridge a \<noteq> n \<Longrightarrow> gw_pool g' n = gw_pool g n"
proof (induction as arbitrary: g out)
  case (Cons a as)
  obtain o1 g1 o2 where "act env w a g = Some (o1, g1)" "acts env w as g1 = Some (o2, g')"
    using Cons.prems(1) by (cases "act env w a g") auto
  then show ?case using Cons.IH [of g1 o2] Cons.prems(2) act_other [of env w a g o1 g1 n] by simp
qed simp

definition touches :: "pystr \<Rightarrow> server \<Rightarrow> server \<Rightarrow> bool" where
  "touches client s t \<longleftrightarrow> (\<exists>as. server_log t = server_log s @ as \<and>
     (\<forall>a \<in> set as. action_bridge a = next_bridge s \<or> dict_get (bridges s) client = Some (action_bridge a)))"

lemma touches_ops:
  "touches client s s" "touches client s (set_phase c p t) = touches client s t"
  "touches client s (new_bridge c client' wifi s)" "touches client s (drop_bridge client s)"
  "touches client s (tunnel_close c client s)" "touches client s (start_bridge c client given s)"
  "touches client s (start_now c client given s)" "touches client s (delivered c client raised s)"
  by (auto simp: touches_def new_bridge_def drop_bridge_def tunnel_close_def start_bridge_def start_now_def
      delivered_def split: option.split)

lemma touches_message: "touches client s (on_message web c client raw out s)"
proof (cases "message_frame web client raw s")
  case None
  then show ?thesis using on_message_other [OF None, of c out] touches_ops by auto
next
  case (Some r)
  obtain b e where r: "r = (b, e)" by (cases r)
  show ?thesis
    using on_message_sent(1) [OF Some [unfolded r]] log_message_sent [OF Some [unfolded r], of c out]
    by (simp add: touches_def)
qed

lemma serve_other:
  assumes "serve env w s g = Some (out, g')" "touches client (gw_server g) s"
    "n \<noteq> next_bridge (gw_server g)" "dict_get (bridges (gw_server g)) client \<noteq> Some n"
  shows "gw_pool g' n = gw_pool g n"
proof -
  obtain as where as: "server_log s = server_log (gw_server g) @ as"
    "\<forall>a \<in> set as. action_bridge a = next_bridge (gw_server g) \<or>
       dict_get (bridges (gw_server g)) client = Some (action_bridge a)"
    using assms(2) by (auto simp: touches_def)
  obtain g1 where g1: "acts env w as g = Some (out, g1)" "g' = g1\<lparr>gw_server := s\<rparr>"
    using serve_acts [OF assms(1) as(1)] .
  have "\<forall>a \<in> set as. action_bridge a \<noteq> n" using as(2) assms(3,4) by auto
  then show ?thesis using acts_other [OF g1(1)] g1(2) by simp
qed

lemma pool_has:
  assumes "gw_inv env g"
  shows "bridge_at g n \<noteq> None \<longleftrightarrow> n < next_bridge (gw_server g)"
proof -
  have "started_by (server_log (gw_server g)) n \<noteq> None \<longleftrightarrow> n < next_bridge (gw_server g)"
    using assms unfolding gw_inv_def base_inv_def server_inv_def registry_ok_def by blast
  moreover have "gw_pool g n = None \<longleftrightarrow> started_by (server_log (gw_server g)) n = None"
    using assms unfolding gw_inv_def base_inv_def lives_def by blast
  ultimately show ?thesis by (simp add: bridge_at_def)
qed

section \<open>Calls and their tunnels\<close>

text \<open>A call that a bridge holds after a step was held before, or was made by the tunnel of the step.\<close>

lemma new_call:
  assumes inv: "gw_inv env g" and step: "gw_step env web g e g'" and call: "holds_call g' n c"
  shows "holds_call g n c \<or> (\<exists>client. tunnels (gw_server g) c = Some (client, Reading) \<and>
    dict_get (bridges (gw_server g)) client = Some n)"
proof -
  have base: "base_inv env g" and srv: "server_inv (gw_server g)" using inv by (simp_all add: gw_inv_def base_inv_def)
  show ?thesis
    using step
  proof cases
    case (gw_step_message c' client w raw out)
    show ?thesis
    proof (cases "message_frame web client raw (gw_server g)")
      case None
      have "same_calls g g'"
        using quiet_serve [OF base server_inv_message [OF srv] quiet_message [OF None] gw_step_message(6)] by simp
      then show ?thesis using call by (simp add: same_calls_def)
    next
      case (Some r)
      obtain b x where r: "r = (b, x)" by (cases r)
      have "waits_after w [Bridge_given b x] out g g'"
        using sent_serve [OF base gw_step_message(3) _ Some [unfolded r] gw_step_message(6)] gw_step_message(4,5) by simp
      then have "holds_call g n c \<or> c = c' \<and> n = b" using call gw_step_message(4) by (auto simp: waits_after_def)
      then show ?thesis using on_message_sent(1) [OF Some [unfolded r]] gw_step_message(2) by auto
    qed
  next
    case (gw_step_returned c' client m b mac x timeout w out)
    let ?s = "delivered c' client (fst (dns_return env c' x timeout mac b) \<noteq> None) (gw_server g)"
    let ?g = "put_bridge m (snd (dns_return env c' x timeout mac b)) g"
    have ok: "pool_ok env g" using base by (simp add: base_inv_def)
    have asked: "asked (br_dns b) c' = Some x" "timeout \<or> task_result (br_dns b) (fst (snd x)) \<noteq> None"
      using gw_step_returned(5,6) pool_bridge(4) [OF ok gw_step_returned(3)] by simp_all
    have put: "base_inv env ?g"
      using base_put [OF base gw_step_returned(3) br_run_one [OF br_step_dns_return [OF gw_step_returned(4) asked]]
          return_via_proxy [OF gw_step_returned(4) asked] return_dns(4)] by simp
    have "server_inv ?s" using server.inv_step [OF srv server_step_delivered [OF gw_step_returned(2)]] .
    then have "same_calls ?g g'"
      using quiet_serve [OF put _ _ gw_step_returned(7)] quiet_steps(8) by simp
    then have "holds_call ?g n c" using call by (simp add: same_calls_def)
    then show ?thesis using holds_call_at [OF gw_step_returned(3), of c] by (auto simp: return_dns split: if_splits)
  next
    case (gw_step_replaced c' client given w out)
    have "server_inv (start_now c' client given (gw_server g))"
      using server.inv_step [OF srv server_step_resumed [OF gw_step_replaced(2)]] .
    then show ?thesis using quiet_serve [OF base _ quiet_steps(7) gw_step_replaced(3)] call by (simp add: same_calls_def)
  next
    case (gw_step_closed c' client w out)
    have "server_inv (tunnel_close c' client (gw_server g))"
      using server.inv_step [OF srv server_step_closed [OF gw_step_closed(2)]] .
    then show ?thesis using quiet_serve [OF base _ quiet_steps(5) gw_step_closed(3)] call by (simp add: same_calls_def)
  next
    case (gw_step_bridge m b e b')
    then show ?thesis
      using call own_unchanged [OF gw_step_bridge(4,5)] holds_call_at [OF gw_step_bridge(3), of c]
      by (auto simp: unchanged_def split: if_splits)
  qed (use call in simp_all)
qed

section \<open>Sessions that do not share a client id\<close>

definition alone :: "web \<Rightarrow> gateway \<Rightarrow> gw_event \<Rightarrow> bool" where
  "alone web g e \<longleftrightarrow>
     (case e of Gw_opened c path origin \<Rightarrow>
        \<forall>c' client ph. tunnels (gw_server g) c' = Some (client, ph) \<longrightarrow> client_of (web_urls web) path \<noteq> Inr client
      | _ \<Rightarrow> True)"

lemma alone_exclusive: "opens_like e e' \<Longrightarrow> alone web g e \<Longrightarrow> exclusive web (gw_server g) e'"
  by (cases e') (auto simp: opens_like_def alone_def exclusive_def)

definition apart_step ::
  "egress_env \<Rightarrow> web \<Rightarrow> gateway \<Rightarrow> gw_event \<Rightarrow> gateway \<Rightarrow> bool" where
  "apart_step env web g e g' \<longleftrightarrow> gw_step env web g e g' \<and> alone web g e"

definition calls_owned :: "gateway \<Rightarrow> bool" where
  "calls_owned g \<longleftrightarrow> (\<forall>n c. holds_call g n c \<longrightarrow> started_by (server_log (gw_server g)) n = Some c)"

definition apart_inv :: "egress_env \<Rightarrow> gateway \<Rightarrow> bool" where
  "apart_inv env g \<longleftrightarrow> gw_inv env g \<and> owned (gw_server g) \<and> calls_owned g"

lemma server_log_grows: "server_step web s e t \<Longrightarrow> \<exists>as. server_log t = server_log s @ as"
proof (induction rule: server_step.induct)
  case (server_step_message s c client raw out)
  then show ?case using touches_message [of client s web c raw out] by (auto simp: touches_def)
next
  case (server_step_delivered s c client raised)
  then show ?case using touches_ops(8) [of client s c raised] by (auto simp: touches_def)
next
  case (server_step_resumed s c client wifi)
  then show ?case using touches_ops(7) [of client s c wifi] by (auto simp: touches_def)
next
  case (server_step_closed s c client)
  then show ?case using touches_ops(5) [of client s c] by (auto simp: touches_def)
qed (simp add: tunnel_open_def)

lemma owned_bridge:
  assumes "owned s" "dict_get (bridges s) client = Some n" "tunnels s c = Some (client, ph)"
  shows "started_by (server_log s) n = Some c"
proof -
  obtain c' ph' where "tunnels s c' = Some (client, ph')" "started_by (server_log s) n = Some c'"
    using assms(1,2) unfolding owned_def reading_def dict_all_def by blast
  moreover from this have "c' = c" using assms(1,3) by (simp add: owned_def apart_def client_at_def)
  ultimately show ?thesis by simp
qed

lemma apart_inv_step:
  assumes inv: "apart_inv env g" and step: "apart_step env web g e g'"
  shows "apart_inv env g'"
proof -
  have st: "gw_step env web g e g'" "alone web g e" using step by (simp_all add: apart_step_def)
  have gi: "gw_inv env g" and own: "owned (gw_server g)" and calls: "calls_owned g"
    using inv by (simp_all add: apart_inv_def)
  have srv: "gw_server g' = gw_server g \<or> (\<exists>e'. exclusive_step web (gw_server g) e' (gw_server g'))"
    using gw_server_step [OF st(1)] alone_exclusive [OF _ st(2)] unfolding exclusive_step_def by blast
  have "owned (gw_server g')" using srv own owned_step by auto
  moreover have "calls_owned g'"
    unfolding calls_owned_def
  proof (intro allI impI)
    fix n c assume "holds_call g' n c"
    then have "started_by (server_log (gw_server g)) n = Some c"
      using new_call [OF gi st(1)] calls owned_bridge [OF own] unfolding calls_owned_def by blast
    moreover obtain as where "server_log (gw_server g') = server_log (gw_server g) @ as"
    proof (cases "gw_server g' = gw_server g")
      case False
      then obtain e' where "server_step web (gw_server g) e' (gw_server g')"
        using srv by (auto simp: exclusive_step_def)
      from server_log_grows [OF this] show ?thesis using that by blast
    qed simp
    ultimately show "started_by (server_log (gw_server g')) n = Some c" by (simp add: started_by_append)
  qed
  ultimately show ?thesis using gw_inv_step [OF gi st(1)] by (simp add: apart_inv_def)
qed

lemma apart_inv_new: "apart_inv env gw_new"
  using gw_inv_new owned_new by (simp add: apart_inv_def calls_owned_def holds_call_def) (simp add: gw_new_def)

interpretation apart: machine "\<lambda>g. g = gw_new" "apart_step env web" "apart_inv env" for env web
  by unfold_locales (auto intro: apart_inv_new apart_inv_step)

lemma apart_runs: "runs (apart_step env web) s t \<Longrightarrow> runs (gw_step env web) s t"
  by (erule runs_induct) (auto simp: runs_refl apart_step_def intro: runs_step)

section \<open>A process with one session\<close>

definition process_web :: web where
  "process_web = sample_web\<lparr>web_b64 := (\<lambda>_. Some sample_packet)\<rparr>"

lemma process_upgraded:
  "process_request process_web sessions sample_path None = Inr None"
  "client_of (web_urls process_web) sample_path = Inr (str_of ''a'')"
  using sample_upgraded [of 0] client_a unfolding upgraded_iff by (simp_all add: process_web_def)

definition gw_opened :: gateway where
  "gw_opened = gw_new\<lparr>gw_server := tunnel_open 0 (str_of ''a'') server_new\<rparr>"

definition sample_bridge :: bridge where
  "sample_bridge = start (bridge_new (identity_of (str_of ''a'')) True 0 dns_new)"

definition gw_started :: gateway where
  "gw_started = (put_bridge 0 sample_bridge gw_opened)\<lparr>gw_server := one_session\<rparr>"

lemma one_session_message:
  "on_message web 0 (str_of ''a'') start_message out (gw_server gw_opened) = one_session"
  by (simp add: gw_opened_def one_session_def on_message_def start_message_read)

lemma gw_opened_state:
  "tunnels (gw_server gw_opened) 0 = Some (str_of ''a'', Reading)" "server_log (gw_server gw_opened) = []"
  "gw_dns gw_opened = dns_new"
  by (simp_all add: gw_opened_def gw_new_def tunnel_open_def server_new_def)

lemma gw_started_steps:
  "apart_step env process_web gw_new (Gw_opened 0 sample_path None) gw_opened"
  "apart_step env process_web gw_opened (Gw_message 0 start_message sample_io) gw_started"
proof -
  have "gw_step env process_web gw_new (Gw_opened 0 sample_path None) gw_opened"
    using gw_step_opened [OF _ process_upgraded, of gw_new 0 env]
    by (simp add: gw_opened_def gw_new_def server_new_def)
  moreover have "alone process_web gw_new (Gw_opened 0 sample_path None)"
    by (simp add: alone_def gw_new_def server_new_def)
  ultimately show "apart_step env process_web gw_new (Gw_opened 0 sample_path None) gw_opened"
    by (simp add: apart_step_def)
  have "serve env sample_io (on_message process_web 0 (str_of ''a'') start_message Returned (gw_server gw_opened)) gw_opened
      = Some (Returned, gw_started)"
    unfolding one_session_message
    by (simp add: serve_def gw_opened_state one_session_state gw_started_def sample_bridge_def)
  then have "gw_step env process_web gw_opened (Gw_message 0 start_message sample_io) gw_started"
    by (intro gw_step_message [OF gw_opened_state(1)])
      (simp_all add: io_fits_def sample_io_def gw_opened_state dns_new_def)
  then show "apart_step env process_web gw_opened (Gw_message 0 start_message sample_io) gw_started"
    by (simp add: apart_step_def alone_def)
qed

lemma gw_started_run: "runs (apart_step env process_web) gw_new gw_started"
  using runs_step [OF runs_one [of "apart_step env process_web", OF gw_started_steps(1)] gw_started_steps(2)] .

lemma gw_started_state:
  "gw_server gw_started = one_session" "bridge_at gw_started 0 = Some sample_bridge"
  "gw_pool gw_started 0 = Some sample_bridge" "started_by (server_log (gw_server gw_started)) 0 = Some 0"
  "next_bridge one_session = 1"
proof -
  show "next_bridge one_session = 1"
    by (simp add: one_session_def on_message_def start_message_read start_bridge_def tunnel_open_def
        server_new_def dict_laws new_bridge_def start_now_def)
qed (simp_all add: gw_started_def one_session_state)

section \<open>Properties\<close>

text \<open>C6: The process is made of bridges that each behave as one alone. Whatever tunnels open, send
  and close, and in whatever order lookups, timers and sockets of all bridges take their turns,
  the server goes through a run of its own machine, the shared DNS proxy through a run of its
  own, and each bridge the server has created through a run of the machine of a single
  bridge, from its creation and between any two moments; so every theorem about one bridge
  holds of each.\<close>

theorem gateway_refines_parts:
  assumes "runs (gw_step env web) gw_new g" "runs (gw_step env web) g g'"
  shows "runs (server_step web) server_new (gw_server g) \<and> runs (dns_step env) dns_new (gw_dns g) \<and>
    (\<forall>n. n < next_bridge (gw_server g) \<longrightarrow> (\<exists>s b b'. bridge_at g n = Some b \<and> br_res b = n \<and>
       br_start env s \<and> runs (br_step env) s b \<and> bridge_at g' n = Some b' \<and> runs (br_step env) b b'))"
proof -
  have inv: "gw_inv env g" using gateway.inv_reachable [OF refl assms(1)] .
  have "runs (server_step web) server_new (gw_server g)"
    using server_in_gateway.part_reachable [OF refl assms(1)] by (simp add: gw_new_def runs_refl)
  moreover have "\<exists>s b b'. bridge_at g n = Some b \<and> br_res b = n \<and> br_start env s \<and> runs (br_step env) s b \<and>
      bridge_at g' n = Some b' \<and> runs (br_step env) b b'" if n: "n < next_bridge (gw_server g)" for n
  proof -
    obtain b where b: "bridge_at g n = Some b" using pool_has [OF inv, of n] n by auto
    have "pool_ok env g" using inv by (simp add: gw_inv_def base_inv_def)
    then show ?thesis
      using b gw_follow [OF inv assms(2)] pool_bridge(1,2) [OF _ b] unfolding follow_def reach_def by metis
  qed
  ultimately show ?thesis using inv by (simp add: gw_inv_def base_inv_def pool_ok_def)
qed

theorem gateway_refines_parts_witness:
  "bridge_at gw_started 0 = Some sample_bridge \<and>
   (\<exists>s. br_start public_env s \<and> runs (br_step public_env) s sample_bridge)"
  using gateway_refines_parts [OF apart_runs [OF gw_started_run] runs_refl, of public_env]
  by (auto simp: gw_started_state)

text \<open>The tunnel or the bridge that an event belongs to.\<close>

definition concerns :: "gw_event \<Rightarrow> nat \<Rightarrow> nat \<Rightarrow> bool" where
  "concerns e n c \<longleftrightarrow>
     (case e of Gw_message c' raw w \<Rightarrow> c' = c | Gw_returned c' timeout \<Rightarrow> c' = c | Gw_replaced c' \<Rightarrow> c' = c
      | Gw_closed c' \<Rightarrow> c' = c | Gw_bridge m e \<Rightarrow> m = n | _ \<Rightarrow> False)"

text \<open>C7: Sessions do not reach into each other. As long as no tunnel is opened under the client id of
  another, a bridge changes only by the messages and the end of the tunnel that started it and
  by its own tasks and sockets: nothing another tunnel sends, no stop, no frame and no close of
  it, and no other bridge's traffic touches its tables, its sockets or the frames it sends.
  What sessions share is the DNS proxy alone.\<close>

theorem sessions_isolated:
  assumes "runs (apart_step env web) gw_new g" "apart_step env web g e g'"
    "started_by (server_log (gw_server g)) n = Some c" "\<not> concerns e n c"
  shows "gw_pool g n \<noteq> None \<and> gw_pool g' n = gw_pool g n"
proof -
  have inv: "gw_inv env g" "owned (gw_server g)" "calls_owned g"
    using apart.inv_reachable [OF refl assms(1)] by (simp_all add: apart_inv_def)
  have st: "gw_step env web g e g'" using assms(2) by (simp add: apart_step_def)
  have "n < next_bridge (gw_server g)"
    using inv(1) assms(3) unfolding gw_inv_def base_inv_def server_inv_def registry_ok_def by fastforce
  then have old: "n \<noteq> next_bridge (gw_server g)" "gw_pool g n \<noteq> None"
    using pool_has [OF inv(1), of n] by (auto simp: bridge_at_def)
  have mine: "c' = c" if "tunnels (gw_server g) c' = Some (client, ph)" "dict_get (bridges (gw_server g)) client = Some n" for c' client ph
    using owned_bridge [OF inv(2) that(2,1)] assms(3) by simp
  have "gw_pool g' n = gw_pool g n"
    using st
  proof cases
    case (gw_step_message c' client w raw out)
    then show ?thesis
      using serve_other [OF gw_step_message(6) touches_message old(1)] mine assms(4) by (auto simp: concerns_def)
  next
    case (gw_step_returned c' client m b mac call timeout w out)
    have "c' \<noteq> c" using assms(4) gw_step_returned(1) by (simp add: concerns_def)
    moreover have "holds_call g m c'" using gw_step_returned(3,4) by (simp add: holds_call_at)
    then have "started_by (server_log (gw_server g)) m = Some c'" using inv(3) by (simp add: calls_owned_def)
    ultimately have "m \<noteq> n" using assms(3) by auto
    moreover have "dict_get (bridges (gw_server g)) client \<noteq> Some n" using mine [OF gw_step_returned(2)] \<open>c' \<noteq> c\<close> by blast
    ultimately show ?thesis using serve_other [OF gw_step_returned(7), of client n] old(1) touches_ops(8) by simp
  next
    case (gw_step_replaced c' client given w out)
    then show ?thesis
      using serve_other [OF gw_step_replaced(3) touches_ops(7) old(1)] mine assms(4) by (auto simp: concerns_def)
  next
    case (gw_step_closed c' client w out)
    then show ?thesis
      using serve_other [OF gw_step_closed(3) touches_ops(5) old(1)] mine assms(4) by (auto simp: concerns_def)
  next
    case (gw_step_bridge m b e b')
    then show ?thesis using assms(4) by (simp add: concerns_def)
  qed simp_all
  then show ?thesis using old(2) by simp
qed

definition other_path :: pystr where
  "other_path = str_of ''/simulation/ws/b?code=042137''"

lemma other_upgraded:
  "process_request process_web sessions other_path None = Inr None"
  "client_of (web_urls process_web) other_path = Inr (str_of ''b'')"
proof -
  let ?u = "\<lparr>url_scheme = [], url_netloc = [], url_path = str_of ''/simulation/ws/b'',
    url_query = str_of ''code=042137''\<rparr>"
  have u: "urlsplit sample_lib other_path = Inr ?u" by code_simp
  have "supplied_code sample_lib ?u = str_of ''042137''" "url_path ?u \<noteq> str_of ''/status''" by code_simp+
  then show "process_request process_web sessions other_path None = Inr None"
    unfolding upgraded_iff using u by (auto simp: process_web_def sample_web_def origin_ok_def)
  have "last (split_on 47 (str_of ''/simulation/ws/b'')) = str_of ''b''" "str_of ''b'' \<noteq> []" by code_simp+
  then show "client_of (web_urls process_web) other_path = Inr (str_of ''b'')"
    using u by (simp add: client_of_def process_web_def sample_web_def)
qed

theorem sessions_isolated_witness:
  "\<exists>g. apart_step public_env process_web gw_started (Gw_opened 1 other_path None) g \<and>
     tunnels (gw_server g) 1 = Some (str_of ''b'', Reading) \<and> gw_pool g 0 = Some sample_bridge"
proof -
  let ?g = "gw_started\<lparr>gw_server := tunnel_open 1 (str_of ''b'') (gw_server gw_started)\<rparr>"
  have "tunnels one_session c \<noteq> Some (str_of ''b'', ph)" for c ph
    by (cases "c = 0") (simp_all add: one_session_def on_message_def start_message_read start_bridge_def start_now_def
        tunnel_open_def server_new_def dict_laws, simp add: str_of_def)
  then have st: "apart_step public_env process_web gw_started (Gw_opened 1 other_path None) ?g"
    using gw_step_opened [OF _ other_upgraded, of gw_started 1 public_env]
    by (auto simp: apart_step_def alone_def other_upgraded gw_started_state one_session_state)
  have "gw_pool ?g 0 = gw_pool gw_started 0"
    using sessions_isolated [OF gw_started_run st, of 0 0] by (simp add: gw_started_state concerns_def)
  then show ?thesis using st gw_started_state(3) by (intro exI [of _ ?g]) (simp add: tunnel_open_def)
qed

text \<open>C11: Bridges end with their sessions. As long as no tunnel is opened under the client id of
  another, a bridge of the process runs exactly while it is registered for the open tunnel that
  started it; once it does not run, whatever the process still does, it stays stopped, sends no
  frame and opens no socket.\<close>

theorem bridges_end_with_sessions:
  assumes "runs (apart_step env web) gw_new g" "bridge_at g n = Some b"
  shows "(br_running b \<longleftrightarrow> (\<exists>c client ph. tunnels (gw_server g) c = Some (client, ph) \<and>
      dict_get (bridges (gw_server g)) client = Some n \<and> started_by (server_log (gw_server g)) n = Some c)) \<and>
    (\<not> br_running b \<longrightarrow> (\<forall>g'. runs (gw_step env web) g g' \<longrightarrow>
      (\<exists>b'. bridge_at g' n = Some b' \<and> \<not> br_running b' \<and> emitted b' = emitted b \<and> sockets b' = sockets b)))"
proof -
  have inv: "gw_inv env g" and own: "owned (gw_server g)"
    using apart.inv_reachable [OF refl assms(1)] by (simp_all add: apart_inv_def)
  obtain L where L: "all_registered (gw_server g) L" using own by (auto simp: owned_def)
  then have reg: "registry_ok (gw_server g) L" by (simp add: all_registered_def)
  have run: "br_running b \<longleftrightarrow> n \<in> L"
    using inv reg assms(2) by (auto simp: gw_inv_def base_inv_def lives_def registry_ok_def bridge_at_def)
  have "n \<in> L \<longleftrightarrow> (\<exists>c client ph. tunnels (gw_server g) c = Some (client, ph) \<and>
      dict_get (bridges (gw_server g)) client = Some n \<and> started_by (server_log (gw_server g)) n = Some c)"
  proof
    assume "n \<in> L"
    then obtain client where "dict_get (bridges (gw_server g)) client = Some n"
      using L by (auto simp: all_registered_def)
    then show "\<exists>c client ph. tunnels (gw_server g) c = Some (client, ph) \<and>
        dict_get (bridges (gw_server g)) client = Some n \<and> started_by (server_log (gw_server g)) n = Some c"
      using own unfolding owned_def reading_def dict_all_def by blast
  qed (use reg in \<open>auto simp: registry_ok_def\<close>)
  moreover have "\<exists>b'. bridge_at g' n = Some b' \<and> \<not> br_running b' \<and> emitted b' = emitted b \<and> sockets b' = sockets b"
    if off: "\<not> br_running b" and more: "runs (gw_step env web) g g'" for g'
  proof -
    obtain b' where b': "bridge_at g' n = Some b'" "runs (br_step env) b b'"
      using gw_follow [OF inv more] assms(2) by (auto simp: follow_def)
    have "pool_ok env g" using inv by (simp add: gw_inv_def base_inv_def)
    then obtain s where "br_start env s" "runs (br_step env) s b"
      using pool_bridge(2) [OF _ assms(2)] unfolding reach_def by blast
    then have "silent_step b b'" using stopped_runs off b'(2) by blast
    then show ?thesis using b'(1) by (simp add: silent_step_def)
  qed
  ultimately show ?thesis using run by blast
qed

theorem bridges_end_with_sessions_witness:
  "br_running sample_bridge \<and>
   (\<exists>c client ph. tunnels one_session c = Some (client, ph) \<and> dict_get (bridges one_session) client = Some 0)"
proof -
  have "br_running sample_bridge" by (simp add: sample_bridge_def new_bridge_fields)
  then show ?thesis
    using bridges_end_with_sessions [OF gw_started_run [of public_env] gw_started_state(2)]
    by (auto simp: gw_started_state(1))
qed

section \<open>Pairing\<close>

lemma log_started: "started_by lg n = Some c \<Longrightarrow> \<exists>client wifi. Bridge_started n c client wifi \<in> set lg"
  by (induction lg n rule: started_by.induct) (auto split: if_splits)



section \<open>What a tunnel can do next\<close>

lemma quiet_serve_ex:
  assumes inv: "gw_inv env g" and q: "quiet_step (gw_server g) s"
  shows "\<exists>g'. serve env w s g = Some (Returned, g')"
proof -
  obtain as where as: "server_log s = server_log (gw_server g) @ as" "quiet (gw_server g) as"
    using q by (auto simp: quiet_step_def)
  have "\<exists>b. bridge_at g n = Some b" if "dict_get (bridges (gw_server g)) client = Some n" for client n
  proof -
    have "n < next_bridge (gw_server g)"
      using inv that unfolding gw_inv_def base_inv_def server_inv_def registry_ok_def by blast
    then show ?thesis using pool_has [OF inv, of n] by auto
  qed
  then have "\<exists>g1. acts env w as g = Some (Returned, g1)" using as(2) by (fastforce simp: quiet_def)
  then show ?thesis using as(1) by (auto simp: serve_def)
qed

lemma returned_in_time:
  "fst (dns_return env c call True mac b) = None"
  by (cases call) (simp add: dns_return_def dns_resume_def resolve_end_def answer_query_def dns_reply_frame_def
      br_reply_def Let_def split_beta)

lemma serve_frame_ex:
  assumes inv: "gw_inv env g" and c: "tunnels (gw_server g) c = Some (client, Reading)"
    and w: "io_fits w" "io_call w = c"
    and f: "message_frame web client raw (gw_server g) = Some (n, ether)" "\<not> is_dns_query ether"
  shows "\<exists>out g'. serve env w (on_message web c client raw out (gw_server g)) g = Some (out, g') \<and> out \<noteq> Raised"
proof -
  have "n < next_bridge (gw_server g)"
    using inv on_message_sent(1) [OF f(1)] unfolding gw_inv_def base_inv_def server_inv_def registry_ok_def by blast
  then obtain b where b: "bridge_at g n = Some b" using pool_has [OF inv, of n] by auto
  have "pool_ok env g" using inv by (simp add: gw_inv_def base_inv_def)
  then obtain s where s: "br_start env s" "runs (br_step env) s b"
    using pool_bridge(2) [OF _ b] unfolding reach_def by blast
  obtain u where u: "deliver_packet_out env w ether b = Some (None, u)"
    using handled_without_raise [OF s w(1) f(2)] by blast
  let ?out = "outcome_of w (None, u)"
  have out: "?out \<noteq> Raised" by (simp add: outcome_of_def)
  let ?s = "on_message web c client raw ?out (gw_server g)"
  have "acts env w [Bridge_given n ether] g = Some (?out, put_bridge n u g)" by (simp add: b u)
  moreover have "server_log ?s = server_log (gw_server g) @ [Bridge_given n ether]"
    using log_message_sent [OF f(1), of c ?out] out by simp
  ultimately have "serve env w ?s g = Some (?out, (put_bridge n u g)\<lparr>gw_server := ?s\<rparr>)"
    by (simp add: serve_def del: acts.simps)
  then show ?thesis using out by blast
qed

text \<open>A message whose \<^verbatim>\<open>data\<close> is not an object where one is read ends the handler.\<close>

definition malformed :: "json option \<Rightarrow> bool" where
  "malformed raw \<longleftrightarrow> read_message raw = Malformed \<or> read_message raw = Start None"

lemma message_keeps_tunnel:
  assumes "tunnels s c = Some (client, Reading)" "\<not> malformed raw" "out \<noteq> Raised"
  shows "tunnels (on_message web c client raw out s) c \<noteq> None"
proof (cases "message_frame web client raw s")
  case None
  then show ?thesis
    using assms by (auto simp: malformed_def on_message_def message_frame_def start_bridge_def start_now_def split: message.split option.splits)
next
  case (Some r)
  obtain b e where r: "r = (b, e)" by (cases r)
  show ?thesis using on_message_sent(2) [OF Some [unfolded r], of c out] assms by (cases out) (auto simp: Let_def)
qed

text \<open>Every open tunnel can go on; \<open>Session_Order\<close> adds the waits inside the NATs.\<close>

lemma tunnel_moves:
  assumes "runs (gw_step env web) gw_new g" "tunnels (gw_server g) c = Some (client, ph)"
  shows "case ph of
      Reading \<Rightarrow> (\<forall>raw w. io_fits w \<longrightarrow> io_call w = c \<longrightarrow>
        (\<forall>n ether. message_frame web client raw (gw_server g) = Some (n, ether) \<longrightarrow> \<not> is_dns_query ether) \<longrightarrow>
        (\<exists>g'. gw_step env web g (Gw_message c raw w) g' \<and>
          (\<not> malformed raw \<longrightarrow> tunnels (gw_server g') c \<noteq> None)))
    | Delivering \<Rightarrow> (\<exists>g'. gw_step env web g (Gw_returned c True) g' \<and>
        tunnels (gw_server g') c = Some (client, Reading))
    | Stopping given \<Rightarrow> (\<exists>g'. gw_step env web g (Gw_replaced c) g' \<and>
        (given \<noteq> None \<longrightarrow> tunnels (gw_server g') c = Some (client, Reading) \<and>
           dict_get (bridges (gw_server g')) client = Some (next_bridge (gw_server g))))"
proof (cases ph)
  case Reading
  have inv: "gw_inv env g" using gateway.inv_reachable [OF refl assms(1)] .
  note c = assms(2) [unfolded Reading]
  have free: "asked (gw_dns g) c = None"
    using inv c by (simp add: gw_inv_def calls_match_def delivering_def)
  have "\<exists>g'. gw_step env web g (Gw_message c raw w) g' \<and>
      (\<not> malformed raw \<longrightarrow> tunnels (gw_server g') c \<noteq> None)"
    if w: "io_fits w" "io_call w = c"
      and f: "\<forall>n ether. message_frame web client raw (gw_server g) = Some (n, ether) \<longrightarrow> \<not> is_dns_query ether" for raw w
  proof -
    have "\<exists>out g'. serve env w (on_message web c client raw out (gw_server g)) g = Some (out, g') \<and> out \<noteq> Raised"
    proof (cases "message_frame web client raw (gw_server g)")
      case None
      then show ?thesis using quiet_serve_ex [OF inv quiet_message [OF None]] by blast
    next
      case (Some r)
      then show ?thesis using serve_frame_ex [OF inv c w] f by (cases r) blast
    qed
    then obtain out g' where "serve env w (on_message web c client raw out (gw_server g)) g = Some (out, g')" "out \<noteq> Raised"
      by blast
    then show ?thesis
      using gw_step_message [OF c w free] serve_server message_keeps_tunnel [OF c] by metis
  qed
  then show ?thesis using Reading by simp
next
  case Delivering
  have inv: "gw_inv env g" using gateway.inv_reachable [OF refl assms(1)] .
  have ok: "pool_ok env g" using inv by (simp add: gw_inv_def base_inv_def)
  note c = assms(2) [unfolded Delivering]
  have "waits g c" using inv c by (auto simp: gw_inv_def calls_match_def delivering_def)
  then obtain n x mac where "gw_pool g n = Some x" "dns_macs x c = Some mac"
    by (auto simp: waits_def holds_call_def split: option.splits)
  then obtain b where b: "bridge_at g n = Some b" "dns_macs b c = Some mac" by (simp add: bridge_at_def)
  then obtain call where call: "asked (gw_dns g) c = Some call"
    using waits_okD(2) [OF pool_bridge(3) [OF ok b(1)] b(2)] pool_bridge(4) [OF ok b(1)] by auto
  let ?g = "put_bridge n (snd (dns_return env c call True mac b)) g"
  let ?s = "set_phase c (Some (client, Reading)) (gw_server g)"
  have "serve env w ?s ?g = Some (Returned, ?g\<lparr>gw_server := ?s\<rparr>)" for w by (simp add: serve_def)
  then have "gw_step env web g (Gw_returned c True) (?g\<lparr>gw_server := ?s\<rparr>)"
    using gw_step_returned [OF c b call, of True] by (simp add: returned_in_time delivered_def)
  then show ?thesis using Delivering by force
next
  case (Stopping given)
  have inv: "gw_inv env g" using gateway.inv_reachable [OF refl assms(1)] .
  note c = assms(2) [unfolded Stopping]
  obtain g' where g': "serve env sample_io (start_now c client given (gw_server g)) g = Some (Returned, g')"
    using quiet_serve_ex [OF inv quiet_steps(7)] by blast
  then have "gw_step env web g (Gw_replaced c) g'" by (rule gw_step_replaced [OF c])
  then show ?thesis using Stopping serve_server [OF g'] by (auto simp: start_now_def)
qed

definition packet_message :: "json option" where
  "packet_message = Some (JObj [(str_of ''type'', JStr (str_of ''picow_packet_out'')),
     (str_of ''data'', JObj [(str_of ''ether_b64'', JStr (str_of ''AA''))])])"

end
