(* ===== verification/Handler_Waits.thy ===== *)
theory Handler_Waits
  imports Bridge_Outputs
begin

text \<open>
  What a call of \<^verbatim>\<open>deliver_packet_out\<close> may wait for inside the NATs of a bridge: the grace period of
  a dial (\<^verbatim>\<open>asyncio.wait\<close> in \<^verbatim>\<open>_on_passive_syn\<close>) or the creation of an endpoint (\<^verbatim>\<open>_open_flow\<close>). What
  each step of a bridge does to these waits: a frame begins at most one, the matching answer ends
  it, and nothing else touches it.
\<close>

datatype wait = Wait_dial nat | Wait_endpoint nat

definition handler_waits :: "bridge \<Rightarrow> wait set" where
  "handler_waits b = {w. case w of Wait_dial cid \<Rightarrow> waiting (br_tcp b) cid \<noteq> None
     | Wait_endpoint tid \<Rightarrow> pending_opens (br_udp b) tid \<noteq> None}"

lemma handler_waits_iff [simp]:
  "Wait_dial cid \<in> handler_waits b \<longleftrightarrow> waiting (br_tcp b) cid \<noteq> None"
  "Wait_endpoint tid \<in> handler_waits b \<longleftrightarrow> pending_opens (br_udp b) tid \<noteq> None"
  by (simp_all add: handler_waits_def)

section \<open>The TCP NAT\<close>

text \<open>The dials that wait, and the numbers given out.\<close>

definition same_dials :: "tcp_nat \<Rightarrow> tcp_nat \<Rightarrow> bool" where
  "same_dials s t \<longleftrightarrow> waiting t = waiting s \<and> next_cid t = next_cid s"

lemma same_dials_refl [simp]: "same_dials s s"
  by (simp add: same_dials_def)

lemma same_dials_trans: "same_dials s t \<Longrightarrow> same_dials t u \<Longrightarrow> same_dials s u"
  by (simp add: same_dials_def)

lemma same_dials_ops [simp]:
  "same_dials s (emit a t) = same_dials s t" "same_dials s (upd cid f t) = same_dials s t"
  "same_dials s (t\<lparr>conns := d\<rparr>) = same_dials s t" "same_dials s (t\<lparr>connecting := k\<rparr>) = same_dials s t"
  by (simp_all add: same_dials_def)

lemma same_dials_inject [simp]: "same_dials s (snd (inject f t)) = same_dials s t"
  by (simp add: inject_def split: sum.split)

lemma same_dials_send [simp]:
  "same_dials s (snd (send cid fl sq ak opts p t)) = same_dials s t" "same_dials s (snd (ack_only cid t)) = same_dials s t"
  "same_dials s (snd (send_rst mac ip seg t)) = same_dials s t"
  by (simp_all add: send_def ack_only_def send_rst_def)

lemma same_dials_andthen:
  "same_dials s (snd m) \<Longrightarrow> (\<And>t. same_dials s t \<Longrightarrow> same_dials s (snd (f t))) \<Longrightarrow> same_dials s (snd (andthen m f))"
  by (cases m) (auto simp: andthen_def split: option.split)

lemma same_dials_close [simp]: "same_dials s (close_conn cid r t) = same_dials s t"
  by (simp add: close_conn_def Let_def split: option.split sum.split)

lemma same_dials_shutdown: "same_dials s (shutdown s)"
proof -
  have "same_dials s (fold (\<lambda>cid. close_conn cid True) cids t) = same_dials s t" for cids t
    by (induction cids arbitrary: t) simp_all
  then show ?thesis by (simp add: shutdown_def)
qed

lemma same_dials_segment: "same_dials s (snd (on_segment wr cid seg s))"
proof -
  have fin: "same_dials s (snd (maybe_fin cid seg t))" if "same_dials s t" for t
    using that by (simp add: maybe_fin_def on_fin_def Let_def split: option.split)
  have pay: "same_dials s (snd (accept_payload cid seg t))" if "same_dials s t" for t
    unfolding accept_payload_def using that fin by (intro same_dials_andthen) simp_all
  have data: "same_dials s (snd (on_data wr cid seg t))" if "same_dials s t" for t
    using that fin pay by (auto simp: on_data_def Let_def split: option.split)
  have over: "same_dials s (snd (fin_and_close cid seg t))" if "same_dials s t" for t
    using that by (auto simp: fin_and_close_def intro: same_dials_andthen)
  show ?thesis
    using data over
    by (auto simp: on_segment_def Let_def on_handshake_complete_def on_fin_wait_1_def on_fin_wait_2_def
        split: tcp_state.split)
qed

lemma same_dials_pump: "same_dials s (pump_wake cid s)" "same_dials s (pump_chunk cid now avail s)"
  "same_dials s (pump_error cid e s)"
proof -
  have guard: "same_dials s (pump_guard cid m)" if "same_dials s (snd m)" for m
    using that by (cases m) (auto simp: pump_guard_def split: option.split)
  have fin: "same_dials s (snd (send_fin cid st t))" if "same_dials s t" for st t
    using that unfolding send_fin_def Let_def by (intro same_dials_andthen) simp_all
  have fini: "same_dials s (snd (pump_finish cid t))" if "same_dials s t" for t
    unfolding pump_finish_def using that fin by (intro same_dials_andthen) simp_all
  have loop: "same_dials s (snd (pump_loop cid t))" if "same_dials s t" for t
    using that fini by (simp add: pump_loop_def)
  have segs: "same_dials s (snd (send_segments cid now chunk t))" if "same_dials s t" for chunk t
    using that
  proof (induction cid now chunk t rule: send_segments.induct)
    case (1 cid now chunk t)
    show ?case
    proof (cases "chunk = [] \<or> mss (objs t cid) \<le> 0")
      case False
      obtain e u where u: "send cid (TCP_ACK OR TCP_PSH) (our_seq (objs t cid)) (chip_seq (objs t cid)) []
          (take (nat (mss (objs t cid))) chunk) t = (e, u)" by fastforce
      then have "same_dials s u" using "1.prems" same_dials_send(1) [of s cid] by (metis snd_conv)
      then show ?thesis
        using False u "1.IH" [OF False refl refl refl u [symmetric]]
        by (subst send_segments.simps) (auto simp: Let_def split: option.split)
    qed (use "1.prems" in \<open>subst send_segments.simps, simp\<close>)
  qed
  show "same_dials s (pump_wake cid s)" using guard loop by (simp add: pump_wake_def)
  show "same_dials s (pump_error cid e s)" using guard by (simp add: pump_error_def)
  show "same_dials s (pump_chunk cid now avail s)"
    unfolding pump_chunk_def Let_def using fini segs loop by (auto intro!: guard same_dials_andthen)
qed

text \<open>A segment starts at most one dial, under the next number.\<close>

definition dial_begun :: "nat \<Rightarrow> tcp_nat \<Rightarrow> tcp_nat \<Rightarrow> bool" where
  "dial_begun cid s t \<longleftrightarrow> cid = next_cid s \<and> next_cid t = Suc cid \<and> (\<exists>args. waiting t = (waiting s)(cid \<mapsto> args))"

lemma segment_dials:
  "same_dials s (snd (handle_chip_segment env isn now wr mac ip seg s)) \<or>
   dial_begun (next_cid s) s (snd (handle_chip_segment env isn now wr mac ip seg s))"
proof -
  have "same_dials s (snd (on_passive_syn env isn now mac ip seg s)) \<or>
      dial_begun (next_cid s) s (snd (on_passive_syn env isn now mac ip seg s))"
    by (auto simp: on_passive_syn_def Let_def dial_begun_def split: prod.split)
  then show ?thesis
    using same_dials_segment by (auto simp: handle_chip_segment_def Let_def split: option.split)
qed

text \<open>The steps that the NAT takes on its own.\<close>

definition dial_over :: "event \<Rightarrow> nat \<Rightarrow> bool" where
  "dial_over e cid \<longleftrightarrow> (case e of Syn_answered c net \<Rightarrow> c = cid | Syn_grace c \<Rightarrow> c = cid | _ \<Rightarrow> False)"

lemma register_dials: "same_dials s t \<Longrightarrow> same_dials s (snd (register_conn cid t))"
  unfolding register_conn_def Let_def by (intro same_dials_andthen) simp_all

lemma own_tcp_dials:
  assumes "nat_step env s e t" "own_tcp e"
  shows "next_cid t = next_cid s" "waiting t cid = (if dial_over e cid then None else waiting s cid)"
proof -
  have over: "waiting u cid = (if c = cid then None else waiting s cid)" "next_cid u = next_cid s"
    if "same_dials (end_wait c s) u" for c u
    using that by (auto simp: same_dials_def end_wait_def)
  have ans: "same_dials (end_wait c s) (snd (syn_answered c args opened s))" for c args opened
    by (auto simp: syn_answered_def Let_def discard_key_def attach_def split: prod.split intro: register_dials)
  have grace: "same_dials (end_wait c s) (snd (syn_grace c s))" for c
    by (simp add: syn_grace_def register_dials)
  have same: "waiting u cid = waiting s cid" "next_cid u = next_cid s" if "same_dials s u" for u
    using that by (simp_all add: same_dials_def)
  have finished: "same_dials s (deferred_done c opened wr s)" for c opened wr
    by (simp add: deferred_done_def Let_def discard_key_def attach_def start_pump_def flush_eof_def)
  have other: "same_dials s (deferred_start c s)" "same_dials s (deferred_cancelled c s)" for c
    by (simp_all add: deferred_start_def deferred_cancelled_def discard_key_def)
  show "waiting t cid = (if dial_over e cid then None else waiting s cid)"
    using assms
    by cases (simp_all add: own_tcp_def dial_over_def over(1) [OF ans] over(1) [OF grace] same(1) [OF finished]
        same(1) [OF other(1)] same(1) [OF other(2)] same(1) [OF same_dials_pump(1)] same(1) [OF same_dials_pump(2)]
        same(1) [OF same_dials_pump(3)])
  show "next_cid t = next_cid s"
    using assms
    by cases (simp_all add: own_tcp_def over(2) [OF ans] over(2) [OF grace] same(2) [OF finished]
        same(2) [OF other(1)] same(2) [OF other(2)] same(2) [OF same_dials_pump(1)] same(2) [OF same_dials_pump(2)]
        same(2) [OF same_dials_pump(3)])
qed

section \<open>The UDP NAT\<close>

definition same_opens :: "udp_nat \<Rightarrow> udp_nat \<Rightarrow> bool" where
  "same_opens s t \<longleftrightarrow> pending_opens t = pending_opens s \<and> next_transport t = next_transport s"

lemma same_opens_ops [simp]:
  "same_opens s s" "same_opens s (udp_emit a t) = same_opens s t" "same_opens s (t\<lparr>flows := d\<rparr>) = same_opens s t"
  "same_opens s (t\<lparr>reaper := r\<rparr>) = same_opens s t" "same_opens s (reap_flow k t) = same_opens s t"
  "same_opens s (use_flow now ok k f payload t) = same_opens s t"
  by (simp_all add: same_opens_def use_flow_def Let_def reap_flow_def split: option.split)

lemma same_opens_reap [simp]: "same_opens s (fold reap_flow ks t) = same_opens s t"
  by (induction ks arbitrary: t) simp_all

lemma same_opens_received: "same_opens s (snd (on_host_datagram now k data s))"
  by (simp add: on_host_datagram_def Let_def split: option.split sum.split)

definition open_begun :: "nat \<Rightarrow> udp_nat \<Rightarrow> udp_nat \<Rightarrow> bool" where
  "open_begun tid s t \<longleftrightarrow>
     tid = next_transport s \<and> next_transport t = Suc tid \<and> (\<exists>args. pending_opens t = (pending_opens s)(tid \<mapsto> args))"

lemma datagram_opens:
  "same_opens s (handle_chip_datagram env now ok mac ip u s) \<or>
   open_begun (next_transport s) s (handle_chip_datagram env now ok mac ip u s)"
  by (auto simp: handle_chip_datagram_def open_flow_def open_begun_def Let_def split: option.split prod.split)

definition open_over :: "udp_event \<Rightarrow> nat \<Rightarrow> bool" where
  "open_over e tid \<longleftrightarrow> (case e of Udp_opened t created now now' ok \<Rightarrow> t = tid | _ \<Rightarrow> False)"

lemma own_udp_opens:
  assumes "udp_step env s e t" "own_udp e"
  shows "next_transport t = next_transport s"
    "pending_opens t tid = (if open_over e tid then None else pending_opens s tid)"
proof -
  have same: "pending_opens u tid = pending_opens s tid" "next_transport u = next_transport s" if "same_opens s u" for u
    using that by (simp_all add: same_opens_def)
  have opened: "same_opens (s\<lparr>pending_opens := (pending_opens s)(x := None)\<rparr>) (flow_opened x args created now now' ok s)"
    for x args created now now' ok
    by (simp add: flow_opened_def Let_def split: prod.split)
  have reap: "same_opens s (reaper_wake now s)" for now
    by (simp add: reaper_wake_def Let_def)
  have over: "pending_opens u tid = (if x = tid then None else pending_opens s tid)" "next_transport u = next_transport s"
    if "same_opens (s\<lparr>pending_opens := (pending_opens s)(x := None)\<rparr>) u" for x u
    using that by (simp_all add: same_opens_def)
  show "pending_opens t tid = (if open_over e tid then None else pending_opens s tid)"
    using assms
    by cases (simp_all add: own_udp_def open_over_def over(1) [OF opened] same(1) [OF reap] same(1) [OF same_opens_received])
  show "next_transport t = next_transport s"
    using assms
    by cases (simp_all add: own_udp_def over(2) [OF opened] same(2) [OF reap] same(2) [OF same_opens_received])
qed

section \<open>The bridge\<close>

text \<open>What the handling of a frame has begun to wait for.\<close>

definition begun :: "bridge \<Rightarrow> bridge \<Rightarrow> wait option" where
  "begun b b' =
     (if next_cid (br_tcp b) < next_cid (br_tcp b') then Some (Wait_dial (next_cid (br_tcp b)))
      else if next_transport (br_udp b) < next_transport (br_udp b')
      then Some (Wait_endpoint (next_transport (br_udp b))) else None)"

definition same_waits :: "bridge \<Rightarrow> bridge \<Rightarrow> bool" where
  "same_waits b b' \<longleftrightarrow> same_dials (br_tcp b) (br_tcp b') \<and> same_opens (br_udp b) (br_udp b')"

lemma same_waitsD:
  "same_waits b b' \<Longrightarrow> handler_waits b' = handler_waits b" "same_waits b b' \<Longrightarrow> begun b b' = None"
  by (auto simp: same_waits_def same_dials_def same_opens_def handler_waits_def begun_def split: wait.splits)

definition waits_grow :: "bridge \<Rightarrow> bridge \<Rightarrow> bool" where
  "waits_grow b b' \<longleftrightarrow> handler_waits b' = handler_waits b \<union> set_option (begun b b')"

lemma waits_grow_dial:
  "dial_begun cid (br_tcp b) (br_tcp b') \<Longrightarrow> br_udp b' = br_udp b \<Longrightarrow> waits_grow b b'"
  by (auto simp: waits_grow_def dial_begun_def begun_def handler_waits_def split: wait.splits if_splits)

lemma waits_grow_open:
  "open_begun tid (br_udp b) (br_udp b') \<Longrightarrow> br_tcp b' = br_tcp b \<Longrightarrow> waits_grow b b'"
  by (auto simp: waits_grow_def open_begun_def begun_def handler_waits_def split: wait.splits if_splits)

lemma waits_grow_same: "same_waits b b' \<Longrightarrow> waits_grow b b'"
  by (simp add: waits_grow_def same_waitsD)

text \<open>A frame reaches one NAT at most.\<close>

definition one_nat :: "egress_env \<Rightarrow> bridge \<Rightarrow> bridge \<Rightarrow> bool" where
  "one_nat env b b' \<longleftrightarrow> (br_udp b' = br_udp b \<and>
      (br_tcp b' = br_tcp b \<or> (\<exists>isn now wr mac ip seg.
         br_tcp b' = snd (handle_chip_segment env isn now wr mac ip seg (br_tcp b))))) \<or>
     (br_tcp b' = br_tcp b \<and> (\<exists>now ok mac ip u. br_udp b' = handle_chip_datagram env now ok mac ip u (br_udp b)))"

lemma one_nat_waits: "one_nat env b b' \<Longrightarrow> waits_grow b b'"
proof -
  assume "one_nat env b b'"
  then consider "same_waits b b'"
    | cid where "dial_begun cid (br_tcp b) (br_tcp b')" "br_udp b' = br_udp b"
    | tid where "open_begun tid (br_udp b) (br_udp b')" "br_tcp b' = br_tcp b"
    unfolding one_nat_def same_waits_def using segment_dials datagram_opens same_dials_refl same_opens_ops(1) by metis
  then show ?thesis by cases (auto intro: waits_grow_same waits_grow_dial waits_grow_open)
qed

lemma packet_one_nat:
  assumes "deliver_packet_out env w bs b = Some r"
  shows "one_nat env b (snd r)"
proof -
  have same: "one_nat env b t" if "br_tcp t = br_tcp b" "br_udp t = br_udp b" for b t
    using that by (simp add: one_nat_def)
  have dhcp: "one_nat env b (snd (handle_dhcp mac u b))" for mac u b
    by (rule same) (simp_all add: handle_dhcp_def split_beta Let_def)
  have dns: "one_nat env b (snd r)" if "handle_dns env w mac ip u b = Some r" for mac ip u b r
    using that by (intro same) (auto simp: handle_dns_def Let_def split: option.splits sum.splits)
  have tcp: "one_nat env b (snd (handle_tcp env w mac ip t b))" for mac ip t b
  proof (cases "matches ip t (br_in b)")
    case True
    then show ?thesis by (intro same) (simp_all add: handle_tcp_def split_beta Let_def)
  next
    case False
    then have "br_tcp (snd (handle_tcp env w mac ip t b)) =
        snd (handle_chip_segment env (io_isn w) (io_now w) (io_ok w) mac ip t (br_tcp b))"
      "br_udp (snd (handle_tcp env w mac ip t b)) = br_udp b"
      by (simp_all add: handle_tcp_def split_beta Let_def)
    then show ?thesis unfolding one_nat_def by blast
  qed
  have udp: "one_nat env b (set_udp (handle_chip_datagram env now ok mac ip u (br_udp b)) b)" for now ok mac ip u b
    unfolding one_nat_def set_part_simps by blast
  have ip: "one_nat env b (snd r)" if "handle_ipv4 env w ip b = Some r" for ip b r
    using that dhcp dns tcp udp
    by (auto simp: handle_ipv4_def handle_udp_def intro: same split: if_splits sum.splits)
  have mac: "one_nat env b t" if "one_nat env (learn_mac f b) t" for f t
    using that by (simp add: one_nat_def)
  have inner: "one_nat env b (snd r)" if "handle_ipv4 env w ip (learn_mac f b) = Some r" for ip f
    using mac ip that by blast
  show ?thesis
    using assms inner
    by (auto simp: deliver_packet_out_def Let_def simp del: split_paired_All intro: same split: if_splits sum.splits)
qed

text \<open>The event that ends a wait.\<close>

definition wait_over :: "br_event \<Rightarrow> wait \<Rightarrow> bool" where
  "wait_over e w \<longleftrightarrow> (case (e, w) of (Br_tcp e', Wait_dial cid) \<Rightarrow> dial_over e' cid
     | (Br_udp e', Wait_endpoint tid) \<Rightarrow> open_over e' tid | _ \<Rightarrow> False)"

lemma own_waits:
  assumes "br_step env b e b'"
    and "\<And>w bs. e \<noteq> Br_packet w bs"
  shows "handler_waits b' = {w \<in> handler_waits b. \<not> wait_over e w}" "begun b b' = None"
proof -
  have "handler_waits b' = {w \<in> handler_waits b. \<not> wait_over e w} \<and> begun b b' = None"
    using assms(1)
  proof cases
    case (br_step_packet w bs err)
    then show ?thesis using assms(2) by blast
  next
    case (br_step_tcp e' n)
    then show ?thesis
      using own_tcp_dials [OF br_step_tcp(4,3)]
      by (auto simp: handler_waits_def begun_def wait_over_def split: wait.splits if_splits)
  next
    case (br_step_udp e' n)
    then show ?thesis
      using own_udp_opens [OF br_step_udp(4,3)]
      by (auto simp: handler_waits_def begun_def wait_over_def split: wait.splits if_splits)
  next
    case br_step_stop
    then have "same_waits b b'"
      using same_dials_shutdown by (simp add: same_waits_def stop_def Let_def udp_shutdown_def)
    then show ?thesis using br_step_stop by (auto simp: same_waitsD wait_over_def)
  qed (auto simp: handler_waits_def begun_def wait_over_def dns_return_def split_beta http_into_chip_def
      ensure_chip_mac_def andthen_def http_request_def start_def Let_def split: wait.splits option.splits)
  then show "handler_waits b' = {w \<in> handler_waits b. \<not> wait_over e w}" "begun b b' = None" by simp_all
qed

end
