(* ===== verification/Gateway_Waits.thy ===== *)
theory Gateway_Waits
  imports Handler_Waits Gateway_Machine
begin

text \<open>
  The waits of the handlers inside the whole process: which steps of the process begin or end
  them. A message begins at most one, in the bridge its frame is for; a step of a bridge ends
  those it answers; everything else leaves all of them alone.
\<close>

section \<open>One bridge\<close>

lemma fresh_waits:
  assumes "reach env b" "begun b b' = Some w"
  shows "w \<notin> handler_waits b"
proof -
  have inv: "nat_inv (br_tcp b)" "udp_inv env (br_udp b)"
    using assms(1) outputs.inv_reachable unfolding reach_def bridge_inv_def by blast+
  have "waiting (br_tcp b) (next_cid (br_tcp b)) = None" using inv(1) by (simp add: nat_inv_def)
  moreover have "pending_opens (br_udp b) (next_transport (br_udp b)) = None"
    using udp_inv_pending [OF inv(2)] by (cases "pending_opens (br_udp b) (next_transport (br_udp b))")
      (auto simp: pending_ok_def endpoint_open_def)
  ultimately show ?thesis using assms(2) by (auto simp: begun_def split: if_splits)
qed

text \<open>A frame that queries the resolver goes to no NAT; any other leaves the resolver alone.\<close>

lemma query_no_nat:
  assumes "deliver_packet_out env w bs b = Some r" "is_dns_query bs"
  shows "br_tcp (snd r) = br_tcp b \<and> br_udp (snd r) = br_udp b"
proof -
  have dns: "br_tcp (snd r) = br_tcp b \<and> br_udp (snd r) = br_udp b"
    if "handle_dns env w mac ip u b = Some r" for mac ip u b r
    using that by (auto simp: handle_dns_def Let_def split: option.splits sum.splits)
  obtain f ip u where q: "ethernet_parse bs = Inr f" "ipv4_parse (eth_payload f) = Inr ip"
    "ip_protocol ip = IPPROTO_UDP" "udp_parse (ip_payload ip) = Inr u"
    "is_dns_traffic u" "\<not> is_dhcp_traffic u" "ip_dst ip = ip_const GATEWAY_IP"
    using assms(2) by (auto simp: is_dns_query_def)
  have "handle_ipv4 env w ip s = handle_dns env w (br_mac s) ip u s" for s
    using q by (simp add: handle_ipv4_def handle_udp_def IPPROTO_UDP_def IPPROTO_ICMP_def)
  moreover have "br_tcp (learn_mac f b) = br_tcp b" "br_udp (learn_mac f b) = br_udp b" by simp_all
  moreover have "br_tcp (snd (br_reply x s)) = br_tcp s" "br_udp (snd (br_reply x s)) = br_udp s" for x s by simp_all
  ultimately show ?thesis
    using assms(1) q(1,2) dns [where b = "learn_mac f b" and r = r]
    by (auto simp: deliver_packet_out_def Let_def simp del: split_paired_All split: if_splits)
qed

lemma other_no_query:
  assumes "deliver_packet_out env w bs b = Some r" "\<not> is_dns_query bs"
  shows "unchanged b (snd r)"
proof -
  have dhcp: "unchanged b (snd (handle_dhcp mac u b))" for mac u b
    by (simp add: handle_dhcp_def split_beta Let_def)
  have tcp: "unchanged b (snd (handle_tcp env w mac ip t b))" for mac ip t b
    by (simp add: handle_tcp_def split_beta)
  have ip: "unchanged b (snd r)"
    if "handle_ipv4 env w ip (learn_mac f b) = Some r" "ethernet_parse bs = Inr f" "ipv4_parse (eth_payload f) = Inr ip" for ip f
    using that assms(2) dhcp [where b = "learn_mac f b"] tcp [where b = "learn_mac f b"]
    by (auto simp: handle_ipv4_def handle_udp_def is_dns_query_def split: if_splits sum.splits)
  show ?thesis
    using assms(1) ip
    by (auto simp: deliver_packet_out_def Let_def simp del: split_paired_All split: if_splits sum.splits)
qed

text \<open>A frame that begins a wait is handled without an exception and without asking the resolver.\<close>

lemma begun_outcome:
  assumes "reach env b" "io_fits w" "dns_macs b (io_call w) = None"
    and "deliver_packet_out env w bs b = Some r" "begun b (snd r) \<noteq> None"
  shows "outcome_of w r = Returned"
proof -
  have no: "\<not> is_dns_query bs" using query_no_nat [OF assms(4)] assms(5) by (auto simp: begun_def)
  obtain s where "br_start env s" "runs (br_step env) s b" using assms(1) by (auto simp: reach_def)
  then have "fst r = None" using handled_without_raise [OF _ _ assms(2) no] assms(4) by fastforce
  moreover have "dns_macs (snd r) (io_call w) = None"
    using other_no_query [OF assms(4) no] assms(3) by (simp add: unchanged_def)
  ultimately show ?thesis by (simp add: outcome_of_def)
qed

section \<open>The waits of the process\<close>

definition wait_at :: "gateway \<Rightarrow> nat \<Rightarrow> wait \<Rightarrow> bool" where
  "wait_at g n w \<longleftrightarrow> (\<exists>b. bridge_at g n = Some b \<and> w \<in> handler_waits b)"

definition waits_kept :: "gateway \<Rightarrow> gateway \<Rightarrow> bool" where
  "waits_kept g g' \<longleftrightarrow> (\<forall>n w. wait_at g' n w \<longleftrightarrow> wait_at g n w)"

lemma waits_kept_refl [simp]: "waits_kept g g"
  by (simp add: waits_kept_def)

lemma waits_of_dns [simp]: "handler_waits (b\<lparr>br_dns := d\<rparr>) = handler_waits b"
  by (auto simp: handler_waits_def split: wait.splits)

lemma wait_at_put [simp]:
  "wait_at (put_bridge n b g) m w \<longleftrightarrow> (if m = n then w \<in> handler_waits b else wait_at g m w)"
  by (auto simp: wait_at_def)

lemma wait_at_pool: "wait_at g n w \<longleftrightarrow> (\<exists>b. gw_pool g n = Some b \<and> w \<in> handler_waits b)"
  by (auto simp: wait_at_def bridge_at_def)

lemma wait_at_server [simp]: "wait_at (g\<lparr>gw_server := s\<rparr>) n w = wait_at g n w"
  by (simp add: wait_at_def)

lemma waits_kept_put:
  "bridge_at g n = Some b \<Longrightarrow> handler_waits b' = handler_waits b \<Longrightarrow> waits_kept g (put_bridge n b' g)"
  by (auto simp: waits_kept_def wait_at_def)

lemma waits_kept_server [simp]: "waits_kept g (g'\<lparr>gw_server := s\<rparr>) = waits_kept g g'"
  by (simp add: waits_kept_def)

lemma stop_waits: "same_waits b (stop b)"
  using same_dials_shutdown by (simp add: same_waits_def stop_def Let_def udp_shutdown_def)

lemma start_waits: "handler_waits (start (bridge_new ident wifi res dns)) = {}"
  by (auto simp: handler_waits_def start_def bridge_new_def nat_new_def udp_new_def br_inject_def split: wait.splits option.splits)

lemma waits_act:
  assumes "act env w a g = Some (out, g')" "\<And>n e. a \<noteq> Bridge_given n e"
    and "\<And>n c cl wifi. a = Bridge_started n c cl wifi \<Longrightarrow> gw_pool g n = None"
  shows "waits_kept g g'"
proof (cases a)
  case (Bridge_started n c cl wifi)
  have "\<not> wait_at g n w" for w using assms(3) [OF Bridge_started] by (simp add: wait_at_pool)
  then show ?thesis using assms(1) Bridge_started by (auto simp: waits_kept_def start_waits split: if_splits)
next
  case (Bridge_stopped n)
  then show ?thesis
    using assms(1) waits_kept_put [OF _ same_waitsD(1) [OF stop_waits]] by auto
qed (use assms(2) in blast)

lemma waits_quiet:
  assumes "base_inv env g" "quiet_step (gw_server g) s" "serve env w s g = Some (out, g')"
  shows "waits_kept g g'"
proof -
  obtain as where as: "server_log s = server_log (gw_server g) @ as" "quiet (gw_server g) as"
    using assms(2) by (auto simp: quiet_step_def)
  obtain g1 where g1: "acts env w as g = Some (out, g1)" "g' = g1\<lparr>gw_server := s\<rparr>"
    using serve_acts [OF assms(3) as(1)] .
  consider "as = []" | a where "as = [a]" "\<And>n e. a \<noteq> Bridge_given n e"
      "\<And>n c cl wifi. a = Bridge_started n c cl wifi \<Longrightarrow> gw_pool g n = None"
    using as(2) base_fresh [OF assms(1)] by (auto simp: quiet_def)
  then show ?thesis
  proof cases
    case 1
    then show ?thesis using g1 by simp
  next
    case (2 a)
    have "act env w a g = Some (out, g1)" using g1(1) 2(1) acts_one by metis
    then show ?thesis using waits_act 2(2,3) g1(2) by simp
  qed
qed

text \<open>The wait that a message begins, with the bridge it begins in.\<close>

definition new_wait :: "web \<Rightarrow> pystr \<Rightarrow> json option \<Rightarrow> gateway \<Rightarrow> gateway \<Rightarrow> (nat \<times> wait) option" where
  "new_wait web client raw g g' =
     (case message_frame web client raw (gw_server g) of
        None \<Rightarrow> None
      | Some (n, ether) \<Rightarrow>
          (case (bridge_at g n, bridge_at g' n) of
             (Some b, Some b') \<Rightarrow> map_option (Pair n) (begun b b')
           | _ \<Rightarrow> None))"

lemma begun_stop: "begun b (stop b') = begun b b'"
  using stop_waits [of b'] by (simp add: begun_def same_waits_def same_dials_def same_opens_def)

lemma waits_sent:
  assumes inv: "gw_inv env g" and w: "io_fits w" "asked (gw_dns g) (io_call w) = None"
    and f: "message_frame web client raw (gw_server g) = Some (n, ether)"
    and serve: "serve env w (on_message web c client raw out (gw_server g)) g = Some (out, g')"
  shows "wait_at g' m x \<longleftrightarrow> wait_at g m x \<or> new_wait web client raw g g' = Some (m, x)"
    "new_wait web client raw g g' = Some (m, x) \<Longrightarrow> m = n \<and> out = Returned \<and> \<not> wait_at g m x"
proof -
  let ?s = "on_message web c client raw out (gw_server g)"
  let ?as = "if out = Raised then [Bridge_given n ether, Bridge_stopped n] else [Bridge_given n ether]"
  obtain g2 where g2: "acts env w ?as g = Some (out, g2)" "g' = g2\<lparr>gw_server := ?s\<rparr>"
    using serve_acts [OF serve log_message_sent [OF f]] .
  obtain b where b: "bridge_at g n = Some b" using g2(1) by (cases "bridge_at g n") (auto split: if_splits)
  obtain r where r: "deliver_packet_out env w ether b = Some r"
    using g2(1) b by (cases "deliver_packet_out env w ether b") (auto split: if_splits)
  let ?g1 = "put_bridge n (snd r) g"
  have pool: "pool_ok env g" using inv by (simp add: gw_inv_def base_inv_def)
  have "handler_waits (snd r) = handler_waits b \<union> set_option (begun b (snd r))"
    using one_nat_waits [OF packet_one_nat [OF r]] by (simp add: waits_grow_def)
  moreover have "g2 = ?g1 \<or> g2 = put_bridge n (stop (snd r)) ?g1" "out = outcome_of w r"
    using g2(1) b r by (auto split: if_splits)
  ultimately have g': "\<exists>b'. bridge_at g' n = Some b' \<and> begun b b' = begun b (snd r) \<and>
      (\<forall>m x. wait_at g' m x \<longleftrightarrow> wait_at g m x \<or> m = n \<and> begun b (snd r) = Some x)"
    using g2(2) b same_waitsD(1) [OF stop_waits] begun_stop by (auto simp: wait_at_def)
  then have new: "new_wait web client raw g g' = map_option (Pair n) (begun b (snd r))"
    using f b by (auto simp: new_wait_def)
  show "wait_at g' m x \<longleftrightarrow> wait_at g m x \<or> new_wait web client raw g g' = Some (m, x)"
    using g' unfolding new by auto
  assume "new_wait web client raw g g' = Some (m, x)"
  then have x: "m = n" "begun b (snd r) = Some x" unfolding new by auto
  have "dns_macs b (io_call w) = None"
    using waits_okD(2) [OF pool_bridge(3) [OF pool b]] pool_bridge(4) [OF pool b] w(2) by (metis not_Some_eq)
  then have "outcome_of w r = Returned" using begun_outcome [OF pool_bridge(2) [OF pool b] w(1) _ r] x(2) by simp
  moreover have "\<not> wait_at g n x" using fresh_waits [OF pool_bridge(2) [OF pool b] x(2)] b by (simp add: wait_at_def)
  ultimately show "m = n \<and> out = Returned \<and> \<not> wait_at g m x" using x \<open>out = outcome_of w r\<close> by simp
qed

lemma waits_message:
  assumes inv: "gw_inv env g" and c: "tunnels (gw_server g) c = Some (client, Reading)"
    and w: "io_fits w" "asked (gw_dns g) (io_call w) = None"
    and serve: "serve env w (on_message web c client raw out (gw_server g)) g = Some (out, g')"
  shows "wait_at g' m x \<longleftrightarrow> wait_at g m x \<or> new_wait web client raw g g' = Some (m, x)"
    "new_wait web client raw g g' = Some (m, x) \<Longrightarrow> \<not> wait_at g m x \<and>
       dict_get (bridges (gw_server g)) client = Some m \<and> tunnels (gw_server g') c = Some (client, Reading)"
proof -
  have base: "base_inv env g" using inv by (simp add: gw_inv_def)
  have "(wait_at g' m x \<longleftrightarrow> wait_at g m x \<or> new_wait web client raw g g' = Some (m, x)) \<and>
    (new_wait web client raw g g' = Some (m, x) \<longrightarrow> \<not> wait_at g m x \<and>
       dict_get (bridges (gw_server g)) client = Some m \<and> tunnels (gw_server g') c = Some (client, Reading))"
  proof (cases "message_frame web client raw (gw_server g)")
    case None
    then show ?thesis using waits_quiet [OF base quiet_message [OF None] serve] by (simp add: waits_kept_def new_wait_def)
  next
    case (Some r)
    obtain n ether where f: "message_frame web client raw (gw_server g) = Some (n, ether)" using Some by (cases r) simp
    have "tunnels (gw_server g') c = Some (client, Reading)" if "out = Returned"
      using serve_server [OF serve] on_message_sent(2) [OF f, of c out] c that by (simp add: Let_def log_action_def)
    then show ?thesis using waits_sent [OF inv w f serve, of m x] on_message_sent(1) [OF f] by blast
  qed
  then show "wait_at g' m x \<longleftrightarrow> wait_at g m x \<or> new_wait web client raw g g' = Some (m, x)"
    "new_wait web client raw g g' = Some (m, x) \<Longrightarrow> \<not> wait_at g m x \<and>
       dict_get (bridges (gw_server g)) client = Some m \<and> tunnels (gw_server g') c = Some (client, Reading)" by blast+
qed

lemma waits_bridge:
  assumes "bridge_at g n = Some b" "own_event e" "br_step env b e b'"
  shows "wait_at (put_bridge n b' g) m x \<longleftrightarrow> wait_at g m x \<and> \<not> (m = n \<and> wait_over e x)"
proof -
  have "handler_waits b' = {w \<in> handler_waits b. \<not> wait_over e w}"
    using own_waits(1) [OF assms(3)] assms(2) by (force simp: own_event_def)
  then show ?thesis using assms(1) by (auto simp: wait_at_def)
qed

lemma return_waits: "handler_waits (snd (dns_return env c call timeout mac b)) = handler_waits b"
  by (auto simp: handler_waits_def dns_return_def split_beta split: wait.splits)

text \<open>Every other step leaves the waits alone.\<close>

lemma waits_other:
  assumes inv: "gw_inv env g" and step: "gw_step env web g e g'"
    and other: "\<And>c raw w. e \<noteq> Gw_message c raw w" "\<And>n x. e \<noteq> Gw_bridge n x"
  shows "waits_kept g g'"
proof -
  have base: "base_inv env g" using inv by (simp add: gw_inv_def)
  show ?thesis
    using step
  proof cases
    case (gw_step_returned c client n b mac call timeout w out)
    let ?b = "snd (dns_return env c call timeout mac b)"
    have pool: "pool_ok env g" using base by (simp add: base_inv_def)
    have asked: "asked (br_dns b) c = Some call" "timeout \<or> task_result (br_dns b) (fst (snd call)) \<noteq> None"
      using gw_step_returned(5,6) pool_bridge(4) [OF pool gw_step_returned(3)] by simp_all
    have "base_inv env (put_bridge n ?b g)"
      using base_put [OF base gw_step_returned(3) br_run_one [OF br_step_dns_return [OF gw_step_returned(4) asked]]
          return_via_proxy [OF gw_step_returned(4) asked] return_dns(4)] by simp
    then have "waits_kept (put_bridge n ?b g) g'"
      using waits_quiet [OF _ _ gw_step_returned(7)] quiet_steps(8) by simp
    moreover have "waits_kept g (put_bridge n ?b g)" by (rule waits_kept_put [OF gw_step_returned(3) return_waits])
    ultimately show ?thesis by (simp add: waits_kept_def)
  next
    case (gw_step_replaced c client given w out)
    then show ?thesis using waits_quiet [OF base quiet_steps(7)] by blast
  next
    case (gw_step_closed c client w out)
    then show ?thesis using waits_quiet [OF base quiet_steps(5)] by blast
  next
    case (gw_step_lookup tid now answers d)
    then show ?thesis by (simp add: waits_kept_def wait_at_pool)
  qed (use other in auto)
qed

end
