(* ===== verification/Session_Order.thy ===== *)
theory Session_Order
  imports Gateway_Properties Gateway_Waits
begin

text \<open>
  The handler of a session awaits \<^verbatim>\<open>deliver_packet_out\<close> before it reads the next message. The steps of
  the theory \<open>Gateway\<close> say so for a frame that waits for the resolver; here they are restricted to
  the order the code imposes for the waits inside the NATs as well: a dial in its grace period
  and the creation of a UDP endpoint keep the handler that began them.
\<close>

section \<open>Handlers that wait\<close>

record sessions =
  process :: gateway
  blocked :: "nat \<Rightarrow> (nat \<times> wait) option"

definition sessions_new :: sessions where
  "sessions_new = \<lparr>process = gw_new, blocked = (\<lambda>_. None)\<rparr>"

definition begun_by :: "web \<Rightarrow> nat \<Rightarrow> json option \<Rightarrow> gateway \<Rightarrow> gateway \<Rightarrow> (nat \<times> wait) option" where
  "begun_by web c raw g g' =
     (case tunnels (gw_server g) c of None \<Rightarrow> None | Some (client, ph) \<Rightarrow> new_wait web client raw g g')"

definition resume :: "nat \<Rightarrow> br_event \<Rightarrow> (nat \<Rightarrow> (nat \<times> wait) option) \<Rightarrow> nat \<Rightarrow> (nat \<times> wait) option" where
  "resume n e bl c =
     (case bl c of None \<Rightarrow> None | Some (m, x) \<Rightarrow> if m = n \<and> wait_over e x then None else Some (m, x))"

text \<open>Events that no handler has to take up from its loop.\<close>

definition loop_free :: "gw_event \<Rightarrow> bool" where
  "loop_free e \<longleftrightarrow> (case e of Gw_message c raw w \<Rightarrow> False | Gw_closed c \<Rightarrow> False | Gw_bridge n x \<Rightarrow> False | _ \<Rightarrow> True)"

inductive session_step :: "egress_env \<Rightarrow> web \<Rightarrow> sessions \<Rightarrow> gw_event \<Rightarrow> sessions \<Rightarrow> bool" for env web where
  session_step_message:
    "blocked s c = None \<Longrightarrow> gw_step env web (process s) (Gw_message c raw w) g \<Longrightarrow>
     session_step env web s (Gw_message c raw w)
       \<lparr>process = g, blocked = (blocked s)(c := begun_by web c raw (process s) g)\<rparr>"
| session_step_closed:
    "blocked s c = None \<Longrightarrow> gw_step env web (process s) (Gw_closed c) g \<Longrightarrow>
     session_step env web s (Gw_closed c) (s\<lparr>process := g\<rparr>)"
| session_step_bridge:
    "gw_step env web (process s) (Gw_bridge n e) g \<Longrightarrow>
     session_step env web s (Gw_bridge n e) \<lparr>process = g, blocked = resume n e (blocked s)\<rparr>"
| session_step_other:
    "loop_free e \<Longrightarrow> gw_step env web (process s) e g \<Longrightarrow> session_step env web s e (s\<lparr>process := g\<rparr>)"

lemma session_gateway: "session_step env web s e s' \<Longrightarrow> gw_step env web (process s) e (process s')"
  by (auto elim: session_step.cases)

section \<open>Each wait has one handler\<close>

definition event_tunnel :: "gw_event \<Rightarrow> nat option" where
  "event_tunnel e = (case e of Gw_opened c path origin \<Rightarrow> Some c | Gw_message c raw w \<Rightarrow> Some c
     | Gw_returned c timeout \<Rightarrow> Some c | Gw_replaced c \<Rightarrow> Some c | Gw_closed c \<Rightarrow> Some c | _ \<Rightarrow> None)"

lemma tunnels_ops:
  assumes "x \<noteq> c"
  shows "tunnels (tunnel_close c client s) x = tunnels s x" "tunnels (start_now c client given s) x = tunnels s x"
    "tunnels (start_bridge c client given s) x = tunnels s x" "tunnels (delivered c client raised s) x = tunnels s x"
    "tunnels (on_message web c client raw out s) x = tunnels s x"
  using assms
  by (auto simp: tunnel_close_def start_now_def start_bridge_def delivered_def on_message_def Let_def
      split: option.split message.split outcome.split)

lemma tunnels_other:
  assumes "gw_step env web g e g'" "event_tunnel e \<noteq> Some c"
  shows "tunnels (gw_server g') c = tunnels (gw_server g) c"
  using assms
proof cases
  case (gw_step_opened c' path origin client)
  then show ?thesis using assms(2) by (simp add: event_tunnel_def tunnel_open_def)
next
  case (gw_step_message c' client w raw out)
  then show ?thesis
    using assms(2) serve_server [OF gw_step_message(6)] tunnels_ops(5) [of c c'] by (simp add: event_tunnel_def)
next
  case (gw_step_returned c' client n b mac call timeout w out)
  then show ?thesis
    using assms(2) serve_server [OF gw_step_returned(7)] tunnels_ops(4) [of c c'] by (simp add: event_tunnel_def)
next
  case (gw_step_replaced c' client given w out)
  then show ?thesis
    using assms(2) serve_server [OF gw_step_replaced(3)] tunnels_ops(2) [of c c'] by (simp add: event_tunnel_def)
next
  case (gw_step_closed c' client w out)
  then show ?thesis
    using assms(2) serve_server [OF gw_step_closed(3)] tunnels_ops(1) [of c c'] by (simp add: event_tunnel_def)
qed simp_all

definition reads :: "gateway \<Rightarrow> nat \<Rightarrow> bool" where
  "reads g c \<longleftrightarrow> (\<exists>client. tunnels (gw_server g) c = Some (client, Reading))"

definition handlers_ok :: "sessions \<Rightarrow> bool" where
  "handlers_ok s \<longleftrightarrow>
     (\<forall>c n x. blocked s c = Some (n, x) \<longrightarrow> wait_at (process s) n x \<and> reads (process s) c) \<and>
     (\<forall>n x. wait_at (process s) n x \<longrightarrow> (\<exists>c. blocked s c = Some (n, x))) \<and>
     (\<forall>c c' p. blocked s c = Some p \<longrightarrow> blocked s c' = Some p \<longrightarrow> c = c')"

definition session_inv :: "egress_env \<Rightarrow> sessions \<Rightarrow> bool" where
  "session_inv env s \<longleftrightarrow> gw_inv env (process s) \<and> handlers_ok s"

lemma session_inv_new: "session_inv env sessions_new"
  using gw_inv_new by (simp add: session_inv_def handlers_ok_def sessions_new_def wait_at_def bridge_at_def gw_new_def)

lemma reads_other: "gw_step env web g e g' \<Longrightarrow> event_tunnel e \<noteq> Some c \<Longrightarrow> reads g' c = reads g c"
  using tunnels_other by (simp add: reads_def)

lemma loop_free_reads:
  assumes "gw_step env web g e g'" "loop_free e" "reads g c"
  shows "reads g' c"
proof -
  have "event_tunnel e \<noteq> Some c"
    using assms by cases (auto simp: loop_free_def event_tunnel_def reads_def)
  then show ?thesis using reads_other [OF assms(1)] assms(3) by simp
qed

lemma handlers_kept:
  assumes "handlers_ok s" "waits_kept (process s) g" "\<And>c. blocked s c \<noteq> None \<Longrightarrow> reads (process s) c \<Longrightarrow> reads g c"
  shows "handlers_ok (s\<lparr>process := g\<rparr>)"
  using assms unfolding handlers_ok_def waits_kept_def by simp

lemma handlers_message:
  assumes ok: "handlers_ok s" and free: "blocked s c = None" and reads: "\<And>d. d \<noteq> c \<Longrightarrow> reads g d = reads (process s) d"
    and grows: "\<And>n x. wait_at g n x \<longleftrightarrow> wait_at (process s) n x \<or> p = Some (n, x)"
    and new: "\<And>n x. p = Some (n, x) \<Longrightarrow> \<not> wait_at (process s) n x \<and> reads g c"
  shows "handlers_ok \<lparr>process = g, blocked = (blocked s)(c := p)\<rparr>"
proof -
  have old: "wait_at (process s) n x \<and> reads (process s) d" if "blocked s d = Some (n, x)" for d n x
    using ok that unfolding handlers_ok_def by blast
  have one: "d = d'" if "blocked s d = Some q" "blocked s d' = Some q" for d d' q
    using ok that unfolding handlers_ok_def by blast
  have has: "\<exists>d. blocked s d = Some (n, x)" if "wait_at (process s) n x" for n x
    using ok that unfolding handlers_ok_def by blast
  let ?t = "\<lparr>process = g, blocked = (blocked s)(c := p)\<rparr>"
  have at: "blocked ?t d = Some q \<longleftrightarrow> (if d = c then p = Some q else blocked s d = Some q)" for d q by simp
  have "wait_at g n x \<and> reads g d" if "blocked ?t d = Some (n, x)" for d n x
  proof (cases "d = c")
    case True
    then have "p = Some (n, x)" using that unfolding at by simp
    then show ?thesis using new [of n x] grows [of n x] True by simp
  next
    case False
    then have "wait_at (process s) n x" "reads (process s) d" using that old [of d n x] unfolding at by simp_all
    then show ?thesis using grows [of n x] reads [OF False] by simp
  qed
  moreover have "\<exists>d. blocked ?t d = Some (n, x)" if w: "wait_at g n x" for n x
  proof (cases "p = Some (n, x)")
    case False
    then have "wait_at (process s) n x" using w grows [of n x] by simp
    then obtain d where d: "blocked s d = Some (n, x)" using has by blast
    then have "d \<noteq> c" using free by auto
    then show ?thesis using d unfolding at by auto
  qed (auto simp: at)
  moreover have "d = d'" if "blocked ?t d = Some q" "blocked ?t d' = Some q" for d d' q
  proof -
    obtain n x where q: "q = (n, x)" by (cases q)
    have "p \<noteq> Some q" if "blocked s d = Some q" for d
      using old [of d n x] that new [of n x] unfolding q by auto
    then show ?thesis using that one [of d q d'] unfolding at by (auto split: if_splits)
  qed
  ultimately show ?thesis unfolding handlers_ok_def sessions.select_convs by blast
qed

lemma handlers_bridge:
  assumes ok: "handlers_ok s" and reads: "\<And>d. reads g d = reads (process s) d"
    and over: "\<And>m x. wait_at g m x \<longleftrightarrow> wait_at (process s) m x \<and> \<not> (m = n \<and> wait_over e x)"
  shows "handlers_ok \<lparr>process = g, blocked = resume n e (blocked s)\<rparr>"
proof -
  have resumed: "resume n e (blocked s) d = Some (m, x) \<longleftrightarrow> blocked s d = Some (m, x) \<and> \<not> (m = n \<and> wait_over e x)" for d m x
    by (auto simp: resume_def split: option.split if_splits)
  have one: "d = d'" if "blocked s d = Some q" "blocked s d' = Some q" for d d' q
    using ok that unfolding handlers_ok_def by blast
  have "wait_at g m x \<and> reads g d" if "resume n e (blocked s) d = Some (m, x)" for d m x
    using that ok over reads unfolding resumed handlers_ok_def by blast
  moreover have "\<exists>d. resume n e (blocked s) d = Some (m, x)" if "wait_at g m x" for m x
    using that ok over unfolding resumed handlers_ok_def by blast
  moreover have "d = d'" if "resume n e (blocked s) d = Some q" "resume n e (blocked s) d' = Some q" for d d' q
    using that one by (cases q) (auto simp: resumed)
  ultimately show ?thesis unfolding handlers_ok_def by simp
qed

lemma session_inv_step:
  assumes inv: "session_inv env s" and step: "session_step env web s e s'"
  shows "session_inv env s'"
proof -
  have gi: "gw_inv env (process s)" and ok: "handlers_ok s" using inv by (simp_all add: session_inv_def)
  have gi': "gw_inv env (process s')" using gw_inv_step [OF gi session_gateway [OF step]] by simp
  have "handlers_ok s'"
    using step
  proof cases
    case (session_step_message c raw w g)
    have other: "reads g d = reads (process s) d" if "d \<noteq> c" for d
      using reads_other [OF session_step_message(4), of d] that by (simp add: event_tunnel_def)
    obtain client out where m: "tunnels (gw_server (process s)) c = Some (client, Reading)" "io_fits w" "io_call w = c"
      "asked (gw_dns (process s)) c = None"
      "serve env w (on_message web c client raw out (gw_server (process s))) (process s) = Some (out, g)"
      using session_step_message(4) by cases auto
    note w = waits_message [OF gi m(1,2) _ m(5), unfolded m(3), OF m(4)]
    have p: "begun_by web c raw (process s) g = new_wait web client raw (process s) g"
      using m(1) by (simp add: begun_by_def)
    have "handlers_ok \<lparr>process = g, blocked = (blocked s)(c := begun_by web c raw (process s) g)\<rparr>"
      by (rule handlers_message [OF ok session_step_message(3) other]) (use w in \<open>auto simp: p reads_def\<close>)
    then show ?thesis using session_step_message(2) by simp
  next
    case (session_step_closed c g)
    have "reads g d" if "blocked s d \<noteq> None" "reads (process s) d" for d
    proof -
      have "d \<noteq> c" using that(1) session_step_closed(3) by metis
      then show ?thesis using reads_other [OF session_step_closed(4), of d] that(2) by (simp add: event_tunnel_def)
    qed
    then show ?thesis
      using handlers_kept [OF ok waits_other [OF gi session_step_closed(4)]] session_step_closed(2) by blast
  next
    case (session_step_bridge n x g)
    obtain b b' where b: "bridge_at (process s) n = Some b" "own_event x" "br_step env b x b'" "g = put_bridge n b' (process s)"
      using session_step_bridge(3) by cases auto
    have "reads g d = reads (process s) d" for d by (simp add: b(4) reads_def)
    then have "handlers_ok \<lparr>process = g, blocked = resume n x (blocked s)\<rparr>"
      using handlers_bridge [OF ok] waits_bridge [OF b(1-3)] b(4) by simp
    then show ?thesis using session_step_bridge(2) by simp
  next
    case (session_step_other g)
    have "waits_kept (process s) g"
      by (rule waits_other [OF gi session_step_other(3)]) (use session_step_other(2) in \<open>auto simp: loop_free_def\<close>)
    then show ?thesis
      using handlers_kept [OF ok _ loop_free_reads [OF session_step_other(3,2)]] session_step_other(1) by blast
  qed
  then show ?thesis using gi' by (simp add: session_inv_def)
qed

interpretation ordered: machine "\<lambda>s. s = sessions_new" "session_step env web" "session_inv env" for env web
  by unfold_locales (auto intro: session_inv_new session_inv_step)

interpretation process_in_sessions: simulation "\<lambda>s. s = sessions_new" "session_step env web" "session_inv env" process
  "gw_step env web" for env web
  by unfold_locales (metis session_gateway runs_one)

section \<open>Sessions that do not share a client id\<close>

definition apart_session :: "egress_env \<Rightarrow> web \<Rightarrow> sessions \<Rightarrow> gw_event \<Rightarrow> sessions \<Rightarrow> bool" where
  "apart_session env web s e s' \<longleftrightarrow> session_step env web s e s' \<and> alone web (process s) e"

definition waits_owned :: "sessions \<Rightarrow> bool" where
  "waits_owned s \<longleftrightarrow> (\<forall>c n x. blocked s c = Some (n, x) \<longrightarrow> started_by (server_log (gw_server (process s))) n = Some c)"

definition apart_session_inv :: "egress_env \<Rightarrow> sessions \<Rightarrow> bool" where
  "apart_session_inv env s \<longleftrightarrow> session_inv env s \<and> apart_inv env (process s) \<and> waits_owned s"

lemma apart_gateway: "apart_session env web s e s' \<Longrightarrow> apart_step env web (process s) e (process s')"
  using session_gateway by (auto simp: apart_session_def apart_step_def)

lemma started_persists:
  assumes "gw_step env web g e g'" "started_by (server_log (gw_server g)) n = Some c"
  shows "started_by (server_log (gw_server g')) n = Some c"
proof -
  have "\<exists>as. server_log (gw_server g') = server_log (gw_server g) @ as"
    using gw_server_step [OF assms(1)] server_log_grows by (metis append_Nil2)
  then show ?thesis using assms(2) by (auto simp: started_by_append)
qed

lemma waits_owned_step:
  assumes inv: "apart_session_inv env s" and step: "apart_session env web s e s'"
  shows "waits_owned s'"
proof -
  have gi: "gw_inv env (process s)" and own: "owned (gw_server (process s))" and old: "waits_owned s"
    using inv by (simp_all add: apart_session_inv_def session_inv_def apart_inv_def)
  have st: "session_step env web s e s'" using step by (simp add: apart_session_def)
  have keeps: "started_by (server_log (gw_server (process s'))) n = Some c"
    if "started_by (server_log (gw_server (process s))) n = Some c" for n c
    using started_persists [OF session_gateway [OF st] that] .
  have "blocked s c = Some (n, x) \<or> started_by (server_log (gw_server (process s))) n = Some c"
    if b: "blocked s' c = Some (n, x)" for c n x
    using st
  proof cases
    case (session_step_message d raw w g)
    show ?thesis
    proof (cases "c = d")
      case True
      obtain client out where m: "tunnels (gw_server (process s)) d = Some (client, Reading)" "io_fits w" "io_call w = d"
        "asked (gw_dns (process s)) d = None"
        "serve env w (on_message web d client raw out (gw_server (process s))) (process s) = Some (out, g)"
        using session_step_message(4) by cases auto
      have "new_wait web client raw (process s) g = Some (n, x)"
        using b True m(1) session_step_message(2) by (simp add: begun_by_def)
      then have "dict_get (bridges (gw_server (process s))) client = Some n"
        using waits_message(2) [OF gi m(1,2) _ m(5), unfolded m(3), OF m(4)] by blast
      then show ?thesis using owned_bridge [OF own _ m(1)] True by simp
    qed (use b session_step_message(2) in simp)
  qed (use b in \<open>auto simp: resume_def split: option.splits if_splits\<close>)
  then show ?thesis using old keeps unfolding waits_owned_def by blast
qed

lemma apart_session_inv_step: "apart_session_inv env s \<Longrightarrow> apart_session env web s e s' \<Longrightarrow> apart_session_inv env s'"
  using session_inv_step apart_inv_step [OF _ apart_gateway] waits_owned_step
  unfolding apart_session_inv_def by (metis apart_session_def)

lemma apart_session_inv_new: "apart_session_inv env sessions_new"
  using session_inv_new apart_inv_new
  by (simp add: apart_session_inv_def waits_owned_def) (simp add: sessions_new_def)

interpretation apart_sessions: machine "\<lambda>s. s = sessions_new" "apart_session env web" "apart_session_inv env" for env web
  by unfold_locales (auto intro: apart_session_inv_new apart_session_inv_step)

section \<open>A process that runs in order\<close>

definition sessions_at :: "gateway \<Rightarrow> sessions" where
  "sessions_at g = \<lparr>process = g, blocked = (\<lambda>_. None)\<rparr>"

lemma sessions_started_run: "runs (apart_session env process_web) sessions_new (sessions_at gw_started)"
proof -
  have "apart_session env process_web sessions_new (Gw_opened 0 sample_path None) (sessions_at gw_opened)"
    using gw_started_steps(1) [of env]
      session_step_other [of "Gw_opened 0 sample_path None" env process_web sessions_new gw_opened]
    by (simp add: apart_session_def apart_step_def loop_free_def sessions_at_def sessions_new_def)
  moreover have "begun_by process_web 0 start_message gw_opened gw_started = None"
    by (simp add: begun_by_def gw_opened_state new_wait_def message_frame_def start_message_read)
  then have "apart_session env process_web (sessions_at gw_opened) (Gw_message 0 start_message sample_io) (sessions_at gw_started)"
    using gw_started_steps(2) [of env]
      session_step_message [of "sessions_at gw_opened" 0 env process_web start_message sample_io gw_started]
    by (simp add: apart_session_def apart_step_def sessions_at_def fun_upd_idem)
  ultimately show ?thesis by (meson runs_refl runs_step)
qed

lemma apart_sessions_runs: "runs (apart_session env web) s t \<Longrightarrow> runs (session_step env web) s t"
  by (erule runs_induct) (auto simp: runs_refl apart_session_def intro: runs_step)

text \<open>The session sends a datagram: its handler waits for the endpoint.\<close>

definition asked_bridge :: bridge where
  "asked_bridge = set_udp (handle_chip_datagram public_env 0 True STA_MAC packet_ip packet_udp udp_new) sample_bridge"

definition gw_asked :: gateway where
  "gw_asked = (put_bridge 0 asked_bridge gw_started)
     \<lparr>gw_server := on_message process_web 0 (str_of ''a'') packet_message Returned one_session\<rparr>"

definition sessions_asked :: sessions where
  "sessions_asked = \<lparr>process = gw_asked, blocked = [0 \<mapsto> (0, Wait_endpoint 0)]\<rparr>"

lemma packet_message_frame:
  "message_frame process_web (str_of ''a'') packet_message one_session = Some (0, sample_packet)"
proof -
  have "read_message packet_message = Packet (JStr (str_of ''AA''))"
    by (simp add: packet_message_def read_message_def dict_get_or_def truthy_def dict_get_def str_of_def)
  moreover have "truthy (JStr (str_of ''AA''))" by (simp add: truthy_def str_of_def)
  ultimately show ?thesis by (simp add: message_frame_def one_session_state process_web_def)
qed

lemma gw_asked_step: "gw_step public_env process_web gw_started (Gw_message 0 packet_message sample_io) gw_asked"
proof -
  have b: "br_running sample_bridge" "wifi_enabled sample_bridge" "br_mac sample_bridge = STA_MAC"
    "br_udp sample_bridge = udp_new" "dns_macs sample_bridge = (\<lambda>_. None)" "gw_dns gw_started = dns_new"
    by (simp_all add: sample_bridge_def start_def bridge_new_def gw_started_def)
  note d = sample_delivered_to [OF b(1-3), of public_env, unfolded b(4), folded asked_bridge_def]
  have out: "outcome_of sample_io (None, asked_bridge) = Returned"
    by (simp add: outcome_of_def asked_bridge_def b(5))
  let ?s = "on_message process_web 0 (str_of ''a'') packet_message Returned one_session"
  have "acts public_env sample_io [Bridge_given 0 sample_packet] gw_started = Some (Returned, put_bridge 0 asked_bridge gw_started)"
    by (simp add: gw_started_state d out)
  moreover have "server_log ?s = server_log one_session @ [Bridge_given 0 sample_packet]"
    using log_message_sent [OF packet_message_frame, of 0 Returned] by simp
  ultimately have "serve public_env sample_io ?s gw_started = Some (Returned, gw_asked)"
    by (simp add: serve_def gw_started_state gw_asked_def del: acts.simps)
  then show ?thesis
    by (intro gw_step_message [where client = "str_of ''a''" and out = Returned])
      (simp_all add: gw_started_state one_session_state io_fits_def sample_io_def b(6) dns_new_def)
qed

lemma sessions_asked_run: "runs (apart_session public_env process_web) sessions_new sessions_asked"
proof -
  have "br_udp sample_bridge = udp_new" "br_tcp asked_bridge = br_tcp sample_bridge"
    by (simp_all add: sample_bridge_def start_def bridge_new_def asked_bridge_def)
  then have "begun sample_bridge asked_bridge = Some (Wait_endpoint 0)"
    by (simp add: begun_def asked_bridge_def sample_opens) (simp add: udp_new_def)
  then have "begun_by process_web 0 packet_message gw_started gw_asked = Some (0, Wait_endpoint 0)"
    by (simp add: begun_by_def gw_started_state one_session_state new_wait_def packet_message_frame gw_asked_def)
  then have "session_step public_env process_web (sessions_at gw_started) (Gw_message 0 packet_message sample_io) sessions_asked"
    using session_step_message [of "sessions_at gw_started" 0 public_env process_web packet_message sample_io gw_asked]
      gw_asked_step by (simp add: sessions_at_def sessions_asked_def)
  then have "apart_session public_env process_web (sessions_at gw_started) (Gw_message 0 packet_message sample_io) sessions_asked"
    by (simp add: apart_session_def alone_def)
  then show ?thesis using sessions_started_run runs_step by metis
qed

lemma sessions_asked_state:
  "bridge_at (process sessions_asked) 0 = Some asked_bridge" "handler_waits asked_bridge = {Wait_endpoint 0}"
  "started_by (server_log (gw_server (process sessions_asked))) 0 = Some 0"
  "tunnels (gw_server (process sessions_asked)) 0 = Some (str_of ''a'', Reading)"
  "blocked sessions_asked 0 = Some (0, Wait_endpoint 0)"
proof -
  have "waiting (br_tcp asked_bridge) = (\<lambda>_. None)"
    by (simp add: asked_bridge_def sample_bridge_def start_def bridge_new_def nat_new_def)
  moreover have "pending_opens (br_udp asked_bridge) = [0 \<mapsto> (STA_MAC, packet_ip, packet_udp)]"
    by (simp add: asked_bridge_def sample_opens)
  ultimately have "x \<in> handler_waits asked_bridge \<longleftrightarrow> x = Wait_endpoint 0" for x
    by (cases x) auto
  then show "handler_waits asked_bridge = {Wait_endpoint 0}" by blast
  show "started_by (server_log (gw_server (process sessions_asked))) 0 = Some 0"
    "tunnels (gw_server (process sessions_asked)) 0 = Some (str_of ''a'', Reading)"
    using log_message_sent [OF packet_message_frame, of 0 Returned] on_message_sent(2) [OF packet_message_frame, of 0 Returned]
    by (simp_all add: sessions_asked_def gw_asked_def one_session_state log_action_def)
qed (simp_all add: sessions_asked_def gw_asked_def)

section \<open>What a session can rely on\<close>

text \<open>The answer that ends a wait in any case: the grace period runs out, or the endpoint is refused.\<close>

definition wait_ends :: "wait \<Rightarrow> br_event" where
  "wait_ends x = (case x of Wait_dial cid \<Rightarrow> Br_tcp (Syn_grace cid)
     | Wait_endpoint tid \<Rightarrow> Br_udp (Udp_opened tid False 0 0 False))"

lemma wait_can_end:
  assumes "wait_at g n x"
  shows "\<exists>g'. gw_step env web g (Gw_bridge n (wait_ends x)) g' \<and> gw_server g' = gw_server g" "wait_over (wait_ends x) x"
proof -
  obtain b where b: "bridge_at g n = Some b" "x \<in> handler_waits b" using assms by (auto simp: wait_at_def)
  have "\<exists>b'. br_step env b (wait_ends x) b'"
  proof (cases x)
    case (Wait_dial cid)
    then obtain args where "waiting (br_tcp b) cid = Some args" using b(2) by auto
    then have "br_step env b (Br_tcp (Syn_grace cid)) (set_tcp (snd (syn_grace cid (br_tcp b))) b)"
      by (intro br_step_tcp step_grace) (simp_all add: own_tcp_def)
    then show ?thesis using Wait_dial by (auto simp: wait_ends_def)
  next
    case (Wait_endpoint tid)
    then obtain args where "pending_opens (br_udp b) tid = Some args" using b(2) by auto
    then have "br_step env b (Br_udp (Udp_opened tid False 0 0 False)) (set_udp (flow_opened tid args False 0 0 False (br_udp b)) b)"
      by (intro br_step_udp udp_step_opened) (simp_all add: own_udp_def)
    then show ?thesis using Wait_endpoint by (auto simp: wait_ends_def)
  qed
  moreover have "own_event (wait_ends x)" by (simp add: own_event_def wait_ends_def split: wait.split)
  ultimately show "\<exists>g'. gw_step env web g (Gw_bridge n (wait_ends x)) g' \<and> gw_server g' = gw_server g"
    using gw_step_bridge [OF b(1)] put_simps(3) by metis
  show "wait_over (wait_ends x) x"
    by (simp add: wait_over_def wait_ends_def dial_over_def open_over_def split: wait.split)
qed



text \<open>C10: One frame at a time. As long as no tunnel is opened under the client id of another, a bridge has
  at most one call of \<^verbatim>\<open>deliver_packet_out\<close> under way: whenever the handler of its tunnel is free
  to read the next message, every frame the bridge was given before has been dealt with to the
  end, with no dial in its grace period, no UDP endpoint being created and no DNS query
  waiting; and while one of these waits, nothing else does. So the sequence of frames is
  handled in the order of the WebSocket, and a SYN that the chip retransmits during the grace
  period is not looked at before the first one has been answered.\<close>

theorem one_frame_at_a_time:
  assumes "runs (apart_session env web) sessions_new s" "bridge_at (process s) n = Some b"
    "started_by (server_log (gw_server (process s))) n = Some c"
  shows "(\<forall>client. tunnels (gw_server (process s)) c = Some (client, Reading) \<and> blocked s c = None \<longrightarrow>
      handler_waits b = {} \<and> dns_macs b = (\<lambda>_. None)) \<and>
    handler_waits b \<subseteq> snd ` set_option (blocked s c) \<and> (\<forall>c'. dns_macs b c' \<noteq> None \<longrightarrow> c' = c) \<and>
    (handler_waits b \<noteq> {} \<longrightarrow> dns_macs b = (\<lambda>_. None))"
proof -
  have inv: "apart_session_inv env s" using apart_sessions.inv_reachable [OF refl assms(1)] .
  then have ok: "handlers_ok s" and gi: "gw_inv env (process s)" and calls: "calls_owned (process s)" and own: "waits_owned s"
    by (simp_all add: apart_session_inv_def session_inv_def apart_inv_def)
  have mine: "blocked s c = Some (n, x)" if "x \<in> handler_waits b" for x
  proof -
    have "wait_at (process s) n x" using that assms(2) by (auto simp: wait_at_def)
    then obtain d where d: "blocked s d = Some (n, x)" using ok unfolding handlers_ok_def by blast
    then show ?thesis using own assms(3) unfolding waits_owned_def by fastforce
  qed
  have call: "c' = c \<and> delivering (gw_server (process s)) c" if "dns_macs b c' \<noteq> None" for c'
  proof -
    have "holds_call (process s) n c'" using that holds_call_at [OF assms(2)] by simp
    then have "c' = c" "waits (process s) c'" using calls assms(3) by (auto simp: calls_owned_def waits_def)
    then show ?thesis using gi by (simp add: gw_inv_def calls_match_def)
  qed
  have idle: "dns_macs b = (\<lambda>_. None)" if "reads (process s) c"
    using call that not_delivering(1) unfolding reads_def by (metis ext)
  have "reads (process s) c" if "x \<in> handler_waits b" for x
    using mine [OF that] ok unfolding handlers_ok_def by blast
  then show ?thesis using mine call idle by (fastforce simp: reads_def)
qed

theorem one_frame_at_a_time_witness:
  "handler_waits asked_bridge = {Wait_endpoint 0} \<and> dns_macs asked_bridge = (\<lambda>_. None)"
  using one_frame_at_a_time [OF sessions_asked_run sessions_asked_state(1,3)] sessions_asked_state(2) by simp

end
