(* ===== verification/Launch.thy ===== *)
theory Launch
  imports Server_Properties Egress
begin

text \<open>
  The launch, \<^verbatim>\<open>main\<close> of \<^verbatim>\<open>velxiogw/cli.py\<close> after \<^verbatim>\<open>argparse\<close> has read the arguments: the environment
  variable of the egress guard, the pairing code, the server and the banner; and that what the
  banner promises is what the server and the guard do.
\<close>

section \<open>Arguments and result\<close>

definition DEFAULT_PORT :: int where
  "DEFAULT_PORT = 9013"

record cli_args =
  arg_port :: int
  arg_code :: "pystr option"
  allow_origin :: "pystr list"
  public_only :: bool
  verbose :: bool

definition default_args :: cli_args where
  "default_args =
     \<lparr>arg_port = DEFAULT_PORT, arg_code = None, allow_origin = [], public_only = False, verbose = False\<rparr>"

text \<open>What \<^verbatim>\<open>run\<close> hands to \<^verbatim>\<open>serve\<close>.\<close>

record listener =
  on_host :: pystr
  on_port :: int
  max_size :: int

definition run_listener :: "gateway_server \<Rightarrow> listener" where
  "run_listener s = \<lparr>on_host = str_of ''127.0.0.1'', on_port = gs_port s, max_size = 4 * 1024 * 1024\<rparr>"

section \<open>The steps of the launch\<close>

definition launch_env :: "bool \<Rightarrow> egress_env \<Rightarrow> egress_env" where
  "launch_env only env = (if \<not> only then env\<lparr>allow_private_var := Some (str_of ''1'')\<rparr> else env)"

definition log_level :: "bool \<Rightarrow> string" where
  "log_level debug = (if debug then ''DEBUG'' else ''INFO'')"

text \<open>\<open>n\<close> is \<^verbatim>\<open>secrets.randbelow(10**6)\<close>.\<close>

definition pairing_code :: "pystr option \<Rightarrow> nat \<Rightarrow> pystr" where
  "pairing_code given n =
     (case given of
        Some (c # cs) \<Rightarrow> c # cs
      | _ \<Rightarrow> replicate (6 - length (decimal n)) 48 @ decimal n)"

definition int_text :: "int \<Rightarrow> pystr" where
  "int_text i = (if i < 0 then 45 # decimal (nat (- i)) else decimal (nat i))"

definition reach_scope :: "bool \<Rightarrow> pystr" where
  "reach_scope only = (if only then str_of ''public internet only'' else str_of ''your LAN + localhost + internet'')"

definition banner :: "cli_args \<Rightarrow> pystr \<Rightarrow> pystr list" where
  "banner args code =
     [str_of ''velxiogw '' @ VERSION @ [32, 8212, 32] @ str_of ''Velxio IoT Network Gateway'',
      str_of ''  listening on   ws://127.0.0.1:'' @ int_text (arg_port args),
      str_of ''  pairing code   '' @ code,
      str_of ''  reach scope    '' @ reach_scope (public_only args),
      str_of ''  host alias     host.velxio.internal -> this machine'',
      str_of ''Paste the pairing code into the Velxio WiFi panel. Ctrl+C to quit.'']"

text \<open>The environment of the process, the server and the printed lines, after the log level.\<close>

definition main :: "cli_args \<Rightarrow> nat \<Rightarrow> egress_env \<Rightarrow> string \<times> egress_env \<times> gateway_server \<times> pystr list" where
  "main args n env =
     (let code = pairing_code (arg_code args) n
      in (log_level (verbose args), launch_env (public_only args) env,
          \<lparr>gs_port = arg_port args, gs_code = code, gs_origins = allow_origin args\<rparr>,
          banner args code))"

section \<open>What a launch guarantees\<close>

lemma launch_allows_private: "allow_private (launch_env False env)"
  by (simp add: launch_env_def allow_private_def) code_simp

lemma pairing_code_length: "n < 10 ^ 6 \<Longrightarrow> length (pairing_code None n) = 6"
  using decimal_length [of n 6] by (simp add: pairing_code_def)

lemma pairing_code_given:
  "n < 10 ^ 6 \<Longrightarrow> pairing_code given n =
     (case given of None \<Rightarrow> pairing_code None n | Some c \<Rightarrow> if c = [] then pairing_code None n else c)"
  by (auto simp: pairing_code_def split: option.split list.split)

lemma pairing_code_nonempty: "n < 10 ^ 6 \<Longrightarrow> pairing_code given n \<noteq> []"
  using pairing_code_given [of n given] pairing_code_length [of n] by (auto split: option.splits if_splits)

lemma upgrade_needs_code:
  assumes "process_request web sessions path origin = Inr None" "gs_code (web_self web) \<noteq> []"
  shows "\<exists>u vs. urlsplit (web_urls web) path = Inr u \<and>
    qs_values (web_urls web) (str_of ''code'') (url_query u) = gs_code (web_self web) # vs"
proof -
  obtain u where u: "urlsplit (web_urls web) path = Inr u" "supplied_code (web_urls web) u = gs_code (web_self web)"
    using assms(1) unfolding upgraded_iff by blast
  then show ?thesis
    using assms(2) by (cases "qs_values (web_urls web) (str_of ''code'') (url_query u)") (auto simp: supplied_code_def)
qed



text \<open>
  Why the proviso: with the override in its environment, a launch prints \<^verbatim>\<open>public internet only\<close> and
  lets every destination through.
\<close>

lemma public_only_overridden:
  assumes "allow_private_var env = Some (str_of ''1'')"
  shows "fst (is_allowed_dst (fst (snd (main (default_args\<lparr>public_only := True\<rparr>) n env))) host port) \<and>
    str_of ''  reach scope    public internet only'' \<in> set (snd (snd (snd (main (default_args\<lparr>public_only := True\<rparr>) n env))))"
proof -
  have "launch_env False env = env" using assms by (simp add: launch_env_def)
  then have "allow_private env" using launch_allows_private [of env] by simp
  moreover have "str_of ''  reach scope    public internet only'' =
      str_of ''  reach scope    '' @ str_of ''public internet only''" by (simp add: str_of_def)
  ultimately show ?thesis
    by (simp add: main_def Let_def launch_env_def is_allowed_dst_def banner_def reach_scope_def)
qed

end
