(* ===== verification/Vendoring.thy ===== *)
theory Vendoring
  imports Py_Str
begin

text \<open>
  The vendoring script, \<^verbatim>\<open>scripts/apply-patches.py\<close>: it edits the source files of the network
  stack in place, by the first occurrence of an anchor text. The files are a map from names to texts (\<open>None\<close>:
  a file that cannot be read); \<^verbatim>\<open>sys.exit\<close> and the exception of a file that cannot be read are values, and
  what the script has written before them stays written.
\<close>

section \<open>The texts of the script\<close>

definition CONSTS_APPEND :: pystr where
  "CONSTS_APPEND = join_with [10] [
     [],
     [],
     str_of ''# '' @ replicate 2 9472 @ str_of '' velxiogw vendor patch (see VENDORED.md) '' @ replicate 26 9472,
     str_of ''# The IP the DNS proxy answers for `host.velxio.internal`. Two constraints:'',
     str_of ''# not 127.0.0.1 (lwIP routes that to the chip's own loopback), and not an'',
     str_of ''# address INSIDE the virtual subnet -- the chip would ARP for it as on-link'',
     str_of ''# and the browser-side net layer owns ARP, so the SYN never reaches the'',
     str_of ''# tunnel (found by the first staging e2e). TEST-NET-1 is reserved, never a'',
     str_of ''# real LAN, and off-subnet, so lwIP routes it via the gateway; the NATs'',
     str_of ''# rewrite it to the host's loopback when opening the real socket.'',
     str_of ''HOST_ALIAS_HOSTNAME = 'host.velxio.internal'' @ [39],
     str_of ''HOST_ALIAS_IP = '192.0.2.1'' @ [39],
     []]"

definition DNS_ANCHOR :: pystr where
  "DNS_ANCHOR = join_with [10] [
     str_of ''        # A-record query. Resolve via host.'',
     str_of ''        addrs = await self._resolve_a(qname)'']"

text \<open>The lines that the patch puts in front of the anchor.\<close>

definition DNS_LINES :: pystr where
  "DNS_LINES = join_with [10] [
     str_of ''        # velxiogw vendor patch: `host.velxio.internal` names the machine the'',
     str_of ''        # gateway runs on. Answered locally, never forwarded to the resolver.'',
     str_of ''        from .consts import HOST_ALIAS_HOSTNAME, HOST_ALIAS_IP'',
     str_of ''        if qname.lower().rstrip('.') == HOST_ALIAS_HOSTNAME:'',
     str_of ''            ip4 = socket.inet_aton(HOST_ALIAS_IP)'',
     str_of ''            self._on_egress(protocol='dns', verdict='allowed', dst_host=qname,'',
     str_of ''                            dst_ip=HOST_ALIAS_IP, reason='host_alias')'',
     str_of ''            resp = DnsMessage(txid=req.txid, flags=resp_flags, qd=req.qd,'',
     str_of ''                              an=[(qname, DNS_TYPE_A, DNS_CLASS_IN, 60, ip4)])'',
     str_of ''            return self._wrap(chip_src_ip, udp, resp)'',
     [],
     []]"

definition DNS_NEW :: pystr where
  "DNS_NEW = DNS_LINES @ DNS_ANCHOR"

definition TCP_ANCHOR :: pystr where
  "TCP_ANCHOR = join_with [10] [
     str_of ''        dst_ip_str = bytes_to_ip(conn.dst_ip)'',
     str_of ''        allowed, reason = is_allowed_dst(dst_ip_str, conn.dst_port)'']"

definition TCP_NEW :: pystr where
  "TCP_NEW = join_with [10] [
     str_of ''        dst_ip_str = bytes_to_ip(conn.dst_ip)'',
     str_of ''        # velxiogw vendor patch: host.velxio.internal resolves to HOST_ALIAS_IP;'',
     str_of ''        # the real socket goes to the machine's own loopback.'',
     str_of ''        from .consts import HOST_ALIAS_IP'',
     str_of ''        if dst_ip_str == HOST_ALIAS_IP:'',
     str_of ''            dst_ip_str = '127.0.0.1'' @ [39],
     str_of ''        allowed, reason = is_allowed_dst(dst_ip_str, conn.dst_port)'']"

definition UDP_ANCHOR :: pystr where
  "UDP_ANCHOR = join_with [10] [
     str_of ''        dst_ip_str = bytes_to_ip(bytes(ip.dst))'',
     str_of ''        allowed, reason = is_allowed_dst(dst_ip_str, udp.dst_port)'']"

definition UDP_NEW :: pystr where
  "UDP_NEW = join_with [10] [
     str_of ''        dst_ip_str = bytes_to_ip(bytes(ip.dst))'',
     str_of ''        # velxiogw vendor patch: see tcp_nat '' @ [8212] @ str_of '' same loopback rewrite.'',
     str_of ''        from .consts import HOST_ALIAS_IP'',
     str_of ''        if dst_ip_str == HOST_ALIAS_IP:'',
     str_of ''            dst_ip_str = '127.0.0.1'' @ [39],
     str_of ''        allowed, reason = is_allowed_dst(dst_ip_str, udp.dst_port)'']"

definition UDP2_ANCHOR :: pystr where
  "UDP2_ANCHOR = join_with [10] [
     str_of ''                remote_addr=(bytes_to_ip(bytes(ip.dst)), udp.dst_port),'']"

definition UDP2_NEW :: pystr where
  "UDP2_NEW = join_with [10] [
     str_of ''                remote_addr=(dst_ip_str, udp.dst_port),'']"

section \<open>The edits\<close>

text \<open>\<^verbatim>\<open>p in s\<close> and \<^verbatim>\<open>s.replace(p, q, 1)\<close>.\<close>

definition occurs :: "pystr \<Rightarrow> pystr \<Rightarrow> bool" where
  "occurs p s \<longleftrightarrow> find_sub p s \<noteq> None"

definition replace_once :: "pystr \<Rightarrow> pystr \<Rightarrow> pystr \<Rightarrow> pystr" where
  "replace_once s p q =
     (case find_sub p s of None \<Rightarrow> s | Some i \<Rightarrow> take i s @ q @ drop (i + length p) s)"

text \<open>The state is the files and the lines printed.\<close>

record tree =
  files :: "string \<Rightarrow> pystr option"
  printed :: "string list"

datatype failure = Exit pystr | Unreadable string

type_synonym step = "tree \<Rightarrow> failure option \<times> tree"

definition then_run :: "step \<Rightarrow> step \<Rightarrow> step" where
  "then_run f g t = (case f t of (None, t1) \<Rightarrow> g t1 | (Some e, t1) \<Rightarrow> (Some e, t1))"

definition write_text :: "string \<Rightarrow> pystr \<Rightarrow> tree \<Rightarrow> tree" where
  "write_text name s t = t\<lparr>files := (files t)(name \<mapsto> s)\<rparr>"

definition print_line :: "string \<Rightarrow> tree \<Rightarrow> tree" where
  "print_line l t = t\<lparr>printed := printed t @ [l]\<rparr>"

definition patch :: "string \<Rightarrow> pystr \<Rightarrow> pystr \<Rightarrow> pystr \<Rightarrow> step" where
  "patch name anchor replacement marker t =
     (case files t name of
        None \<Rightarrow> (Some (Unreadable name), t)
      | Some s \<Rightarrow>
          if occurs marker s then (None, print_line (''  '' @ name @ '': already patched'') t)
          else if \<not> occurs anchor s
          then (Some (Exit (str_of (''FAIL '' @ name @ '': anchor not found '') @ [8212] @
                  str_of '' upstream changed, re-derive the patch'')), t)
          else (None, print_line (''  '' @ name @ '': patched'')
                        (write_text name (replace_once s anchor replacement) t)))"

definition patch_second :: "string \<Rightarrow> pystr \<Rightarrow> pystr \<Rightarrow> step" where
  "patch_second name anchor replacement t =
     (case files t name of
        None \<Rightarrow> (Some (Unreadable name), t)
      | Some s \<Rightarrow>
          if \<not> occurs anchor s
          then if occurs replacement s then (None, t)
               else (Some (Exit (str_of (''FAIL '' @ name @ '': secondary anchor not found''))), t)
          else (None, write_text name (replace_once s anchor replacement) t))"

definition append_consts :: step where
  "append_consts t =
     (case files t ''consts.py'' of
        None \<Rightarrow> (Some (Unreadable ''consts.py''), t)
      | Some s \<Rightarrow>
          if \<not> occurs (str_of ''HOST_ALIAS_IP'') s
          then (None, print_line ''  consts.py: patched'' (write_text ''consts.py'' (s @ CONSTS_APPEND) t))
          else (None, print_line ''  consts.py: already patched'' t))"

definition VENDOR_MARKER :: pystr where
  "VENDOR_MARKER = str_of ''velxiogw vendor patch''"

definition apply_patches :: step where
  "apply_patches =
     then_run append_consts
    (then_run (patch ''dns.py'' DNS_ANCHOR DNS_NEW VENDOR_MARKER)
    (then_run (patch ''tcp_nat.py'' TCP_ANCHOR TCP_NEW VENDOR_MARKER)
    (then_run (patch ''udp_nat.py'' UDP_ANCHOR UDP_NEW VENDOR_MARKER)
    (then_run (patch_second ''udp_nat.py'' UDP2_ANCHOR UDP2_NEW)
       (\<lambda>t. (None, print_line ''all patches applied'' t))))))"

section \<open>Substrings\<close>

lemma find_sub_None: "find_sub p s = None \<Longrightarrow> s \<noteq> a @ p @ b"
proof (induction s arbitrary: a)
  case Nil
  then show ?case by (auto split: if_splits)
next
  case (Cons x s)
  then have none: "take (length p) (x # s) \<noteq> p" "find_sub p s = None" by (auto split: if_splits)
  show ?case
  proof (cases a)
    case Nil
    then show ?thesis using none(1) by (metis append_Nil append_eq_conv_conj)
  next
    case (Cons y ys)
    then show ?thesis using Cons.IH [OF none(2), of ys] by simp
  qed
qed

lemma occurs_iff: "occurs p s \<longleftrightarrow> (\<exists>a b. s = a @ p @ b)"
proof
  assume "occurs p s"
  then obtain i where "find_sub p s = Some i" by (auto simp: occurs_def)
  then have "s = take i s @ p @ drop (length p) (drop i s)"
    using find_sub_Some by (metis append_take_drop_id)
  then show "\<exists>a b. s = a @ p @ b" by blast
next
  assume "\<exists>a b. s = a @ p @ b"
  then show "occurs p s" using find_sub_None unfolding occurs_def by blast
qed

lemma occurs_inside: "occurs p q \<Longrightarrow> occurs p (a @ q @ b)"
  by (auto simp: occurs_iff) (metis append.assoc)

lemma replace_once_split:
  assumes "occurs p s"
  obtains a b where "s = a @ p @ b" "replace_once s p q = a @ q @ b"
proof -
  obtain i where i: "find_sub p s = Some i" using assms by (auto simp: occurs_def)
  then have "s = take i s @ p @ drop (i + length p) s"
    using find_sub_Some by (metis append_take_drop_id add.commute drop_drop)
  then show ?thesis using that [of "take i s" "drop (i + length p) s"] i by (simp add: replace_once_def)
qed

text \<open>Two texts that cannot overlap: at every offset some position differs.\<close>

definition differ :: "pystr \<Rightarrow> pystr \<Rightarrow> bool" where
  "differ u v \<longleftrightarrow> list_ex (\<lambda>(x, y). x \<noteq> y) (zip u v)"

definition no_overlap :: "pystr \<Rightarrow> pystr \<Rightarrow> bool" where
  "no_overlap m p \<longleftrightarrow> list_all (\<lambda>j. differ (drop j m) p) [0..<length m] \<and>
     list_all (\<lambda>j. differ (drop j p) m) [0..<length p]"

lemma differ_append: "differ u v \<Longrightarrow> u @ y \<noteq> v @ z"
proof (induction u arbitrary: v)
  case (Cons a u)
  then show ?case by (cases v) (auto simp: differ_def)
qed (simp add: differ_def)

lemma no_overlap_occurs:
  assumes no: "no_overlap m p" and m: "occurs m (a @ p @ b)"
  shows "occurs m a \<or> occurs m b"
proof -
  obtain x y where xy: "x @ m @ y = a @ p @ b" using m by (metis occurs_iff)
  consider (left) "length x + length m \<le> length a" | (right) "length a + length p \<le> length x"
    | (before) "length x \<le> length a" "length a < length x + length m"
    | (after) "length a \<le> length x" "length x < length a + length p" by linarith
  then show ?thesis
  proof cases
    case left
    then have "take (length a) (x @ m @ y) = x @ m @ take (length a - length x - length m) y" by simp
    then have "a = x @ m @ take (length a - length x - length m) y" using xy by simp
    then show ?thesis using occurs_iff by blast
  next
    case right
    have "drop (length a + length p) (x @ m @ y) = drop (length a + length p) x @ m @ y" using right by simp
    then have "b = drop (length a + length p) x @ m @ y" using xy by simp
    then show ?thesis using occurs_iff by blast
  next
    case before
    let ?j = "length a - length x"
    have "drop (length a) (x @ m @ y) = drop ?j m @ y" using before by simp
    then have "drop ?j m @ y = p @ b" using xy by simp
    moreover have "differ (drop ?j m) p" using no before by (auto simp: no_overlap_def list_all_iff)
    ultimately show ?thesis using differ_append by blast
  next
    case after
    let ?j = "length x - length a"
    have "drop (length x) (a @ p @ b) = drop ?j p @ b" using after by simp
    then have "drop ?j p @ b = m @ y" using xy by (metis append_eq_conv_conj)
    moreover have "differ (drop ?j p) m" using no after by (auto simp: no_overlap_def list_all_iff)
    ultimately show ?thesis using differ_append by blast
  qed
qed

lemma occurs_append: "occurs m a \<or> occurs m b \<Longrightarrow> occurs m (a @ q @ b)"
  using occurs_inside [of m a "[]" "q @ b"] occurs_inside [of m b "a @ q" "[]"] by auto

section \<open>The texts of this script\<close>

lemma occurs_line: "occurs p l \<Longrightarrow> l \<in> set ls \<Longrightarrow> occurs p (join_with sep ls)"
proof (induction sep ls rule: join_with.induct)
  case (3 sep x y ys)
  have "occurs p (join_with sep (x # y # ys))" if "occurs p x"
    using occurs_inside [OF that, of "[]" "sep @ join_with sep (y # ys)"] by simp
  moreover have "occurs p (join_with sep (x # y # ys))" if "occurs p (join_with sep (y # ys))"
    using occurs_inside [OF that, of "x @ sep" "[]"] by simp
  ultimately show ?case using 3 by auto
qed simp_all

lemma occurs_str: "s = a @ p @ b \<Longrightarrow> occurs (str_of p) (str_of s)"
  by (auto simp: occurs_iff str_of_def)

lemma marked_lines:
  "occurs (str_of ''HOST_ALIAS_IP'') (str_of ''HOST_ALIAS_IP = '192.0.2.1'' @ [39])"
  "occurs VENDOR_MARKER (str_of ''        # velxiogw vendor patch: `host.velxio.internal` names the machine the'')"
  "occurs VENDOR_MARKER (str_of ''        # velxiogw vendor patch: host.velxio.internal resolves to HOST_ALIAS_IP;'')"
  "occurs VENDOR_MARKER
     (str_of ''        # velxiogw vendor patch: see tcp_nat '' @ [8212] @ str_of '' same loopback rewrite.'')"
proof -
  have "occurs (str_of ''HOST_ALIAS_IP'') (str_of ''HOST_ALIAS_IP = '192.0.2.1'')"
    by (rule occurs_str [of _ "[]" _ "'' = '192.0.2.1''"]) simp
  then show "occurs (str_of ''HOST_ALIAS_IP'') (str_of ''HOST_ALIAS_IP = '192.0.2.1'' @ [39])"
    using occurs_inside [of _ _ "[]" "[39]"] by force
  show "occurs VENDOR_MARKER (str_of ''        # velxiogw vendor patch: `host.velxio.internal` names the machine the'')"
    unfolding VENDOR_MARKER_def
    by (rule occurs_str [of _ "''        # ''" _ "'': `host.velxio.internal` names the machine the''"]) simp
  show "occurs VENDOR_MARKER (str_of ''        # velxiogw vendor patch: host.velxio.internal resolves to HOST_ALIAS_IP;'')"
    unfolding VENDOR_MARKER_def
    by (rule occurs_str [of _ "''        # ''" _ "'': host.velxio.internal resolves to HOST_ALIAS_IP;''"]) simp
  have "occurs VENDOR_MARKER (str_of ''        # velxiogw vendor patch: see tcp_nat '')"
    unfolding VENDOR_MARKER_def by (rule occurs_str [of _ "''        # ''" _ "'': see tcp_nat ''"]) simp
  then show "occurs VENDOR_MARKER
      (str_of ''        # velxiogw vendor patch: see tcp_nat '' @ [8212] @ str_of '' same loopback rewrite.'')"
    using occurs_inside [of _ _ "[]" "[8212] @ str_of '' same loopback rewrite.''"] by force
qed

lemma marked:
  "occurs VENDOR_MARKER DNS_NEW" "occurs VENDOR_MARKER TCP_NEW" "occurs VENDOR_MARKER UDP_NEW"
  "occurs (str_of ''HOST_ALIAS_IP'') CONSTS_APPEND" "UDP2_ANCHOR \<noteq> UDP2_NEW"
  "no_overlap VENDOR_MARKER UDP2_ANCHOR"
proof -
  note lines = marked_lines [THEN occurs_line]
  show "occurs (str_of ''HOST_ALIAS_IP'') CONSTS_APPEND"
    unfolding CONSTS_APPEND_def by (rule lines(1)) (simp only: list.set insert_iff simp_thms)
  show "occurs VENDOR_MARKER TCP_NEW"
    unfolding TCP_NEW_def by (rule lines(3)) (simp only: list.set insert_iff simp_thms)
  show "occurs VENDOR_MARKER UDP_NEW"
    unfolding UDP_NEW_def by (rule lines(4)) (simp only: list.set insert_iff simp_thms)
  have "occurs VENDOR_MARKER DNS_LINES"
    unfolding DNS_LINES_def by (rule lines(2)) (simp only: list.set insert_iff simp_thms)
  from occurs_inside [OF this, of "[]" DNS_ANCHOR] show "occurs VENDOR_MARKER DNS_NEW" by (simp add: DNS_NEW_def)
  show "UDP2_ANCHOR \<noteq> UDP2_NEW" by code_simp
  show "no_overlap VENDOR_MARKER UDP2_ANCHOR" by code_simp
qed

section \<open>Steps that can be run again\<close>

text \<open>
  Such a step leaves what it is for in place when it succeeds, does not change the files when that is
  already in place, and when it fails it fails again on the files it leaves.
\<close>

definition resumable :: "step \<Rightarrow> ((string \<Rightarrow> pystr option) \<Rightarrow> bool) \<Rightarrow> bool" where
  "resumable f done_in \<longleftrightarrow>
     (\<forall>t t1. f t = (None, t1) \<longrightarrow> done_in (files t1)) \<and>
     (\<forall>t. done_in (files t) \<longrightarrow> (\<exists>t1. f t = (None, t1) \<and> files t1 = files t)) \<and>
     (\<forall>t e t1 t2. f t = (Some e, t1) \<longrightarrow> files t2 = files t1 \<longrightarrow>
        (\<exists>t3. f t2 = (Some e, t3) \<and> files t3 = files t1))"

lemma resumableD:
  assumes "resumable f d"
  shows "f t = (None, t1) \<Longrightarrow> d (files t1)" "d (files t) \<Longrightarrow> \<exists>t1. f t = (None, t1) \<and> files t1 = files t"
    "f t = (Some e, t1) \<Longrightarrow> files t2 = files t1 \<Longrightarrow> \<exists>t3. f t2 = (Some e, t3) \<and> files t3 = files t1"
  using assms unfolding resumable_def by blast+

lemma then_run_simps:
  "f t = (None, t1) \<Longrightarrow> then_run f g t = g t1" "f t = (Some e, t1) \<Longrightarrow> then_run f g t = (Some e, t1)"
  "then_run (then_run f g) h = then_run f (then_run g h)"
  by (auto simp: then_run_def fun_eq_iff split: prod.split option.split)

lemma resumable_then:
  assumes f: "resumable f d" and g: "resumable g d'"
    and keep: "\<And>t x t1. d (files t) \<Longrightarrow> g t = (x, t1) \<Longrightarrow> d (files t1)"
  shows "resumable (then_run f g) (\<lambda>fs. d fs \<and> d' fs)"
proof -
  have ok: "d (files t1) \<and> d' (files t1)" if run: "then_run f g t = (None, t1)" for t t1
  proof -
    obtain u where u: "f t = (None, u)" "g u = (None, t1)"
      using run by (auto simp: then_run_def split: prod.splits option.splits)
    then show ?thesis using keep [OF resumableD(1) [OF f u(1)] u(2)] resumableD(1) [OF g u(2)] by blast
  qed
  have again: "\<exists>t1. then_run f g t = (None, t1) \<and> files t1 = files t" if d: "d (files t) \<and> d' (files t)" for t
  proof -
    obtain u where u: "f t = (None, u)" "files u = files t" using resumableD(2) [OF f] d by blast
    then obtain v where "g u = (None, v)" "files v = files u" using resumableD(2) [OF g, of u] d by auto
    then show ?thesis using u then_run_simps(1) [of f t u g] by auto
  qed
  have fail: "\<exists>t3. then_run f g t2 = (Some e, t3) \<and> files t3 = files t1"
    if run: "then_run f g t = (Some e, t1)" and same: "files t2 = files t1" for t e t1 t2
  proof (cases "f t")
    case (Pair x u)
    show ?thesis
    proof (cases x)
      case None
      then have g': "g u = (Some e, t1)" and "d (files t1)"
        using run Pair keep [OF resumableD(1) [OF f]] by (auto simp: then_run_simps)
      then obtain v where v: "f t2 = (None, v)" "files v = files t1" using resumableD(2) [OF f, of t2] same by auto
      then show ?thesis using resumableD(3) [OF g g' v(2)] then_run_simps(1) [of f t2 v g] v(1) by auto
    next
      case (Some e')
      then have "f t = (Some e, t1)" using run Pair by (auto simp: then_run_simps)
      from resumableD(3) [OF f this same] show ?thesis using then_run_simps(2) by blast
    qed
  qed
  show ?thesis unfolding resumable_def using ok again fail by blast
qed

definition has :: "string \<Rightarrow> pystr \<Rightarrow> (string \<Rightarrow> pystr option) \<Rightarrow> bool" where
  "has name p fs \<longleftrightarrow> (case fs name of None \<Rightarrow> False | Some s \<Rightarrow> occurs p s)"

lemma tree_simps [simp]:
  "files (print_line l t) = files t" "files (write_text name s t) = (files t)(name \<mapsto> s)"
  by (simp_all add: print_line_def write_text_def)

lemma patch_resumable:
  assumes "occurs m r"
  shows "resumable (patch name a r m) (has name m)"
proof -
  have "occurs m (replace_once s a r)" if "occurs a s" for s
    using replace_once_split [OF that, of r] occurs_inside [OF assms] by metis
  then show ?thesis by (auto simp: resumable_def patch_def has_def split: option.splits if_splits)
qed

lemma append_resumable: "resumable append_consts (has ''consts.py'' (str_of ''HOST_ALIAS_IP''))"
proof -
  have "occurs (str_of ''HOST_ALIAS_IP'') (s @ CONSTS_APPEND)" for s
    using occurs_inside [OF marked(4), of s "[]"] by simp
  then show ?thesis by (auto simp: resumable_def append_consts_def has_def split: option.splits if_splits)
qed

lemma patch_other: "patch name a r m t = (x, t1) \<Longrightarrow> n \<noteq> name \<Longrightarrow> files t1 n = files t n"
  by (auto simp: patch_def split: option.splits if_splits)

lemma has_cong: "files t1 n = files t n \<Longrightarrow> has n p (files t1) = has n p (files t)"
  by (simp add: has_def)

definition first_edits :: step where
  "first_edits = then_run append_consts
     (then_run (patch ''dns.py'' DNS_ANCHOR DNS_NEW VENDOR_MARKER)
     (then_run (patch ''tcp_nat.py'' TCP_ANCHOR TCP_NEW VENDOR_MARKER)
        (patch ''udp_nat.py'' UDP_ANCHOR UDP_NEW VENDOR_MARKER)))"

text \<open>Every file is marked.\<close>

definition marked_in :: "(string \<Rightarrow> pystr option) \<Rightarrow> bool" where
  "marked_in fs \<longleftrightarrow> has ''consts.py'' (str_of ''HOST_ALIAS_IP'') fs \<and> has ''dns.py'' VENDOR_MARKER fs \<and>
     has ''tcp_nat.py'' VENDOR_MARKER fs \<and> has ''udp_nat.py'' VENDOR_MARKER fs"

lemma then_run_other:
  assumes "then_run f g t = (x, t1)" "\<And>t x t1. f t = (x, t1) \<Longrightarrow> files t1 n = files t n"
    "\<And>t x t1. g t = (x, t1) \<Longrightarrow> files t1 n = files t n"
  shows "files t1 n = files t n"
  using assms by (auto simp: then_run_def split: prod.splits option.splits)

lemma first_edits_resumable: "resumable first_edits marked_in"
proof -
  note p = patch_resumable [OF marked(1)] patch_resumable [OF marked(2)] patch_resumable [OF marked(3)]
  have tcp: "resumable (then_run (patch ''tcp_nat.py'' TCP_ANCHOR TCP_NEW VENDOR_MARKER)
      (patch ''udp_nat.py'' UDP_ANCHOR UDP_NEW VENDOR_MARKER))
      (\<lambda>fs. has ''tcp_nat.py'' VENDOR_MARKER fs \<and> has ''udp_nat.py'' VENDOR_MARKER fs)"
  proof (rule resumable_then [OF p(2,3)])
    fix t x t1
    assume h: "has ''tcp_nat.py'' VENDOR_MARKER (files t)"
      and run: "patch ''udp_nat.py'' UDP_ANCHOR UDP_NEW VENDOR_MARKER t = (x, t1)"
    have "files t1 ''tcp_nat.py'' = files t ''tcp_nat.py''" using run by (rule patch_other) simp
    from has_cong [OF this] show "has ''tcp_nat.py'' VENDOR_MARKER (files t1)" using h by simp
  qed
  have dns: "resumable (then_run (patch ''dns.py'' DNS_ANCHOR DNS_NEW VENDOR_MARKER)
      (then_run (patch ''tcp_nat.py'' TCP_ANCHOR TCP_NEW VENDOR_MARKER)
      (patch ''udp_nat.py'' UDP_ANCHOR UDP_NEW VENDOR_MARKER)))
      (\<lambda>fs. has ''dns.py'' VENDOR_MARKER fs \<and>
        has ''tcp_nat.py'' VENDOR_MARKER fs \<and> has ''udp_nat.py'' VENDOR_MARKER fs)"
  proof (rule resumable_then [OF p(1) tcp])
    fix t x t1
    assume h: "has ''dns.py'' VENDOR_MARKER (files t)"
      and run: "then_run (patch ''tcp_nat.py'' TCP_ANCHOR TCP_NEW VENDOR_MARKER)
        (patch ''udp_nat.py'' UDP_ANCHOR UDP_NEW VENDOR_MARKER) t = (x, t1)"
    have "files t1 ''dns.py'' = files t ''dns.py''"
      using run by (rule then_run_other) (erule patch_other, simp)+
    from has_cong [OF this] show "has ''dns.py'' VENDOR_MARKER (files t1)" using h by simp
  qed
  show ?thesis
    unfolding first_edits_def marked_in_def
  proof (rule resumable_then [OF append_resumable dns])
    fix t x t1
    let ?n = "''consts.py''"
    assume h: "has ?n (str_of ''HOST_ALIAS_IP'') (files t)" and run: "then_run (patch ''dns.py'' DNS_ANCHOR DNS_NEW VENDOR_MARKER)
        (then_run (patch ''tcp_nat.py'' TCP_ANCHOR TCP_NEW VENDOR_MARKER)
        (patch ''udp_nat.py'' UDP_ANCHOR UDP_NEW VENDOR_MARKER)) t = (x, t1)"
    have "files t1 ?n = files t ?n"
      using run by (rule then_run_other) (erule patch_other, simp, erule then_run_other, (erule patch_other, simp)+)
    from has_cong [OF this] show "has ?n (str_of ''HOST_ALIAS_IP'') (files t1)" using h by simp
  qed
qed

section \<open>The second edit of udp\_nat.py\<close>

definition second_edit :: step where
  "second_edit = patch_second ''udp_nat.py'' UDP2_ANCHOR UDP2_NEW"

lemma second_other: "second_edit t = (x, t1) \<Longrightarrow> n \<noteq> ''udp_nat.py'' \<Longrightarrow> files t1 n = files t n"
  by (auto simp: second_edit_def patch_second_def split: option.splits if_splits)

lemma second_success: "second_edit t = (None, t1) \<Longrightarrow> has ''udp_nat.py'' UDP2_NEW (files t1)"
proof -
  have "occurs UDP2_NEW (replace_once s UDP2_ANCHOR UDP2_NEW)" if "occurs UDP2_ANCHOR s" for s
    using replace_once_split [OF that, of UDP2_NEW] occurs_iff by metis
  then show "second_edit t = (None, t1) \<Longrightarrow> has ''udp_nat.py'' UDP2_NEW (files t1)"
    by (auto simp: second_edit_def patch_second_def has_def split: option.splits if_splits)
qed

lemma second_failure:
  assumes "second_edit t = (Some e, t1)"
  shows "t1 = t" "files t2 = files t \<Longrightarrow> second_edit t2 = (Some e, t2)"
  using assms by (auto simp: second_edit_def patch_second_def split: option.splits if_splits)

lemma second_again:
  assumes "has ''udp_nat.py'' UDP2_NEW (files t)"
  shows "\<exists>t1. second_edit t = (None, t1) \<and>
    (files t1 = files t \<longleftrightarrow> \<not> has ''udp_nat.py'' UDP2_ANCHOR (files t))"
proof -
  obtain s where s: "files t ''udp_nat.py'' = Some s" "occurs UDP2_NEW s"
    using assms by (auto simp: has_def split: option.splits)
  have "replace_once s UDP2_ANCHOR UDP2_NEW \<noteq> s" if "occurs UDP2_ANCHOR s"
    using replace_once_split [OF that, of UDP2_NEW] marked(5) by (metis append_same_eq same_append_eq)
  then show ?thesis
    using s by (auto simp: second_edit_def patch_second_def has_def fun_upd_idem_iff)
qed

lemma second_keeps_marks:
  assumes "marked_in (files t)" "second_edit t = (x, t1)"
  shows "marked_in (files t1)"
proof -
  have "occurs VENDOR_MARKER (replace_once s UDP2_ANCHOR UDP2_NEW)"
    if "occurs UDP2_ANCHOR s" "occurs VENDOR_MARKER s" for s
    using replace_once_split [OF that(1), of UDP2_NEW] no_overlap_occurs [OF marked(6)] occurs_append that(2) by metis
  then have "has ''udp_nat.py'' VENDOR_MARKER (files t1)"
    using assms
    by (auto simp: second_edit_def patch_second_def marked_in_def has_def split: option.splits if_splits)
  then show ?thesis
    using assms(1) has_cong [OF second_other [OF assms(2)]] by (simp add: marked_in_def)
qed

lemma apply_patches_eq:
  "apply_patches = then_run first_edits (then_run second_edit (\<lambda>t. (None, print_line ''all patches applied'' t)))"
  by (simp add: apply_patches_def first_edits_def second_edit_def then_run_simps(3))

lemma first_edits_other:
  assumes "first_edits t = (x, t1)" "n \<notin> {''consts.py'', ''dns.py'', ''tcp_nat.py'', ''udp_nat.py''}"
  shows "files t1 n = files t n"
proof -
  have "append_consts t = (x, t1) \<Longrightarrow> files t1 n = files t n" for t x t1
    using assms(2) by (auto simp: append_consts_def split: option.splits if_splits)
  moreover have "patch name a r m t = (x, t1) \<Longrightarrow> files t1 n = files t n"
    if "name \<in> {''dns.py'', ''tcp_nat.py'', ''udp_nat.py''}" for name a r m t x t1
    using assms(2) that patch_other [of name a r m t x t1 n] by auto
  ultimately show ?thesis
    using assms(1) unfolding first_edits_def by (elim then_run_other) blast+
qed

section \<open>Running the script again\<close>


text \<open>A tree on which the run was interrupted before the second edit of \<^verbatim>\<open>udp_nat.py\<close>.\<close>

definition interrupted :: tree where
  "interrupted = \<lparr>files = (\<lambda>_. None)(''consts.py'' \<mapsto> CONSTS_APPEND, ''dns.py'' \<mapsto> DNS_NEW,
     ''tcp_nat.py'' \<mapsto> TCP_NEW, ''udp_nat.py'' \<mapsto> UDP_NEW @ UDP2_ANCHOR), printed = []\<rparr>"

lemma interrupted_succeeds: "fst (apply_patches interrupted) = None"
proof -
  have "occurs VENDOR_MARKER (UDP_NEW @ UDP2_ANCHOR)" "occurs UDP2_ANCHOR (UDP_NEW @ UDP2_ANCHOR)"
    using occurs_inside [OF marked(3), of "[]" UDP2_ANCHOR] occurs_iff [of UDP2_ANCHOR] by (auto, metis append_Nil2)
  then show ?thesis
    by (simp add: apply_patches_def interrupted_def then_run_def append_consts_def patch_def patch_second_def marked)
qed


text \<open>
  When an anchor is missing, what was written before stays: here \<^verbatim>\<open>dns.py\<close> has lost its anchor, and
  \<^verbatim>\<open>consts.py\<close> has been extended all the same.
\<close>

lemma half_patched:
  "\<exists>message. apply_patches \<lparr>files = (\<lambda>_. None)(''consts.py'' \<mapsto> [], ''dns.py'' \<mapsto> []), printed = []\<rparr> =
    (Some (Exit message),
     \<lparr>files = (\<lambda>_. None)(''consts.py'' \<mapsto> CONSTS_APPEND, ''dns.py'' \<mapsto> []), printed = [''  consts.py: patched'']\<rparr>)"
proof -
  have "\<not> occurs VENDOR_MARKER []" "\<not> occurs DNS_ANCHOR []" "\<not> occurs (str_of ''HOST_ALIAS_IP'') []"
    by (simp_all add: occurs_def VENDOR_MARKER_def DNS_ANCHOR_def str_of_def)
  then show ?thesis
    by (simp add: apply_patches_def then_run_def append_consts_def patch_def write_text_def print_line_def fun_upd_twist)
qed

end
