(* ===== verification/Spec2Isabelle.thy ===== *)
theory Spec2Isabelle
  imports Responders Dhcp Egress Tcp_Behaviour Udp_Properties Dns_Properties Inbound_Properties
    Session_Order Launch Vendoring
begin

text \<open>
  Velxio gateway (\<^verbatim>\<open>src/velxiogw\<close>): a user-mode network for simulated Wi-Fi chips. A chip sends
  Ethernet frames over a WebSocket (\<^verbatim>\<open>server.py\<close>); the bridge of its session (\<^verbatim>\<open>net/bridge.py\<close>)
  demultiplexes them to responders (ARP, ICMP, DHCP, DNS), to the NATs (TCP, UDP), which open
  real sockets on the host behind an egress guard, and to the one-shot HTTP client into the
  chip. All of them inject frames back to the chip through the bridge.

  How the program is modelled, bottom up.

  \<^item> \<open>Prelude\<close>, \<open>Py_Str\<close>, \<open>Py_Dict\<close>: the Python substrate. \<^verbatim>\<open>bytes\<close> is a list of 8-bit words, \<^verbatim>\<open>str\<close> a
    list of code points, \<^verbatim>\<open>int\<close> is \<open>int\<close>; an exception is the left value of \<open>exn + 'a\<close>; slices
    clip as in Python; \<^verbatim>\<open>struct.pack\<close> raises on a value that does not fit. Dictionaries keep
    insertion order and provide the laws of the locale \<open>table\<close>.
  \<^item> \<open>Codec\<close>: the contract of a wire format as locales (an encoder that succeeds on well-formed
    values, a decoder that reads them back). \<open>Machine\<close>: the contract of an event-driven
    component (an invariant its steps keep, a rank they never lower, a log they extend in order), and the contract
    \<open>simulation\<close> of a part inside a whole: a step of the whole is a run of the part. Every
    format and every stateful component interprets them.
  \<^item> \<open>Consts\<close> (\<^verbatim>\<open>consts.py\<close>), \<open>Checksums\<close> (\<^verbatim>\<open>checksums.py\<close>): constants, dotted quads, the ones'
    complement checksum; its closed form modulo 65535 is what every frame proof rests on.
  \<^item> \<open>Frames\<close>, \<open>Transport\<close> (\<^verbatim>\<open>protocols.py\<close>): Ethernet, ARP, IPv4, TCP with its options, UDP and ICMP;
    parse and encode invert each other, checksums verify, no parser raises anything but
    \<^verbatim>\<open>ValueError\<close>.
  \<^item> \<open>Responders\<close> (\<^verbatim>\<open>arp.py\<close>, \<^verbatim>\<open>icmp.py\<close>), \<open>Dhcp\<close> (\<^verbatim>\<open>dhcp.py\<close> and the DHCP codec): handlers as functions
    from the frame and the server's state to the reply and the next state.
  \<^item> \<open>Egress\<close> (\<^verbatim>\<open>egress_guard.py\<close> with the address tables of Python's \<^verbatim>\<open>ipaddress\<close>): the policy, shown
    equal to a list of blocked address ranges. The environment variable of the override and
    the verdict on IPv6 addresses are parameters (\<open>egress_env\<close>).
  \<^item> \<open>Tcp_Conn\<close>, \<open>Tcp_Nat\<close> (\<^verbatim>\<open>tcp_nat.py\<close>): the sequence arithmetic, the connection object and the
    manager \<^verbatim>\<open>TcpNat\<close> with every handler, the deferred connect, the dial ladder, the
    host-to-chip pump and the teardown. Connection objects live in a store, because the
    table, the pump and the deferred connect alias them; what the manager does to the
    outside is appended to a trace. \<open>Tcp_Machine\<close>: one event per resumption point of a
    coroutine, the step relation \<open>nat_step\<close> and the invariant \<open>nat_inv\<close>. \<open>Tcp_Steps\<close>: every
    handler keeps it and never raises. \<open>Tcp_Progress\<close>: what a step can do to the bytes accepted
    from the chip, to the state of a connection and to the dials made. \<open>Tcp_Properties\<close>: the
    safety properties over all runs. \<open>Tcp_Behaviour\<close>: what each handler does, branch by
    branch, in every reachable state.
  \<^item> \<open>Udp_Nat\<close>, \<open>Udp_Properties\<close> (\<^verbatim>\<open>udp_nat.py\<close>): the flow table, the endpoint that is opened for a
    flow, the replies and the idle reaper, as handlers and as a machine; the table is exact,
    replies reach the chip, idle flows are released.
  \<^item> \<open>Dns_Codec\<close> (\<^verbatim>\<open>protocols.py\<close>), \<open>Dns\<close> (\<^verbatim>\<open>dns.py\<close>): names with compression pointers, the message
    codec, the cache and the running lookups that all resolvers share, and the handler.
    \<open>Dns_Machine\<close>: queries, lookups and resumptions in any order. \<open>Dns_Properties\<close>: the cache is a
    bounded memo of the host resolver's answers; what each query is answered.
  \<^item> \<open>Http\<close>, \<open>Tcp_Inbound\<close> (\<^verbatim>\<open>tcp_inbound.py\<close>): when a response is complete, and the client with its
    request loop. \<open>Inbound_Machine\<close>: its events and invariant. \<open>Inbound_Properties\<close>: each request
    has one outcome, which is a prefix of the chip's stream.
  \<^item> \<open>Bridge\<close> (\<^verbatim>\<open>bridge.py\<close>): the demultiplexer, composed of the models above. \<open>Bridge_Machine\<close>: the
    bridge as a machine; interpretations of \<open>simulation\<close> carry every theorem about the runs of
    a component to the runs of the bridge. \<open>Bridge_Properties\<close>: properties that span
    components: which sockets are opened, what can raise, what stopping leaves.
  \<^item> \<open>Egress_Log\<close> (\<^verbatim>\<open>egress_log.py\<close>), \<open>Gateway_Frames\<close>, \<open>Bridge_Outputs\<close>: the events of the egress log
    and what a receiver accepts as a frame; every frame that leaves a bridge is accepted, and
    the log accounts for every socket. The components show it of their traces
    (\<open>adds\<close>, \<open>udp_adds\<close>, \<open>in_adds\<close>: what a step may append).
  \<^item> \<open>Url\<close>, \<open>Server\<close>, \<open>Server_Properties\<close> (\<^verbatim>\<open>server.py\<close>): the part of \<^verbatim>\<open>urllib.parse\<close> that admission
    uses; the plain HTTP answers with their status, headers and body; the admission of a
    request, which is part of the step that opens a tunnel; the messages of a session and the
    registry of bridges. Who is upgraded, that every tunnel and bridge belongs to a client that
    showed the code, and what holds while no two tunnels share a client id.
  \<^item> \<open>Gateway\<close>: the whole process: the server, the bridges it has created and the DNS proxy they share;
    what the server logs that it does to bridges is carried out on the bridges' own models.
    \<open>Gateway_Machine\<close>: its invariant, and \<open>simulation\<close> of the server and of each bridge in it.
    \<open>Gateway_Properties\<close>: sessions are isolated, bridges end with them and need pairing.
  \<^item> \<open>Handler_Waits\<close>, \<open>Gateway_Waits\<close>, \<open>Session_Order\<close>: what a call of \<^verbatim>\<open>deliver_packet_out\<close> may wait for
    inside the NATs, which steps begin and end such a wait, and the process in which a handler
    takes up its next message only when the call is over: each bridge has one frame under way at a time,
    and no tunnel gets stuck.
  \<^item> \<open>Launch\<close> (\<^verbatim>\<open>cli.py\<close>): \<^verbatim>\<open>main\<close> after argument parsing, and that what its banner promises is what the
    server and the guard do. \<open>Vendoring\<close> (\<^verbatim>\<open>scripts/apply-patches.py\<close>): the script that patches the
    network stack, over a map of files, and what a second run of it does.

  Atomicity. A coroutine is cut where it waits for the host, for a timer or for another task:
  a dial, a read, a lookup, the creation of an endpoint, the poll of a request. Injecting a frame
  and draining a writer belong to the step that does them, so two handlers never interleave
  at those awaits; the frames a bridge injects during a step leave at its end. The server is
  cut at each message, where it waits for an old bridge to stop and where it waits for
  \<^verbatim>\<open>deliver_packet_out\<close>; the three shutdowns of \<^verbatim>\<open>stop\<close> run in the step that begins it. The steps
  of \<open>Gateway\<close> keep a handler only while its frame waits for the resolver; those of
  \<open>Session_Order\<close> also while it waits for a dial or an endpoint, and are steps of \<open>Gateway\<close>, so that
  every theorem about all runs of the process holds of those in this order. Host sockets, the clock,
  random numbers and the answers of \<^verbatim>\<open>getaddrinfo\<close> are arguments of the steps; a host write may
  fail at any time.

  Bounds. No definition uses fuel. Loops terminate structurally or by a measure (the carry
  loop of the checksum, the segmenting loop of the pump). The one loop that may not end is
  that of the DNS name parser, which follows compression pointers without a limit; it is a
  \<^theory_text>\<open>partial_function (option)\<close>, and \<open>dns_name_ends\<close> says exactly when it returns and after how
  many rounds. The dial ladder has five attempts, 9.5 seconds in all. In-order delivery is
  stated for streams shorter than \<open>2 ^ 32 - 1\<close> bytes, where a sequence number identifies a
  position. An inbound request takes one of the 16384 ephemeral ports.

  Not modelled: \<^verbatim>\<open>argparse\<close>, the format of log lines and the farewell on Ctrl-C; the WebSocket
  library, of which the construction of a response and its header table are parameters
  (\<open>web\<close>), the request and the messages inputs; \<^verbatim>\<open>json.loads\<close> and \<^verbatim>\<open>base64.b64decode\<close>, an input and a
  parameter; of \<^verbatim>\<open>urllib.parse\<close>, Unicode normalization, the check of IPv6 literals and
  percent-decoding, which are parameters; the cancellation of handlers when the process ends; a
  suspension inside the injection of a frame or the draining of a writer; in the vendoring
  script, a write that fails.
\<close>

end
